(* ===== verification/Prelude.thy ===== *)
theory Prelude
  imports Main "HOL-Library.Char_ord" "HOL-Library.List_Lexorder" "HOL-Library.Monad_Syntax"
begin

section \<open>Shared vocabulary\<close>

text \<open>
  What every component of the IRC server uses: bytes and the character classes of
  \<open><cctype>\<close> in the C locale, the substring and search operations of \<open>std::string\<close>,
  loops with an abortable body, and the collections of facts that the component proofs share.

  A \<open>std::string\<close> is a \<open>string\<close>: both are finite sequences of 8-bit characters. The
  option type carries C++'s undefined behaviour and exceptions: \<open>None\<close> means that the code
  would dereference a dead pointer, index a vector past its end, or throw
  \<open>std::out_of_range\<close>; a theorem that a routine yields \<open>Some\<close> says that none of these
  can happen.
\<close>

named_theorems ok_intro "operations preserve the invariants of their component"
named_theorems lf_simps "absence of line feeds in composed strings"

subsection \<open>Pointers\<close>

type_synonym ptr = nat

abbreviation (input) NULL :: ptr where
  "NULL \<equiv> 0"

subsection \<open>Bytes and character classes\<close>

abbreviation LF :: char where "LF \<equiv> CHR 0x0A"
abbreviation CR :: char where "CR \<equiv> CHR 0x0D"

definition byte :: "char \<Rightarrow> nat" where
  "byte c = of_char c"

definition isupper :: "char \<Rightarrow> bool" where
  "isupper c \<longleftrightarrow> 65 \<le> byte c \<and> byte c \<le> 90"

definition islower :: "char \<Rightarrow> bool" where
  "islower c \<longleftrightarrow> 97 \<le> byte c \<and> byte c \<le> 122"

definition isalpha :: "char \<Rightarrow> bool" where
  "isalpha c \<longleftrightarrow> isupper c \<or> islower c"

definition isdigit :: "char \<Rightarrow> bool" where
  "isdigit c \<longleftrightarrow> 48 \<le> byte c \<and> byte c \<le> 57"

definition isspace :: "char \<Rightarrow> bool" where
  "isspace c \<longleftrightarrow> byte c = 32 \<or> (9 \<le> byte c \<and> byte c \<le> 13)"

definition iscntrl :: "char \<Rightarrow> bool" where
  "iscntrl c \<longleftrightarrow> byte c < 32 \<or> byte c = 127"

definition toupper :: "char \<Rightarrow> char" where
  "toupper c = (if islower c then char_of (byte c - 32) else c)"

lemma byte_less: "byte c < 256"
  by (simp add: byte_def)

lemma byte_toupper: "byte (toupper c) = (if islower c then byte c - 32 else byte c)"
  by (auto simp: toupper_def islower_def byte_def)

lemma toupper_not_lower: "\<not> islower (toupper c)"
  by (auto simp: islower_def byte_toupper)

lemma toupper_idem [simp]: "toupper (toupper c) = toupper c"
  by (metis toupper_def toupper_not_lower)

lemma byte_inject: "byte c = byte d \<longleftrightarrow> c = d"
  by (simp add: byte_def)

lemma isupper_toupper: "islower c \<Longrightarrow> isupper (toupper c)"
  by (auto simp: islower_def isupper_def byte_toupper)

lemma toupper_eq_iff: "\<not> isalpha d \<Longrightarrow> toupper c = d \<longleftrightarrow> c = d"
  using isupper_toupper [of c] by (auto simp: isalpha_def toupper_def)

lemma toupper_SP_LF [simp]:
  "toupper c = CHR '' '' \<longleftrightarrow> c = CHR '' ''" "toupper c = LF \<longleftrightarrow> c = LF"
  "CHR '' '' = toupper c \<longleftrightarrow> c = CHR '' ''" "LF = toupper c \<longleftrightarrow> c = LF"
  using toupper_eq_iff [of "CHR '' ''" c] toupper_eq_iff [of LF c]
  by (auto simp: isalpha_def islower_def isupper_def byte_def)

subsection \<open>Substrings\<close>

text \<open>\<open>s.substr (pos, n)\<close> throws \<open>std::out_of_range\<close> when \<open>pos > s.size ()\<close> and clips \<open>n\<close>.\<close>

definition substr :: "string \<Rightarrow> nat \<Rightarrow> nat \<Rightarrow> string option" where
  "substr s pos n = (if pos \<le> length s then Some (take n (drop pos s)) else None)"

definition substr_from :: "string \<Rightarrow> nat \<Rightarrow> string option" where
  "substr_from s pos = (if pos \<le> length s then Some (drop pos s) else None)"

text \<open>\<open>while (pos < len && p (s[pos])) ++pos;\<close>\<close>

function skip_while :: "(char \<Rightarrow> bool) \<Rightarrow> string \<Rightarrow> nat \<Rightarrow> nat" where
  "skip_while p s pos = (if pos < length s \<and> p (s ! pos) then skip_while p s (Suc pos) else pos)"
  by pat_completeness auto
termination
  by (relation "measure (\<lambda>(p, s, pos). length s - pos)") auto

declare skip_while.simps [simp del]

lemma skip_while_eq:
  "pos \<le> length s \<Longrightarrow> skip_while p s pos = pos + length (takeWhile p (drop pos s))"
proof (induction p s pos rule: skip_while.induct)
  case (1 p s pos)
  show ?case
  proof (cases "pos < length s")
    case True
    then have "drop pos s = s ! pos # drop (Suc pos) s"
      by (rule Cons_nth_drop_Suc [symmetric])
    with True "1.IH" show ?thesis
      by (simp add: skip_while.simps [of p s pos])
  next
    case False
    with "1.prems" have "pos = length s" by simp
    then show ?thesis
      by (simp add: skip_while.simps [of p s "length s"])
  qed
qed

lemma skip_while_le: "pos \<le> length s \<Longrightarrow> skip_while p s pos \<le> length s"
  using skip_while_eq [of pos s p] length_takeWhile_le [of p "drop pos s"] by simp

lemma drop_skip_while:
  "pos \<le> length s \<Longrightarrow> drop (skip_while p s pos) s = dropWhile p (drop pos s)"
  by (simp add: skip_while_eq dropWhile_eq_drop add.commute)

lemma substr_skip_while:
  "pos \<le> length s \<Longrightarrow>
    substr s pos (skip_while p s pos - pos) = Some (takeWhile p (drop pos s))"
  by (simp add: substr_def skip_while_eq takeWhile_eq_take [symmetric])

subsection \<open>Loops whose body may abort\<close>

primrec for_each :: "('x \<Rightarrow> 's \<Rightarrow> 's option) \<Rightarrow> 'x list \<Rightarrow> 's \<Rightarrow> 's option" where
  "for_each f [] s = Some s"
| "for_each f (x # xs) s = Option.bind (f x s) (for_each f xs)"

lemma for_each_append:
  "for_each f (xs @ ys) s = Option.bind (for_each f xs s) (for_each f ys)"
  by (induction xs arbitrary: s) (auto split: Option.bind_splits)

lemma for_each_rule:
  assumes step: "\<And>x s. x \<in> set xs \<Longrightarrow> I s \<Longrightarrow> \<exists>s'. f x s = Some s' \<and> I s'"
    and init: "I s"
  shows "\<exists>s'. for_each f xs s = Some s' \<and> I s'"
  using assms
proof (induction xs arbitrary: s)
  case Nil
  then show ?case by simp
next
  case (Cons x xs)
  from Cons.prems obtain s1 where s1: "f x s = Some s1" "I s1"
    by (metis list.set_intros(1))
  from Cons.IH [OF Cons.prems(1) s1(2)] obtain s' where "for_each f xs s1 = Some s'" "I s'"
    by auto
  with s1 show ?case by simp
qed

lemma for_each_map: "for_each f (map g xs) s = for_each (f \<circ> g) xs s"
  by (induction xs arbitrary: s) (auto split: Option.bind_splits)

lemma for_each_cong [fundef_cong]:
  "xs = ys \<Longrightarrow> (\<And>x s. x \<in> set ys \<Longrightarrow> f x s = g x s) \<Longrightarrow> for_each f xs s = for_each g ys s"
  by (induction ys arbitrary: xs s) (auto intro: Option.bind_cong)

subsection \<open>Line-feed freedom\<close>

definition lf_free :: "string \<Rightarrow> bool" where
  "lf_free s \<longleftrightarrow> LF \<notin> set s"

lemma lf_free_append [lf_simps]: "lf_free (s @ t) \<longleftrightarrow> lf_free s \<and> lf_free t"
  by (auto simp: lf_free_def)

lemma lf_free_Nil [lf_simps]: "lf_free []"
  by (simp add: lf_free_def)

lemma lf_free_Cons [lf_simps]: "lf_free (c # s) \<longleftrightarrow> c \<noteq> LF \<and> lf_free s"
  by (auto simp: lf_free_def)

lemma lf_free_sub: "set t \<subseteq> set s \<Longrightarrow> lf_free s \<Longrightarrow> lf_free t"
  by (auto simp: lf_free_def)

end
