(* ===== verification/Std_Containers.thy ===== *)
theory Std_Containers
  imports Prelude
begin

section \<open>std::map and std::set\<close>

text \<open>
  The two ordered containers the program uses. A \<open>std::map\<close> is the list of its entries in
  ascending key order, a \<open>std::set\<close> the list of its elements in ascending order; iteration
  visits the list from the left, so the order in which the code walks a container (for a set of
  pointers: by address) is the order of the list. The laws the rest of the development relies on
  are the assumptions of the locales \<open>map_interface\<close> and \<open>set_interface\<close>, interpreted below on
  these lists.
\<close>

type_synonym ('k, 'v) std_map = "('k \<times> 'v) list"
type_synonym 'a std_set = "'a list"

subsection \<open>Maps\<close>

text \<open>\<open>find\<close>, \<open>m[k] = v\<close> (or \<open>insert\<close> of an absent key), \<open>erase\<close>.\<close>

definition map_find :: "('k, 'v) std_map \<Rightarrow> 'k \<Rightarrow> 'v option" where
  "map_find m k = map_of m k"

fun map_put :: "'k::linorder \<Rightarrow> 'v \<Rightarrow> ('k, 'v) std_map \<Rightarrow> ('k, 'v) std_map" where
  "map_put k v [] = [(k, v)]"
| "map_put k v ((k', v') # m) =
     (if k < k' then (k, v) # (k', v') # m
      else if k = k' then (k, v) # m
      else (k', v') # map_put k v m)"

definition map_erase :: "'k \<Rightarrow> ('k, 'v) std_map \<Rightarrow> ('k, 'v) std_map" where
  "map_erase k m = filter (\<lambda>(k', v). k' \<noteq> k) m"

text \<open>\<open>insert\<close> leaves an entry with the same key alone and says so in its second component.\<close>

definition map_insert :: "'k::linorder \<Rightarrow> 'v \<Rightarrow> ('k, 'v) std_map \<Rightarrow> ('k, 'v) std_map \<times> bool" where
  "map_insert k v m = (if map_find m k = None then (map_put k v m, True) else (m, False))"

definition map_ok :: "('k::linorder, 'v) std_map \<Rightarrow> bool" where
  "map_ok m \<longleftrightarrow> sorted_wrt (<) (map fst m)"

locale map_interface =
  fixes find :: "'m \<Rightarrow> 'k \<Rightarrow> 'v option"
    and put :: "'k \<Rightarrow> 'v \<Rightarrow> 'm \<Rightarrow> 'm"
    and erase :: "'k \<Rightarrow> 'm \<Rightarrow> 'm"
    and empty :: "'m"
    and ok :: "'m \<Rightarrow> bool"
  assumes find_empty: "find empty k = None"
    and find_put: "find (put k v m) k' = (if k' = k then Some v else find m k')"
    and find_erase: "find (erase k m) k' = (if k' = k then None else find m k')"
    and ok_empty: "ok empty"
    and ok_put: "ok m \<Longrightarrow> ok (put k v m)"
    and ok_erase: "ok m \<Longrightarrow> ok (erase k m)"
    and ext: "ok m \<Longrightarrow> ok m' \<Longrightarrow> (\<And>k. find m k = find m' k) \<Longrightarrow> m = m'"
begin

lemma find_put_same [simp]: "find (put k v m) k = Some v"
  by (simp add: find_put)

lemma find_erase_same [simp]: "find (erase k m) k = None"
  by (simp add: find_erase)

lemma put_put: "ok m \<Longrightarrow> put k v (put k w m) = put k v m"
  by (rule ext) (auto simp: ok_put find_put)

lemma put_same: "ok m \<Longrightarrow> find m k = Some v \<Longrightarrow> put k v m = m"
  by (rule ext) (auto simp: ok_put find_put)

lemma erase_put: "ok m \<Longrightarrow> find m k = None \<Longrightarrow> erase k (put k v m) = m"
  by (rule ext) (auto simp: ok_put ok_erase find_put find_erase)

lemma erase_absent: "ok m \<Longrightarrow> find m k = None \<Longrightarrow> erase k m = m"
  by (rule ext) (auto simp: ok_erase find_erase)

text \<open>Moving a value from one key to another keeps a map injective.\<close>

definition inj_map :: "'m \<Rightarrow> bool" where
  "inj_map m \<longleftrightarrow> (\<forall>k k' v. find m k = Some v \<longrightarrow> find m k' = Some v \<longrightarrow> k = k')"

lemma inj_map_erase: "inj_map m \<Longrightarrow> inj_map (erase k m)"
  by (auto simp: inj_map_def find_erase split: if_splits)

lemma inj_map_put: "inj_map m \<Longrightarrow> (\<And>k'. find m k' \<noteq> Some v) \<Longrightarrow> inj_map (put k v m)"
  by (auto simp: inj_map_def find_put split: if_splits)

lemma inj_map_move:
  "inj_map m \<Longrightarrow> find m k = Some v \<Longrightarrow> inj_map (erase k (put k' v m))"
  by (auto simp: inj_map_def find_put find_erase split: if_splits)

end

lemma map_find_put: "map_find (map_put k v m) k' = (if k' = k then Some v else map_find m k')"
  by (induction m) (auto simp: map_find_def)

lemma map_find_erase: "map_find (map_erase k m) k' = (if k' = k then None else map_find m k')"
  by (induction m) (auto simp: map_find_def map_erase_def)

lemma keys_map_put: "fst ` set (map_put k v m) = insert k (fst ` set m)"
  by (induction k v m rule: map_put.induct) auto

lemma map_ok_put [ok_intro]: "map_ok m \<Longrightarrow> map_ok (map_put k v m)"
proof (induction m)
  case Nil
  then show ?case by (simp add: map_ok_def)
next
  case (Cons x m)
  then show ?case
    using keys_map_put [of k v m] by (cases x) (fastforce simp: map_ok_def)
qed

lemma map_ok_erase [ok_intro]: "map_ok m \<Longrightarrow> map_ok (map_erase k m)"
  by (induction m) (auto simp: map_ok_def map_erase_def)

lemma map_ok_distinct: "map_ok m \<Longrightarrow> distinct (map fst m)"
  by (simp add: map_ok_def strict_sorted_iff)

lemma map_find_set: "map_ok m \<Longrightarrow> map_find m k = Some v \<longleftrightarrow> (k, v) \<in> set m"
  by (simp add: map_find_def map_ok_distinct)

lemma map_find_ext:
  assumes "map_ok m" "map_ok m'" and "\<And>k. map_find m k = map_find m' k"
  shows "m = m'"
proof -
  have set_eq: "set m = set m'"
    using assms by (metis map_find_set prod.exhaust subset_antisym subsetI)
  have keys: "map fst m = map fst m'"
    using assms(1,2) set_eq by (intro strict_sorted_equal) (simp_all add: map_ok_def)
  have "inj_on fst (set m \<union> set m')"
    using map_ok_distinct [OF assms(1)] set_eq by (simp add: distinct_map)
  with keys show ?thesis
    using inj_on_map_eq_map by blast
qed

interpretation smap: map_interface
  "map_find :: ('k::linorder, 'v) std_map \<Rightarrow> 'k \<Rightarrow> 'v option" map_put map_erase "[]" map_ok
proof unfold_locales
  show "map_find ([] :: ('k, 'v) std_map) k = None" for k by (simp add: map_find_def)
  show "map_ok ([] :: ('k, 'v) std_map)" by (simp add: map_ok_def)
qed (auto simp: map_find_put map_find_erase intro: ok_intro map_find_ext)

lemmas map_find_simps = map_find_put map_find_erase smap.find_empty

lemma map_find_map: "map_find (map (\<lambda>(k, v). (k, f v)) m) k = map_option f (map_find m k)"
  by (induction m) (auto simp: map_find_def)

lemma map_ok_map: "map_ok (map (\<lambda>(k, v). (k, f v)) m) = map_ok m"
  by (simp add: map_ok_def comp_def case_prod_beta)

lemma map_find_insert:
  "map_insert k v m = (m', b) \<Longrightarrow>
    b = (map_find m k = None) \<and>
    map_find m' k' = (if b \<and> k' = k then Some v else map_find m k')"
  by (auto simp: map_insert_def map_find_put split: if_splits)

subsection \<open>Sets\<close>

fun set_insert :: "'a::linorder \<Rightarrow> 'a std_set \<Rightarrow> 'a std_set" where
  "set_insert x [] = [x]"
| "set_insert x (y # s) =
     (if x < y then x # y # s else if x = y then y # s else y # set_insert x s)"

definition set_erase :: "'a \<Rightarrow> 'a std_set \<Rightarrow> 'a std_set" where
  "set_erase x s = filter (\<lambda>y. y \<noteq> x) s"

definition set_ok :: "'a::linorder std_set \<Rightarrow> bool" where
  "set_ok s \<longleftrightarrow> sorted_wrt (<) s"

locale set_interface =
  fixes elems :: "'s \<Rightarrow> 'a set"
    and ins :: "'a \<Rightarrow> 's \<Rightarrow> 's"
    and del :: "'a \<Rightarrow> 's \<Rightarrow> 's"
    and count :: "'s \<Rightarrow> nat"
    and empty :: "'s"
    and ok :: "'s \<Rightarrow> bool"
  assumes elems_empty: "elems empty = {}"
    and elems_ins: "elems (ins x s) = insert x (elems s)"
    and elems_del: "elems (del x s) = elems s - {x}"
    and finite_elems: "finite (elems s)"
    and count_card: "ok s \<Longrightarrow> count s = card (elems s)"
    and ok_empty: "ok empty"
    and ok_ins: "ok s \<Longrightarrow> ok (ins x s)"
    and ok_del: "ok s \<Longrightarrow> ok (del x s)"
begin

lemma count_0_iff: "ok s \<Longrightarrow> count s = 0 \<longleftrightarrow> elems s = {}"
  by (simp add: count_card finite_elems)

lemma count_ins_new: "ok s \<Longrightarrow> x \<notin> elems s \<Longrightarrow> count (ins x s) = Suc (count s)"
  by (simp add: count_card ok_ins elems_ins finite_elems)

lemma count_del: "ok s \<Longrightarrow> x \<in> elems s \<Longrightarrow> Suc (count (del x s)) = count s"
  using card_Suc_Diff1 [OF finite_elems, of x s] by (simp add: count_card ok_del elems_del)

lemma del_shrinks: "ok s \<Longrightarrow> count (del x s) < count s \<longleftrightarrow> x \<in> elems s"
  by (cases "x \<in> elems s") (use count_del [of s x] in \<open>auto simp: count_card ok_del elems_del\<close>)

end

lemma set_set_insert: "set (set_insert x s) = insert x (set s)"
  by (induction s) auto

lemma set_set_erase: "set (set_erase x s) = set s - {x}"
  by (auto simp: set_erase_def)

lemma set_ok_insert [ok_intro]: "set_ok s \<Longrightarrow> set_ok (set_insert x s)"
  by (induction s) (auto simp: set_ok_def set_set_insert)

lemma set_ok_erase [ok_intro]: "set_ok s \<Longrightarrow> set_ok (set_erase x s)"
  by (induction s) (auto simp: set_ok_def set_erase_def)

lemma set_ok_distinct: "set_ok s \<Longrightarrow> distinct s"
  by (simp add: set_ok_def strict_sorted_iff)

interpretation sset: set_interface
  "set :: 'a::linorder list \<Rightarrow> 'a set" set_insert set_erase length "[]" set_ok
  by unfold_locales
    (auto simp: set_set_insert set_set_erase distinct_card set_ok_distinct intro: ok_intro,
     simp add: set_ok_def)

lemma set_insert_neq_Nil [simp]: "set_insert x s \<noteq> []"
  by (cases s) auto

lemmas std_set_simps = set_set_insert set_set_erase

end
