(* ===== verification/Message_Parser.thy ===== *)
theory Message_Parser
  imports Std_Containers
begin

section \<open>Message and Parser\<close>

text \<open>
  \<open>Message.cpp\<close> and \<open>Parser.cpp\<close>: a line of input becomes a command and at most fifteen
  parameters. The parser is translated with its index arithmetic; \<open>spec_parse\<close> states over lists
  what it computes, and \<open>render\<close> is the inverse direction.
\<close>

subsection \<open>Message\<close>

record message =
  command :: string
  params :: "string list"

definition getCommand :: "message \<Rightarrow> string" where
  [simp]: "getCommand m = command m"

definition getParams :: "message \<Rightarrow> string list" where
  [simp]: "getParams m = params m"

definition getParamCount :: "message \<Rightarrow> nat" where
  "getParamCount m = length (params m)"

text \<open>\<open>_params[index]\<close> is undefined past the end.\<close>

definition getSingleParam :: "message \<Rightarrow> nat \<Rightarrow> string option" where
  "getSingleParam m index = (if index < length (params m) then Some (params m ! index) else None)"

definition hasParam :: "message \<Rightarrow> nat \<Rightarrow> bool" where
  "hasParam m index = (if index < length (params m) then True else False)"

lemma getSingleParam_Some: "i < length (params m) \<Longrightarrow> getSingleParam m i = Some (params m ! i)"
  by (simp add: getSingleParam_def)

subsection \<open>Helpers of the parser\<close>

definition find_first_not_of :: "string \<Rightarrow> char \<Rightarrow> nat option" where
  "find_first_not_of s c =
     (let i = skip_while (\<lambda>d. d = c) s 0 in if i < length s then Some i else None)"

definition find_last_not_of :: "string \<Rightarrow> char \<Rightarrow> nat option" where
  "find_last_not_of s c =
     (case find_first_not_of (rev s) c of None \<Rightarrow> None | Some i \<Rightarrow> Some (length s - 1 - i))"

text \<open>
  In \<open>trim\<close> the second search cannot fail once the first has succeeded; were it to return
  \<open>npos\<close>, the count \<open>npos - start + 1\<close> would take the rest of the string.
\<close>

definition trim :: "string \<Rightarrow> string option" where
  "trim s =
     (case find_first_not_of s CHR '' '' of
        None \<Rightarrow> Some ''''
      | Some start \<Rightarrow>
          (case find_last_not_of s CHR '' '' of
             None \<Rightarrow> substr_from s start
           | Some end \<Rightarrow> substr s start (end - start + 1)))"

definition toUpper :: "string \<Rightarrow> string" where
  "toUpper s = map toupper s"

subsection \<open>The parser\<close>

definition MAX_PARAMS :: nat where
  "MAX_PARAMS = 15"

abbreviation is_sp :: "char \<Rightarrow> bool" where
  "is_sp c \<equiv> c = CHR '' ''"

abbreviation non_sp :: "char \<Rightarrow> bool" where
  "non_sp c \<equiv> c \<noteq> CHR '' ''"

function parse_params :: "string \<Rightarrow> nat \<Rightarrow> string list \<Rightarrow> string list option" where
  "parse_params line pos ps =
     (if pos < length line \<and> length ps < MAX_PARAMS then
        (let pos = skip_while is_sp line pos in
         if length line \<le> pos then Some ps
         else if line ! pos = CHR '':'' then
           do { t \<leftarrow> substr_from line (pos + 1); Some (ps @ [t]) }
         else
           (let paramStart = pos; pos = skip_while non_sp line pos in
            do { p \<leftarrow> substr line paramStart (pos - paramStart);
                 parse_params line pos (ps @ [p]) }))
      else Some ps)"
  by pat_completeness auto
termination
  by (relation "measure (\<lambda>(line, pos, ps). MAX_PARAMS - length ps)") auto

declare parse_params.simps [simp del]

definition empty_message :: message where
  "empty_message = \<lparr>command = '''', params = []\<rparr>"

definition parse :: "string \<Rightarrow> message option" where
  "parse line =
     do {
       t \<leftarrow> trim line;
       if t = '''' then Some empty_message
       else
         (let pos = (if 0 < length line \<and> line ! 0 = CHR '':''
                     then skip_while is_sp line (skip_while non_sp line 0) else 0);
              cmdStart = pos;
              pos = skip_while non_sp line pos
          in do {
               cmd \<leftarrow> substr line cmdStart (pos - cmdStart);
               let command = toUpper cmd;
               if command = '''' then Some empty_message
               else do {
                 ps \<leftarrow> parse_params line pos [];
                 Some \<lparr>command = command, params = ps\<rparr>
               }
             })
     }"

subsection \<open>What the parser computes\<close>

primrec spec_params :: "nat \<Rightarrow> string \<Rightarrow> string list" where
  "spec_params 0 s = []"
| "spec_params (Suc n) s =
     (case dropWhile is_sp s of
        [] \<Rightarrow> []
      | c # cs \<Rightarrow>
          if c = CHR '':'' then [cs]
          else takeWhile non_sp (c # cs) # spec_params n (dropWhile non_sp (c # cs)))"

definition skip_prefix :: "string \<Rightarrow> string" where
  "skip_prefix line =
     (if line \<noteq> [] \<and> hd line = CHR '':'' then dropWhile is_sp (dropWhile non_sp line) else line)"

definition spec_parse :: "string \<Rightarrow> message" where
  "spec_parse line =
     (let rest = skip_prefix line; cmd = takeWhile non_sp rest in
      if cmd = '''' then empty_message
      else \<lparr>command = toUpper cmd, params = spec_params MAX_PARAMS (dropWhile non_sp rest)\<rparr>)"

lemma find_first_not_of_None: "find_first_not_of s c = None \<longleftrightarrow> set s \<subseteq> {c}"
proof -
  have "find_first_not_of s c = None \<longleftrightarrow> length (takeWhile (\<lambda>d. d = c) s) \<ge> length s"
    by (simp add: find_first_not_of_def skip_while_eq Let_def)
  also have "\<dots> \<longleftrightarrow> takeWhile (\<lambda>d. d = c) s = s"
    by (metis le_antisym length_takeWhile_le order_refl takeWhile_eq_take take_all)
  also have "\<dots> \<longleftrightarrow> set s \<subseteq> {c}"
    by (auto simp: takeWhile_eq_all_conv)
  finally show ?thesis .
qed

lemma find_first_not_of_Some: "find_first_not_of s c = Some i \<Longrightarrow> i < length s \<and> s ! i \<noteq> c"
  using nth_length_takeWhile [of "\<lambda>d. d = c" s]
  by (auto simp: find_first_not_of_def skip_while_eq Let_def split: if_splits)

lemma trim_total: "\<exists>t. trim s = Some t \<and> (t = '''' \<longleftrightarrow> set s \<subseteq> {CHR '' ''})"
proof (cases "find_first_not_of s CHR '' ''")
  case None
  then show ?thesis
    using find_first_not_of_None [of s "CHR '' ''"] by (simp add: trim_def)
next
  case (Some start)
  then have start: "start < length s" and nsp: "\<not> set s \<subseteq> {CHR '' ''}"
    using find_first_not_of_Some [OF Some] find_first_not_of_None [of s "CHR '' ''"] by auto
  obtain t where t: "trim s = Some t" "t \<noteq> ''''"
    using start Some
    by (cases "find_last_not_of s CHR '' ''") (auto simp: trim_def substr_def substr_from_def)
  with nsp show ?thesis by auto
qed

lemma spec_params_Nil [simp]: "spec_params n [] = []"
  by (cases n) auto

lemma parse_params_eq:
  "pos \<le> length line \<Longrightarrow> length ps \<le> MAX_PARAMS \<Longrightarrow>
    parse_params line pos ps
      = Some (ps @ spec_params (MAX_PARAMS - length ps) (drop pos line))"
proof (induction line pos ps rule: parse_params.induct)
  case (1 line pos ps)
  define p1 where "p1 = skip_while is_sp line pos"
  define p2 where "p2 = skip_while non_sp line p1"
  note step = parse_params.simps [of line pos ps, folded p1_def, unfolded Let_def, folded p1_def p2_def]
  show ?case
  proof (cases "pos < length line \<and> length ps < MAX_PARAMS")
    case False
    with 1 show ?thesis by (auto simp: step not_less)
  next
    case True
    then have n: "MAX_PARAMS - length ps = Suc (MAX_PARAMS - Suc (length ps))" by auto
    have d1: "drop p1 line = dropWhile is_sp (drop pos line)" and le1: "p1 \<le> length line"
      using "1.prems"(1) by (simp_all add: p1_def drop_skip_while skip_while_le)
    show ?thesis
    proof (cases "length line \<le> p1")
      case True
      then have "dropWhile is_sp (drop pos line) = []" using d1 by simp
      then have "spec_params (MAX_PARAMS - length ps) (drop pos line) = []"
        by (simp only: n spec_params.simps list.case)
      with True \<open>pos < length line \<and> length ps < MAX_PARAMS\<close> show ?thesis
        by (simp add: step)
    next
      case inside: False
      then have split: "dropWhile is_sp (drop pos line) = line ! p1 # drop (Suc p1) line"
        using d1 Cons_nth_drop_Suc [of p1 line] by simp
      have d2: "drop p2 line = dropWhile non_sp (drop p1 line)" and le2: "p2 \<le> length line"
        using le1 by (simp_all add: p2_def drop_skip_while skip_while_le)
      have word: "substr line p1 (p2 - p1) = Some (takeWhile non_sp (drop p1 line))"
        using le1 by (simp add: p2_def substr_skip_while)
      show ?thesis
      proof (cases "line ! p1 = CHR '':''")
        case True
        with inside \<open>pos < length line \<and> length ps < MAX_PARAMS\<close> split show ?thesis
          by (simp add: step n substr_from_def)
      next
        case False
        have "parse_params line p2 (ps @ [takeWhile non_sp (drop p1 line)])
            = Some ((ps @ [takeWhile non_sp (drop p1 line)])
                @ spec_params (MAX_PARAMS - Suc (length ps)) (drop p2 line))"
          using "1.IH" [of p1 p1 p2 "takeWhile non_sp (drop p1 line)"]
            True inside False le2 word
          by (simp add: p1_def p2_def)
        with inside False \<open>pos < length line \<and> length ps < MAX_PARAMS\<close> split word d1 d2
        show ?thesis by (simp add: step n)
      qed
    qed
  qed
qed

lemma parse_eq_spec: "parse line = Some (spec_parse line)"
proof -
  obtain t where t: "trim line = Some t" "t = '''' \<longleftrightarrow> set line \<subseteq> {CHR '' ''}"
    using trim_total by blast
  show ?thesis
  proof (cases "set line \<subseteq> {CHR '' ''}")
    case True
    then have "takeWhile non_sp (skip_prefix line) = []"
      by (cases line) (auto simp: skip_prefix_def)
    with True t show ?thesis by (simp add: parse_def spec_parse_def)
  next
    case False
    define pos where "pos = (if 0 < length line \<and> line ! 0 = CHR '':''
      then skip_while is_sp line (skip_while non_sp line 0) else 0)"
    have le: "pos \<le> length line"
      by (simp add: pos_def skip_while_le)
    have rest: "drop pos line = skip_prefix line"
      by (auto simp: pos_def skip_prefix_def drop_skip_while skip_while_le hd_conv_nth)
    note parse_eq = parse_def [of line, folded pos_def]
    show ?thesis
      using False t le
      by (simp add: parse_eq spec_parse_def Let_def substr_skip_while rest
          parse_params_eq skip_while_le drop_skip_while toUpper_def)
  qed
qed

subsection \<open>Printing and parsing\<close>

definition is_middle :: "string \<Rightarrow> bool" where
  "is_middle p \<longleftrightarrow> p \<noteq> '''' \<and> CHR '' '' \<notin> set p \<and> hd p \<noteq> CHR '':''"

definition command_word :: "string \<Rightarrow> bool" where
  "command_word c \<longleftrightarrow> is_middle c \<and> toUpper c = c"

fun render_params :: "string list \<Rightarrow> string" where
  "render_params [] = ''''"
| "render_params [p] = '' :'' @ p"
| "render_params (p # q # ps) = '' '' @ p @ render_params (q # ps)"

definition render :: "message \<Rightarrow> string" where
  "render m = command m @ render_params (params m)"

definition printable :: "message \<Rightarrow> bool" where
  "printable m \<longleftrightarrow> command_word (command m) \<and> length (params m) \<le> MAX_PARAMS
     \<and> list_all is_middle (butlast (params m))"

lemma render_params_starts: "render_params ps = [] \<or> (\<exists>r. render_params ps = CHR '' '' # r)"
  by (cases ps rule: render_params.cases) auto

lemma word_append:
  assumes "CHR '' '' \<notin> set w" and "r = [] \<or> (\<exists>r'. r = CHR '' '' # r')"
  shows "takeWhile non_sp (w @ r) = w" and "dropWhile non_sp (w @ r) = r"
  using assms by (induction w) auto

lemma spec_params_render:
  "list_all is_middle (butlast ps) \<Longrightarrow> length ps \<le> n \<Longrightarrow> spec_params n (render_params ps) = ps"
proof (induction ps arbitrary: n rule: render_params.induct)
  case 1
  then show ?case by simp
next
  case (2 p)
  then show ?case by (cases n) auto
next
  case (3 p q ps)
  from 3 obtain c cs n' where p: "p = c # cs" and n': "n = Suc n'"
    by (cases p; cases n) (auto simp: is_middle_def)
  from 3 p have c: "c \<noteq> CHR '' ''" "c \<noteq> CHR '':''" "CHR '' '' \<notin> set p"
    by (auto simp: is_middle_def)
  note word = word_append [OF c(3) render_params_starts [of "q # ps"]]
  have "spec_params n (render_params (p # q # ps))
      = p # spec_params n' (render_params (q # ps))"
    using c word by (simp add: n' p)
  also have "\<dots> = p # q # ps"
    using "3.IH" [of n'] "3.prems" n' by simp
  finally show ?case .
qed

lemma parse_rendered:
  assumes "printable m"
  shows "parse (render m) = Some m"
proof -
  obtain c cs where cmd: "command m = c # cs" "c \<noteq> CHR '':''" "c \<noteq> CHR '' ''"
      "CHR '' '' \<notin> set (command m)"
    using assms by (cases "command m") (auto simp: printable_def command_word_def is_middle_def)
  note word = word_append [OF cmd(4) render_params_starts [of "params m"]]
  have "skip_prefix (render m) = render m"
    using cmd by (simp add: skip_prefix_def render_def)
  moreover have "takeWhile non_sp (render m) = command m"
    and "dropWhile non_sp (render m) = render_params (params m)"
    using word by (simp_all add: render_def)
  moreover have "toUpper (command m) = command m"
    and "spec_params MAX_PARAMS (render_params (params m)) = params m"
    using assms by (simp_all add: printable_def command_word_def spec_params_render)
  ultimately show ?thesis
    using cmd(1) by (simp add: parse_eq_spec spec_parse_def Let_def)
qed

text \<open>
  C39. Printing a message and parsing the line gives the message back: a command word in upper
  case, up to fifteen parameters of which all but the last are space-free words not starting
  with a colon, the last one sent as trailing text, whatever it contains.
\<close>

theorem parse_render:
  assumes "printable m"
  shows "parse (render m) = Some m"
  by (rule parse_rendered [OF assms])

theorem parse_render_witness:
  "parse ''PRIVMSG #room :hello world''
    = Some \<lparr>command = ''PRIVMSG'', params = [''#room'', ''hello world'']\<rparr>"
proof -
  let ?m = "\<lparr>command = ''PRIVMSG'', params = [''#room'', ''hello world'']\<rparr>"
  have "printable ?m"
    by (simp add: printable_def command_word_def is_middle_def toUpper_def MAX_PARAMS_def
        toupper_def islower_def byte_def)
  then have "parse (render ?m) = Some ?m" by (rule parse_render)
  then show ?thesis by (simp add: render_def)
qed

subsection \<open>Shape of a parsed message\<close>

definition message_shape :: "message \<Rightarrow> bool" where
  "message_shape m \<longleftrightarrow>
     length (params m) \<le> MAX_PARAMS
     \<and> list_all is_middle (butlast (params m))
     \<and> (if command m = '''' then params m = [] else CHR '' '' \<notin> set (command m))
     \<and> list_all (\<lambda>c. \<not> islower c) (command m)"

lemma length_spec_params: "length (spec_params n s) \<le> n"
  by (induction n arbitrary: s) (auto split: list.split)

lemma is_middle_word:
  assumes "dropWhile is_sp s = c # cs" and "c \<noteq> CHR '':''"
  shows "is_middle (takeWhile non_sp (c # cs))"
proof -
  have "c \<noteq> CHR '' ''"
    using hd_dropWhile [of is_sp s] assms(1) by simp
  with assms(2) show ?thesis
    by (auto simp: is_middle_def dest: set_takeWhileD)
qed

lemma spec_params_middle: "list_all is_middle (butlast (spec_params n s))"
proof (induction n arbitrary: s)
  case 0
  then show ?case by simp
next
  case (Suc n)
  then show ?case
    using is_middle_word [of s] by (auto split: list.split)
qed

lemma set_dropWhile_sub: "set (dropWhile P xs) \<subseteq> set xs"
  by (auto dest: set_dropWhileD)

lemma spec_params_sub: "p \<in> set (spec_params n s) \<Longrightarrow> set p \<subseteq> set s"
proof (induction n arbitrary: s)
  case 0
  then show ?case by simp
next
  case (Suc n)
  show ?case
  proof (cases "dropWhile is_sp s")
    case Nil
    with Suc.prems show ?thesis by simp
  next
    case (Cons c cs)
    then have sub: "set (c # cs) \<subseteq> set s"
      using set_dropWhile_sub [of is_sp s] by simp
    have rest: "set (dropWhile non_sp (c # cs)) \<subseteq> set (c # cs)"
      and word: "set (takeWhile non_sp (c # cs)) \<subseteq> set (c # cs)"
      using set_dropWhile_sub set_takeWhileD by fast+
    from Suc.prems Cons consider "p = cs" | "p = takeWhile non_sp (c # cs)"
      | "p \<in> set (spec_params n (dropWhile non_sp (c # cs)))"
      by (auto split: if_splits)
    then show ?thesis
    proof cases
      case 1
      with sub show ?thesis by auto
    next
      case 2
      with sub word show ?thesis by blast
    next
      case 3
      with Suc.IH sub rest show ?thesis by blast
    qed
  qed
qed

lemma toUpper_not_lower: "list_all (\<lambda>c. \<not> islower c) (toUpper s)"
  by (simp add: toUpper_def list_all_iff toupper_not_lower)

lemma toUpper_sp: "CHR '' '' \<in> set (toUpper s) \<longleftrightarrow> CHR '' '' \<in> set s"
  by (force simp: toUpper_def)

text \<open>
  C40. Every line parses to a well-shaped message: at most fifteen parameters, each but the last
  a non-empty word without spaces and without a leading colon; a command without spaces and
  without lower-case letters; and an empty command (which the server drops) has no parameters.
\<close>

theorem parse_shape: "\<exists>m. parse line = Some m \<and> message_shape m"
proof -
  have "CHR '' '' \<notin> set (takeWhile non_sp (skip_prefix line))"
    by (auto dest: set_takeWhileD)
  then have "message_shape (spec_parse line)"
    by (auto simp: spec_parse_def message_shape_def empty_message_def Let_def length_spec_params
        spec_params_middle toUpper_not_lower toUpper_sp) (simp add: toUpper_def)
  then show ?thesis by (simp add: parse_eq_spec)
qed

definition message_lf_free :: "message \<Rightarrow> bool" where
  "message_lf_free m \<longleftrightarrow> lf_free (command m) \<and> list_all lf_free (params m)"



lemma parse_lf_free:
  assumes "lf_free line" and "parse line = Some m"
  shows "message_lf_free m"
proof -
  have pre: "set (skip_prefix line) \<subseteq> set line"
    by (auto simp: skip_prefix_def dest!: set_dropWhileD split: if_splits)
  have rest: "set (dropWhile non_sp (skip_prefix line)) \<subseteq> set line"
    and word: "set (takeWhile non_sp (skip_prefix line)) \<subseteq> set line"
    using pre by (auto dest: set_dropWhileD set_takeWhileD)
  have "lf_free p" if "p \<in> set (spec_params n (dropWhile non_sp (skip_prefix line)))" for n p
    using spec_params_sub [OF that] rest assms(1) lf_free_sub by blast
  moreover have "lf_free (toUpper (takeWhile non_sp (skip_prefix line)))"
    using assms(1) word by (auto simp: lf_free_def toUpper_def)
  ultimately show ?thesis
    using assms(2)
    by (auto simp: parse_eq_spec spec_parse_def message_lf_free_def empty_message_def Let_def
        list_all_iff lf_simps split: if_splits)
qed

text \<open>
  C37. \<open>Parser::parse\<close> returns on every input line, without leaving the line's bounds or throwing,
  and computes exactly the grammar's reading of the line: an optional prefix is skipped, the
  next word in upper case is the command, and the rest splits into at most fifteen parameters, a
  leading colon taking the remainder of the line verbatim.
\<close>

theorem parse_spec: "parse line = Some (spec_parse line)"
  by (rule parse_eq_spec)

end
