(* ===== verification/Names.thy ===== *)
theory Names
  imports Message_Parser
begin

section \<open>Nicknames, channel names and target lists\<close>

text \<open>
  The syntactic checks of \<open>handleNick.cpp\<close> and \<open>handleJoin.cpp\<close> and the list splitter
  \<open>_splitByComma\<close> of \<open>CommandDispatcher.cpp\<close>, with what makes them fit together: valid names
  survive the parser and the splitter, and no name is both a nickname and a channel name.
\<close>

subsection \<open>Nicknames\<close>

definition isLetterSpecial :: "char \<Rightarrow> bool" where
  "isLetterSpecial c =
     (if c = CHR ''_'' \<or> c = CHR ''['' \<or> c = CHR '']'' \<or> c = CHR 0x5C \<or> c = CHR 0x60
         \<or> c = CHR ''^'' \<or> c = CHR ''{'' \<or> c = CHR ''}'' \<or> c = CHR ''|''
      then True else False)"

definition isValidNick :: "string \<Rightarrow> bool" where
  "isValidNick nick =
     (if nick = '''' then False
      else if \<not> isalpha (hd nick) \<and> \<not> isLetterSpecial (hd nick) then False
      else list_all
        (\<lambda>c. \<not> (\<not> isalpha c \<and> \<not> isdigit c \<and> \<not> isLetterSpecial c \<and> c \<noteq> CHR ''-''))
        (tl nick))"

subsection \<open>Channel names\<close>

definition isValidChannelName :: "string \<Rightarrow> bool" where
  "isValidChannelName name =
     (if name = '''' then False
      else if length name = 1 then False
      else if hd name \<noteq> CHR ''#'' then False
      else list_all
        (\<lambda>c. \<not> (isspace c \<or> c = CHR '','' \<or> c = CHR '':'' \<or> iscntrl c)) (tl name))"

subsection \<open>Splitting a target list\<close>

function split_loop :: "string \<Rightarrow> nat \<Rightarrow> nat \<Rightarrow> string list \<Rightarrow> string list option" where
  "split_loop target i start result =
     (if i < length target then
        (if target ! i = CHR '','' then
           do { piece \<leftarrow> substr target start (i - start);
                split_loop target (i + 1) (i + 1) (result @ [piece]) }
         else split_loop target (i + 1) start result)
      else do { piece \<leftarrow> substr_from target start; Some (result @ [piece]) })"
  by pat_completeness auto
termination
  by (relation "measure (\<lambda>(target, i, start, result). length target - i)") auto

declare split_loop.simps [simp del]

definition splitByComma :: "string \<Rightarrow> string list option" where
  "splitByComma target = split_loop target 0 0 []"

subsection \<open>What the splitter computes\<close>

fun comma_split :: "string \<Rightarrow> string list" where
  "comma_split [] = [[]]"
| "comma_split (c # cs) =
     (if c = CHR '','' then [] # comma_split cs
      else (case comma_split cs of [] \<Rightarrow> [[c]] | p # ps \<Rightarrow> (c # p) # ps))"

fun comma_join :: "string list \<Rightarrow> string" where
  "comma_join [] = ''''"
| "comma_join [p] = p"
| "comma_join (p # q # ps) = p @ '','' @ comma_join (q # ps)"

lemma comma_split_neq_Nil [simp]: "comma_split s \<noteq> []"
  by (cases s) (auto split: list.split)

lemma split_loop_eq:
  "start \<le> i \<Longrightarrow> i \<le> length t \<Longrightarrow>
    split_loop t i start res
      = Some (res @ (take (i - start) (drop start t) @ hd (comma_split (drop i t)))
                  # tl (comma_split (drop i t)))"
proof (induction t i start res rule: split_loop.induct)
  case (1 t i start res)
  show ?case
  proof (cases "i < length t")
    case False
    with "1.prems" have "i = length t" by simp
    with "1.prems" show ?thesis
      by (simp add: split_loop.simps [of t "length t"] substr_from_def)
  next
    case True
    note dr = Cons_nth_drop_Suc [OF True, symmetric]
    show ?thesis
    proof (cases "t ! i = CHR '',''")
      case comma: True
      have "substr t start (i - start) = Some (take (i - start) (drop start t))"
        using "1.prems" by (simp add: substr_def)
      with 1 True comma show ?thesis
        by (simp add: split_loop.simps [of t i] dr)
    next
      case False
      have "take (Suc i - start) (drop start t) = take (i - start) (drop start t) @ [t ! i]"
        using "1.prems" True by (simp add: Suc_diff_le take_Suc_conv_app_nth)
      with 1 True False show ?thesis
        by (simp add: split_loop.simps [of t i] dr split: list.split)
    qed
  qed
qed


lemma splitByComma_eq: "splitByComma t = Some (comma_split t)"
  by (simp add: splitByComma_def split_loop_eq)

lemma comma_join_Cons: "ps \<noteq> [] \<Longrightarrow> comma_join (p # ps) = p @ '','' @ comma_join ps"
  by (cases ps) auto

lemma comma_join_hd: "comma_join ((c # p) # ps) = c # comma_join (p # ps)"
  by (cases ps) auto

lemma comma_join_split: "comma_join (comma_split s) = s"
  by (induction s) (auto simp: comma_join_Cons comma_join_hd split: list.split)

lemma comma_split_free: "list_all (\<lambda>p. CHR '','' \<notin> set p) (comma_split s)"
  by (induction s) (auto split: list.split)

lemma length_comma_split: "length (comma_split s) = Suc (length (filter (\<lambda>c. c = CHR '','') s))"
  by (induction s) (auto split: list.split)

text \<open>
  \<open>_splitByComma\<close> returns on every string, with exactly the comma-separated pieces: they
  contain no comma, there is one more of them than there are commas, and joining them with
  commas gives the string back.
\<close>

theorem splitByComma_roundtrip:
  "\<exists>ps. splitByComma t = Some ps \<and> comma_join ps = t
      \<and> list_all (\<lambda>p. CHR '','' \<notin> set p) ps
      \<and> length ps = Suc (length (filter (\<lambda>c. c = CHR '','') t))"
  by (simp add: splitByComma_eq comma_join_split comma_split_free length_comma_split)

lemma comma_split_sub: "p \<in> set (comma_split s) \<Longrightarrow> set p \<subseteq> set s"
proof (induction s arbitrary: p)
  case Nil
  then show ?case by simp
next
  case (Cons c s)
  obtain q qs where "comma_split s = q # qs" by (cases "comma_split s") auto
  with Cons have "set p \<subseteq> insert c (set q) \<or> p = [] \<or> set p \<subseteq> set s" and "set q \<subseteq> set s"
    by (auto split: if_splits)
  then show ?case by auto
qed

lemma comma_split_lf_free: "lf_free s \<Longrightarrow> p \<in> set (comma_split s) \<Longrightarrow> lf_free p"
  using comma_split_sub lf_free_sub by blast

lemma comma_split_single: "CHR '','' \<notin> set s \<Longrightarrow> comma_split s = [s]"
  by (induction s) auto

subsection \<open>Valid names\<close>

definition nick_char :: "char \<Rightarrow> bool" where
  "nick_char c \<longleftrightarrow> isalpha c \<or> isdigit c \<or> isLetterSpecial c \<or> c = CHR ''-''"

lemma not_nick_char:
  "\<not> nick_char CHR '','' \<and> \<not> nick_char CHR '' '' \<and> \<not> nick_char CHR '':'' \<and> \<not> nick_char CHR ''#''
    \<and> \<not> nick_char LF"
  by (simp add: nick_char_def isalpha_def isupper_def islower_def isdigit_def isLetterSpecial_def
      byte_def)

lemma isValidNick_chars: "isValidNick n \<Longrightarrow> n \<noteq> '''' \<and> (\<forall>c \<in> set n. nick_char c)"
  by (cases n) (auto simp: isValidNick_def nick_char_def list_all_iff split: if_splits)

lemma channel_char:
  "\<not> (isspace c \<or> c = CHR '','' \<or> c = CHR '':'' \<or> iscntrl c) \<Longrightarrow>
    c \<noteq> CHR '' '' \<and> c \<noteq> CHR '','' \<and> c \<noteq> LF"
  by (auto simp: isspace_def iscntrl_def byte_def)

lemma isValidChannelName_chars:
  "isValidChannelName n \<Longrightarrow>
    n \<noteq> '''' \<and> hd n = CHR ''#'' \<and> (\<forall>c \<in> set n. c \<noteq> CHR '' '' \<and> c \<noteq> CHR '','' \<and> c \<noteq> LF)"
proof (cases n)
  case Nil
  then show "isValidChannelName n \<Longrightarrow> ?thesis" by (simp add: isValidChannelName_def)
next
  case (Cons c cs)
  assume "isValidChannelName n"
  with Cons have "c = CHR ''#''" and "\<forall>c \<in> set cs. c \<noteq> CHR '' '' \<and> c \<noteq> CHR '','' \<and> c \<noteq> LF"
    using channel_char by (auto simp: isValidChannelName_def list_all_iff split: if_splits)
  with Cons show ?thesis by auto
qed

lemma isValidNick_lf_free: "isValidNick n \<Longrightarrow> lf_free n"
  using isValidNick_chars [of n] not_nick_char by (auto simp: lf_free_def)

lemma isValidChannelName_lf_free: "isValidChannelName n \<Longrightarrow> lf_free n"
  using isValidChannelName_chars [of n] by (auto simp: lf_free_def)

text \<open>
  Names are unambiguous. A valid nickname and a valid channel name are never equal, so a
  \<open>PRIVMSG\<close> target is a channel exactly when it starts with the hash sign; and either kind of
  name passes unchanged through the parser (as a middle parameter) and through the target-list
  splitter.
\<close>

theorem valid_names:
  assumes "isValidNick n \<or> isValidChannelName n"
  shows "(isValidNick n \<longleftrightarrow> \<not> isValidChannelName n) \<and> (isValidChannelName n \<longleftrightarrow> hd n = CHR ''#'')
    \<and> is_middle n \<and> splitByComma n = Some [n]"
proof -
  have nick: "hd n \<noteq> CHR ''#'' \<and> is_middle n \<and> CHR '','' \<notin> set n" if "isValidNick n"
  proof -
    have n: "n \<noteq> ''''" "\<forall>c \<in> set n. c \<noteq> CHR '','' \<and> c \<noteq> CHR '' '' \<and> c \<noteq> CHR '':'' \<and> c \<noteq> CHR ''#''"
      using isValidNick_chars [OF that] not_nick_char by metis+
    from n(1) have "hd n \<in> set n" by simp
    with n show ?thesis by (auto simp: is_middle_def)
  qed
  have chan: "hd n = CHR ''#'' \<and> is_middle n \<and> CHR '','' \<notin> set n" if "isValidChannelName n"
    using isValidChannelName_chars [OF that] by (auto simp: is_middle_def)
  show ?thesis
    using assms nick chan by (auto simp: splitByComma_eq comma_split_single)
qed

theorem valid_names_witness:
  "isValidNick ''ada_1'' \<and> splitByComma ''ada_1'' = Some [''ada_1'']
    \<and> isValidChannelName ''#lobby'' \<and> splitByComma ''#lobby'' = Some [''#lobby'']"
proof -
  have n: "isValidNick ''ada_1''"
    by (simp add: isValidNick_def isalpha_def isupper_def islower_def isdigit_def
        isLetterSpecial_def byte_def)
  have c: "isValidChannelName ''#lobby''"
    by (simp add: isValidChannelName_def isspace_def iscntrl_def byte_def)
  from valid_names [OF disjI1, OF n] valid_names [OF disjI2, OF c] n c show ?thesis by simp
qed

end
