(* ===== verification/Clients.thy ===== *)
theory Clients
  imports Names
begin

section \<open>Client\<close>

text \<open>
  \<open>Client.cpp\<close>: the IRC identity of a connection and its registration state. A client registers
  once, when the password has been accepted and both names are set.
\<close>

record client =
  socketFd :: int
  username :: string
  nickname :: string
  realname :: string
  passAccepted :: bool
  registered :: bool

definition Client :: "int \<Rightarrow> client" where
  "Client fd = \<lparr>socketFd = fd, username = '''', nickname = '''', realname = '''',
     passAccepted = False, registered = False\<rparr>"

definition getSocketFd :: "client \<Rightarrow> int" where
  "getSocketFd c = socketFd c"

definition isPassAccepted :: "client \<Rightarrow> bool" where
  "isPassAccepted c = passAccepted c"

definition acceptPassword :: "client \<Rightarrow> client" where
  "acceptPassword c = c\<lparr>passAccepted := True\<rparr>"

definition getUserName :: "client \<Rightarrow> string" where
  "getUserName c = username c"

definition setUserName :: "string \<Rightarrow> client \<Rightarrow> client" where
  "setUserName name c = c\<lparr>username := name\<rparr>"

definition getNickName :: "client \<Rightarrow> string" where
  "getNickName c = nickname c"

definition setNickByServerState :: "string \<Rightarrow> client \<Rightarrow> client" where
  "setNickByServerState name c = c\<lparr>nickname := name\<rparr>"

definition isRegistered :: "client \<Rightarrow> bool" where
  "isRegistered c = registered c"

definition setAsRegistered :: "client \<Rightarrow> client" where
  "setAsRegistered c = c\<lparr>registered := True\<rparr>"

definition tryRegister :: "client \<Rightarrow> bool \<times> client" where
  "tryRegister c =
     (if isRegistered c then (False, c)
      else if \<not> isPassAccepted c \<or> username c = '''' \<or> nickname c = '''' then (False, c)
      else (True, setAsRegistered c))"

definition getRealName :: "client \<Rightarrow> string" where
  "getRealName c = realname c"

definition setRealName :: "string \<Rightarrow> client \<Rightarrow> client" where
  "setRealName name c = c\<lparr>realname := name\<rparr>"

lemmas client_defs = getSocketFd_def isPassAccepted_def acceptPassword_def getUserName_def
  setUserName_def getNickName_def setNickByServerState_def isRegistered_def setAsRegistered_def
  getRealName_def setRealName_def

subsection \<open>Well-formed clients\<close>

text \<open>
  A nickname is valid once set; a registered client has passed the password check and has both
  names; nothing stored for a client contains a line feed.
\<close>

definition complete :: "client \<Rightarrow> bool" where
  "complete c \<longleftrightarrow> passAccepted c \<and> username c \<noteq> '''' \<and> nickname c \<noteq> ''''"

definition client_ok :: "client \<Rightarrow> bool" where
  "client_ok c \<longleftrightarrow>
     (nickname c = '''' \<or> isValidNick (nickname c))
     \<and> (registered c \<longrightarrow> complete c)
     \<and> lf_free (username c) \<and> lf_free (realname c)"

lemma client_ok_new [ok_intro]: "client_ok (Client fd)"
  by (simp add: client_ok_def Client_def lf_simps)

lemma client_ok_pass [ok_intro]: "client_ok c \<Longrightarrow> client_ok (acceptPassword c)"
  by (auto simp: client_ok_def complete_def client_defs)

lemma client_ok_nick [ok_intro]: "client_ok c \<Longrightarrow> isValidNick n \<Longrightarrow> client_ok (setNickByServerState n c)"
  using isValidNick_chars [of n] by (auto simp: client_ok_def complete_def client_defs)

lemma client_ok_user [ok_intro]:
  "client_ok c \<Longrightarrow> \<not> registered c \<Longrightarrow> lf_free u \<Longrightarrow> lf_free r \<Longrightarrow>
    client_ok (setRealName r (setUserName u c))"
  by (auto simp: client_ok_def client_defs)

lemma client_ok_tryRegister [ok_intro]: "client_ok c \<Longrightarrow> client_ok (snd (tryRegister c))"
  by (auto simp: client_ok_def complete_def client_defs tryRegister_def)

lemma client_ok_nick_lf_free: "client_ok c \<Longrightarrow> lf_free (nickname c)"
  using isValidNick_lf_free by (auto simp: client_ok_def lf_simps)

text \<open>
  \<open>tryRegister\<close> reports success exactly when it makes the transition from unregistered to
  registered, which happens exactly for a complete, unregistered client; it changes no other
  field and cannot succeed twice.
\<close>

lemma tryRegister_result:
  "tryRegister c = (b, c') \<Longrightarrow>
    b = (\<not> registered c \<and> complete c) \<and>
    c' = c\<lparr>registered := registered c \<or> complete c \<and> \<not> registered c\<rparr>"
  by (auto simp: tryRegister_def client_defs complete_def split: if_splits)

lemma tryRegister_fields [simp]:
  "socketFd (snd (tryRegister c)) = socketFd c" "nickname (snd (tryRegister c)) = nickname c"
  "username (snd (tryRegister c)) = username c" "realname (snd (tryRegister c)) = realname c"
  "passAccepted (snd (tryRegister c)) = passAccepted c"
  by (simp_all add: tryRegister_def client_defs)

lemma tryRegister_registered:
  "registered (snd (tryRegister c)) \<longleftrightarrow> registered c \<or> complete c"
  by (auto simp: tryRegister_def client_defs complete_def)

lemma tryRegister_once: "fst (tryRegister (snd (tryRegister c))) = False"
  by (auto simp: tryRegister_def client_defs)

end
