(* ===== verification/Channels.thy ===== *)
theory Channels
  imports Clients "HOL-Library.Word"
begin

section \<open>ChannelModes and Channel\<close>

text \<open>
  \<open>ChannelModes.cpp\<close> and \<open>Channel.cpp\<close>. The member limit is stored as a \<open>size_t\<close> but set and
  read as an \<open>int\<close>: both conversions are kept at their widths (64 and 32 bits). The member,
  operator and invitation sets hold addresses of clients, and the membership tests are the linear
  scans of the code.
\<close>

subsection \<open>Modes\<close>

type_synonym c_int = "32 word"
type_synonym size_t = "64 word"

record channel_modes =
  inviteOnly :: bool
  topicRestricted :: bool
  channelProtected :: bool
  memberLimited :: bool
  maxMember :: size_t
  channelPass :: string

definition ChannelModes :: channel_modes where
  "ChannelModes = \<lparr>inviteOnly = False, topicRestricted = False, channelProtected = False,
     memberLimited = False, maxMember = 0, channelPass = ''''\<rparr>"

definition isInviteOnly :: "channel_modes \<Rightarrow> bool" where
  [simp]: "isInviteOnly m = inviteOnly m"

definition isTopicRestricted :: "channel_modes \<Rightarrow> bool" where
  [simp]: "isTopicRestricted m = topicRestricted m"

definition isChannelProtected :: "channel_modes \<Rightarrow> bool" where
  [simp]: "isChannelProtected m = channelProtected m"

definition isMemberLimited :: "channel_modes \<Rightarrow> bool" where
  [simp]: "isMemberLimited m = memberLimited m"

definition getMemberLimit :: "channel_modes \<Rightarrow> c_int" where
  "getMemberLimit m = ucast (maxMember m)"

definition checkChannelPassword :: "string \<Rightarrow> channel_modes \<Rightarrow> bool" where
  "checkChannelPassword input m = (if input \<noteq> channelPass m then False else True)"

definition setInviteOnly :: "channel_modes \<Rightarrow> channel_modes" where
  "setInviteOnly m = m\<lparr>inviteOnly := True\<rparr>"

definition setTopicRestricted :: "channel_modes \<Rightarrow> channel_modes" where
  "setTopicRestricted m = m\<lparr>topicRestricted := True\<rparr>"

definition setMemberLimit :: "c_int \<Rightarrow> channel_modes \<Rightarrow> channel_modes" where
  "setMemberLimit limit m = m\<lparr>memberLimited := True, maxMember := scast limit\<rparr>"

definition setChannelProtected :: "string \<Rightarrow> channel_modes \<Rightarrow> channel_modes" where
  "setChannelProtected password m = m\<lparr>channelProtected := True, channelPass := password\<rparr>"

definition unsetInviteOnly :: "channel_modes \<Rightarrow> channel_modes" where
  "unsetInviteOnly m = m\<lparr>inviteOnly := False\<rparr>"

definition unsetTopicRestricted :: "channel_modes \<Rightarrow> channel_modes" where
  "unsetTopicRestricted m = m\<lparr>topicRestricted := False\<rparr>"

definition unsetMemberLimit :: "channel_modes \<Rightarrow> channel_modes" where
  "unsetMemberLimit m = m\<lparr>memberLimited := False\<rparr>"

definition unsetChannelProtected :: "channel_modes \<Rightarrow> channel_modes" where
  "unsetChannelProtected m = m\<lparr>channelProtected := False, channelPass := ''''\<rparr>"

lemmas mode_defs = setInviteOnly_def setTopicRestricted_def setMemberLimit_def
  setChannelProtected_def unsetInviteOnly_def unsetTopicRestricted_def unsetMemberLimit_def
  unsetChannelProtected_def

text \<open>A limit set as an \<open>int\<close> reads back unchanged through the \<open>size_t\<close> field, whatever its sign.\<close>

lemma getMemberLimit_setMemberLimit: "getMemberLimit (setMemberLimit n m) = n"
  unfolding getMemberLimit_def setMemberLimit_def
  by (rule bit_word_eqI) (simp add: bit_ucast_iff bit_signed_iff)

text \<open>
  The modes in force are coherent: a limit in force is a positive \<open>int\<close>, and without a key in
  force no key is stored.
\<close>

definition modes_ok :: "channel_modes \<Rightarrow> bool" where
  "modes_ok m \<longleftrightarrow>
     (memberLimited m \<longrightarrow> 0 <s getMemberLimit m) \<and> (\<not> channelProtected m \<longrightarrow> channelPass m = '''')"

lemma modes_ok_intros [ok_intro]:
  "modes_ok ChannelModes"
  "modes_ok m \<Longrightarrow> modes_ok (setInviteOnly m)"
  "modes_ok m \<Longrightarrow> modes_ok (setTopicRestricted m)"
  "modes_ok m \<Longrightarrow> 0 <s n \<Longrightarrow> modes_ok (setMemberLimit n m)"
  "modes_ok m \<Longrightarrow> modes_ok (setChannelProtected k m)"
  "modes_ok m \<Longrightarrow> modes_ok (unsetInviteOnly m)"
  "modes_ok m \<Longrightarrow> modes_ok (unsetTopicRestricted m)"
  "modes_ok m \<Longrightarrow> modes_ok (unsetMemberLimit m)"
  "modes_ok m \<Longrightarrow> modes_ok (unsetChannelProtected m)"
  using getMemberLimit_setMemberLimit [of n m]
  by (auto simp: modes_ok_def mode_defs ChannelModes_def getMemberLimit_def)

subsection \<open>Channels\<close>

record channel =
  chName :: string
  chTopic :: string
  chModes :: channel_modes
  members :: "ptr std_set"
  operators :: "ptr std_set"
  invited :: "ptr std_set"

definition Channel :: "string \<Rightarrow> channel" where
  "Channel name = \<lparr>chName = name, chTopic = '''', chModes = ChannelModes,
     members = [], operators = [], invited = []\<rparr>"

definition getChannelName :: "channel \<Rightarrow> string" where
  [simp]: "getChannelName ch = chName ch"

definition getChannelTopic :: "channel \<Rightarrow> string" where
  [simp]: "getChannelTopic ch = chTopic ch"

definition getMembers :: "channel \<Rightarrow> ptr std_set" where
  [simp]: "getMembers ch = members ch"

definition getModes :: "channel \<Rightarrow> channel_modes" where
  [simp]: "getModes ch = chModes ch"

definition getMemberCount :: "channel \<Rightarrow> nat" where
  "getMemberCount ch = length (members ch)"

definition setChannelTopic :: "string \<Rightarrow> channel \<Rightarrow> channel" where
  "setChannelTopic topic ch = ch\<lparr>chTopic := topic\<rparr>"

text \<open>The scan of the three membership tests: walk the set until an element equals the target.\<close>

primrec scan :: "ptr \<Rightarrow> ptr list \<Rightarrow> bool" where
  "scan target [] = False"
| "scan target (it # rest) = (if it = target then True else scan target rest)"

definition isChannelMember :: "ptr \<Rightarrow> channel \<Rightarrow> bool" where
  "isChannelMember target ch = scan target (members ch)"

definition isOperator :: "ptr \<Rightarrow> channel \<Rightarrow> bool" where
  "isOperator target ch = scan target (operators ch)"

definition isInvitedMember :: "ptr \<Rightarrow> channel \<Rightarrow> bool" where
  "isInvitedMember target ch = scan target (invited ch)"

definition addMember :: "ptr \<Rightarrow> channel \<Rightarrow> bool \<times> channel" where
  "addMember target ch =
     (if \<not> isChannelMember target ch
      then (True, ch\<lparr>members := set_insert target (members ch)\<rparr>) else (False, ch))"

definition addOperator :: "ptr \<Rightarrow> channel \<Rightarrow> bool \<times> channel" where
  "addOperator target ch =
     (if \<not> isOperator target ch
      then (True, ch\<lparr>operators := set_insert target (operators ch)\<rparr>) else (False, ch))"

definition addInvitedMember :: "ptr \<Rightarrow> channel \<Rightarrow> bool \<times> channel" where
  "addInvitedMember target ch =
     (if \<not> isInvitedMember target ch
      then (True, ch\<lparr>invited := set_insert target (invited ch)\<rparr>) else (False, ch))"

text \<open>\<open>erase\<close> returns how many elements it removed.\<close>

definition removeMember :: "ptr \<Rightarrow> channel \<Rightarrow> bool \<times> channel" where
  "removeMember target ch =
     (length (set_erase target (members ch)) < length (members ch),
      ch\<lparr>members := set_erase target (members ch)\<rparr>)"

definition removeOperator :: "ptr \<Rightarrow> channel \<Rightarrow> bool \<times> channel" where
  "removeOperator target ch =
     (length (set_erase target (operators ch)) < length (operators ch),
      ch\<lparr>operators := set_erase target (operators ch)\<rparr>)"

definition removeInvitedMember :: "ptr \<Rightarrow> channel \<Rightarrow> bool \<times> channel" where
  "removeInvitedMember target ch =
     (length (set_erase target (invited ch)) < length (invited ch),
      ch\<lparr>invited := set_erase target (invited ch)\<rparr>)"

definition removeFromChannel :: "ptr \<Rightarrow> channel \<Rightarrow> bool \<times> channel" where
  "removeFromChannel target ch =
     (let removed = False;
          (b1, ch) = removeMember target ch;
          removed = (if b1 then True else removed);
          (b2, ch) = removeOperator target ch;
          removed = (if b2 then True else removed);
          (b3, ch) = removeInvitedMember target ch;
          removed = (if b3 then True else removed)
      in (removed, ch))"

subsection \<open>Membership\<close>

lemma scan_iff [simp]: "scan p s \<longleftrightarrow> p \<in> set s"
  by (induction s) auto

lemma set_erase_length: "length (set_erase p s) < length s \<longleftrightarrow> p \<in> set s"
  by (induction s) (auto simp: set_erase_def less_Suc_eq_le intro: le_imp_less_Suc)

lemmas member_tests = isChannelMember_def isOperator_def isInvitedMember_def scan_iff

lemma add_results:
  "addMember p ch = (p \<notin> set (members ch),
     if p \<in> set (members ch) then ch else ch\<lparr>members := set_insert p (members ch)\<rparr>)"
  "addOperator p ch = (p \<notin> set (operators ch),
     if p \<in> set (operators ch) then ch else ch\<lparr>operators := set_insert p (operators ch)\<rparr>)"
  "addInvitedMember p ch = (p \<notin> set (invited ch),
     if p \<in> set (invited ch) then ch else ch\<lparr>invited := set_insert p (invited ch)\<rparr>)"
  by (simp_all add: addMember_def addOperator_def addInvitedMember_def member_tests)

lemma remove_results:
  "removeMember p ch = (p \<in> set (members ch), ch\<lparr>members := set_erase p (members ch)\<rparr>)"
  "removeOperator p ch = (p \<in> set (operators ch), ch\<lparr>operators := set_erase p (operators ch)\<rparr>)"
  "removeInvitedMember p ch = (p \<in> set (invited ch), ch\<lparr>invited := set_erase p (invited ch)\<rparr>)"
  by (simp_all add: removeMember_def removeOperator_def removeInvitedMember_def set_erase_length)

lemma removeFromChannel_result:
  "removeFromChannel p ch =
    (p \<in> set (members ch) \<union> set (operators ch) \<union> set (invited ch),
     ch\<lparr>members := set_erase p (members ch), operators := set_erase p (operators ch),
        invited := set_erase p (invited ch)\<rparr>)"
  by (simp add: removeFromChannel_def remove_results Let_def)

subsection \<open>Well-formed channels\<close>

text \<open>
  The sets are ordered sets, operators are members, the modes are coherent, and the topic is one
  line.
\<close>

definition channel_ok :: "channel \<Rightarrow> bool" where
  "channel_ok ch \<longleftrightarrow>
     set_ok (members ch) \<and> set_ok (operators ch) \<and> set_ok (invited ch)
     \<and> set (operators ch) \<subseteq> set (members ch) \<and> modes_ok (chModes ch) \<and> lf_free (chTopic ch)"

lemma channel_ok_new [ok_intro]: "channel_ok (Channel n)"
  by (auto simp: channel_ok_def Channel_def set_ok_def lf_simps intro: ok_intro)

lemma channel_ok_topic [ok_intro]:
  "channel_ok ch \<Longrightarrow> lf_free t \<Longrightarrow> channel_ok (setChannelTopic t ch)"
  by (simp add: channel_ok_def setChannelTopic_def)

lemma channel_ok_addMember [ok_intro]: "channel_ok ch \<Longrightarrow> channel_ok (snd (addMember p ch))"
  by (auto simp: channel_ok_def add_results std_set_simps intro: ok_intro)

lemma channel_ok_addOperator [ok_intro]:
  "channel_ok ch \<Longrightarrow> p \<in> set (members ch) \<Longrightarrow> channel_ok (snd (addOperator p ch))"
  by (auto simp: channel_ok_def add_results std_set_simps intro: ok_intro)

lemma channel_ok_addInvited [ok_intro]:
  "channel_ok ch \<Longrightarrow> channel_ok (snd (addInvitedMember p ch))"
  by (auto simp: channel_ok_def add_results std_set_simps intro: ok_intro)

lemma channel_ok_removeOperator [ok_intro]:
  "channel_ok ch \<Longrightarrow> channel_ok (snd (removeOperator p ch))"
  by (auto simp: channel_ok_def remove_results std_set_simps intro: ok_intro)

lemma channel_ok_removeClient [ok_intro]:
  "channel_ok ch \<Longrightarrow> channel_ok (snd (removeFromChannel p ch))"
  by (auto simp: channel_ok_def removeFromChannel_result std_set_simps intro: ok_intro)

lemma channel_ok_modes [ok_intro]:
  "channel_ok ch \<Longrightarrow> modes_ok m \<Longrightarrow> channel_ok (ch\<lparr>chModes := m\<rparr>)"
  by (simp add: channel_ok_def)

end
