(* ===== verification/Reply_Builder.thy ===== *)
theory Reply_Builder
  imports Channels
begin

section \<open>ReplyBuilder and CommandResult\<close>

text \<open>
  \<open>ReplyBuilder.cpp\<close> renders the text of every reply and \<open>CommandResult.cpp\<close> collects replies
  with the descriptors they are for. The point of the lemmas is framing: every text that the
  builder makes from line-feed-free parts is one line, ended by CR LF and by nothing else.
\<close>

subsection \<open>Numeric messages\<close>

definition MSG_UNKNOWNNUMERIC :: string where
  "MSG_UNKNOWNNUMERIC = ''!!UnknownNumericCode!!''"

definition getNumericMessage :: "string \<Rightarrow> string" where
  "getNumericMessage num =
     (if num = ''001'' then '':Welcome to the ircServ''
      else if num = ''002'' then '':Your host is ircServ, running version 1.0''
      else if num = ''003'' then '':This server was created 2026-..-..''
      else if num = ''004'' then ''ircServ 1.0''
      else if num = ''324'' then ''''
      else if num = ''331'' then '':No topic is set''
      else if num = ''332'' then ''''
      else if num = ''341'' then ''''
      else if num = ''353'' then ''''
      else if num = ''366'' then '':End of /NAMES list''
      else if num = ''401'' then '':No such nick/channel''
      else if num = ''403'' then '':No such channel''
      else if num = ''404'' then '':Cannot send to channel''
      else if num = ''411'' then '':No recipient given''
      else if num = ''412'' then '':No text to send''
      else if num = ''421'' then '':Unknown command''
      else if num = ''431'' then '':No nickname given''
      else if num = ''432'' then '':Erroneous nickname''
      else if num = ''433'' then '':Nickname is already in use''
      else if num = ''441'' then '':They aren'' @ [CHR 0x27] @ ''t on that channel''
      else if num = ''442'' then '':You'' @ [CHR 0x27] @ ''re not on that channel''
      else if num = ''443'' then '':is already on channel''
      else if num = ''451'' then '':You have not registered''
      else if num = ''461'' then '':Not enough parameters''
      else if num = ''462'' then '':Unauthorized command''
      else if num = ''464'' then '':Password incorrect''
      else if num = ''467'' then '':Channel key already set''
      else if num = ''471'' then '':Cannot join channel (+l)''
      else if num = ''472'' then '':is unknown mode char to me for channel''
      else if num = ''473'' then '':Cannot join channel (+i)''
      else if num = ''475'' then '':Cannot join channel (+k)''
      else if num = ''482'' then '':You'' @ [CHR 0x27] @ ''re not channel operator''
      else MSG_UNKNOWNNUMERIC)"

definition crlf :: string where
  "crlf = [CR, LF]"

text \<open>The two overloads of \<open>numeric\<close>: for a target name, and for a client.\<close>

definition numeric_str :: "string \<Rightarrow> string \<Rightarrow> string \<Rightarrow> string" where
  "numeric_str target num msg =
     (let numericMsg = getNumericMessage num in
      if numericMsg = MSG_UNKNOWNNUMERIC then ''''
      else
        (let validTarget = (if target = '''' then ''*'' else target);
             reply = '':ircServ '' @ num @ '' '' @ validTarget;
             reply = (if msg \<noteq> '''' then reply @ '' '' @ msg else reply);
             reply = (if numericMsg \<noteq> '''' then reply @ '' '' @ numericMsg else reply)
         in reply @ crlf))"

definition getValidTargetName :: "client \<Rightarrow> string" where
  "getValidTargetName target =
     (let nick = getNickName target in if nick = '''' then ''*'' else nick)"

definition numeric :: "client \<Rightarrow> string \<Rightarrow> string \<Rightarrow> string" where
  "numeric client num msg = (let target = getValidTargetName client in numeric_str target num msg)"

subsection \<open>Command messages\<close>

definition buildPrefix :: "client \<Rightarrow> string" where
  "buildPrefix client =
     (let nick = getNickName client; nick = (if nick = '''' then ''*'' else nick);
          user = getUserName client; user = (if user = '''' then ''unknown'' else user)
      in '':'' @ nick @ ''!'' @ user @ ''@ircServ'')"

definition reply_join :: "client \<Rightarrow> string \<Rightarrow> string" where
  "reply_join client channel = buildPrefix client @ '' JOIN '' @ channel @ crlf"

definition reply_privMsg :: "client \<Rightarrow> string \<Rightarrow> string \<Rightarrow> string" where
  "reply_privMsg from to msg =
     buildPrefix from @ '' PRIVMSG '' @ to @ (if msg \<noteq> '''' then '' :'' @ msg else '''') @ crlf"

definition reply_kick :: "client \<Rightarrow> client \<Rightarrow> string \<Rightarrow> string \<Rightarrow> string" where
  "reply_kick opUser target channel reason =
     buildPrefix opUser @ '' KICK '' @ channel @ '' '' @ getValidTargetName target
       @ (if reason \<noteq> '''' then '' :'' @ reason else '''') @ crlf"

definition reply_invite :: "client \<Rightarrow> client \<Rightarrow> string \<Rightarrow> string" where
  "reply_invite opUser target channel =
     buildPrefix opUser @ '' INVITE '' @ getValidTargetName target @ '' '' @ channel @ crlf"

definition reply_topic :: "client \<Rightarrow> string \<Rightarrow> string \<Rightarrow> string" where
  "reply_topic opUser channel topic =
     buildPrefix opUser @ '' TOPIC '' @ channel @ '' :'' @ topic @ crlf"

definition reply_mode :: "client \<Rightarrow> string \<Rightarrow> string \<Rightarrow> string" where
  "reply_mode opUser channel modeStr =
     buildPrefix opUser @ '' MODE '' @ channel @ '' '' @ modeStr @ crlf"

subsection \<open>CommandResult\<close>

record t_reply =
  replyFd :: int
  replyText :: string

record command_result =
  replies :: "t_reply list"
  disconnect :: bool

definition CommandResult :: command_result where
  "CommandResult = \<lparr>replies = [], disconnect = False\<rparr>"

definition addReply :: "int \<Rightarrow> string \<Rightarrow> command_result \<Rightarrow> command_result" where
  "addReply fd reply r = r\<lparr>replies := replies r @ [\<lparr>replyFd = fd, replyText = reply\<rparr>]\<rparr>"

definition getReplies :: "command_result \<Rightarrow> t_reply list" where
  [simp]: "getReplies r = replies r"

definition requestToDisconnect :: "command_result \<Rightarrow> command_result" where
  "requestToDisconnect r = r\<lparr>disconnect := True\<rparr>"

definition shouldDisconnect :: "command_result \<Rightarrow> bool" where
  "shouldDisconnect r = disconnect r"

lemma addReply_simps [simp]:
  "replies (addReply fd t r) = replies r @ [\<lparr>replyFd = fd, replyText = t\<rparr>]"
  "disconnect (addReply fd t r) = disconnect r"
  by (simp_all add: addReply_def)

lemma CommandResult_simps [simp]: "replies CommandResult = []" "disconnect CommandResult = False"
  by (simp_all add: CommandResult_def)

subsection \<open>Framing\<close>

text \<open>One line: a line-feed-free body, then CR LF.\<close>

definition one_line :: "string \<Rightarrow> bool" where
  "one_line t \<longleftrightarrow> 2 \<le> length t \<and> drop (length t - 2) t = crlf \<and> lf_free (take (length t - 2) t)"

lemma one_lineI: "lf_free b \<Longrightarrow> one_line (b @ crlf)"
  by (simp add: one_line_def crlf_def)

lemma one_line_iff: "one_line t \<longleftrightarrow> (\<exists>b. t = b @ crlf \<and> lf_free b)"
  by (metis append_take_drop_id one_line_def one_lineI)

lemma one_line_neq_Nil: "one_line t \<Longrightarrow> t \<noteq> ''''"
  by (auto simp: one_line_iff crlf_def)

lemma one_line_intros:
  "one_line crlf"
  "lf_free b \<Longrightarrow> one_line t \<Longrightarrow> one_line (b @ t)"
  "c \<noteq> LF \<Longrightarrow> one_line t \<Longrightarrow> one_line (c # t)"
  using one_lineI [of "[]"] unfolding one_line_iff
  by (auto simp: lf_simps)

definition known_codes :: "string list" where
  "known_codes = [''001'', ''002'', ''003'', ''004'', ''324'', ''331'', ''332'', ''341'', ''353'',
     ''366'', ''401'', ''403'', ''404'', ''411'', ''412'', ''421'', ''431'', ''432'', ''433'',
     ''441'', ''442'', ''443'', ''451'', ''461'', ''462'', ''464'', ''467'', ''471'', ''472'',
     ''473'', ''475'', ''482'']"

lemma known_code_simps [simp]:
  "c \<in> set known_codes \<longleftrightarrow> c \<in> {''001'', ''002'', ''003'', ''004'', ''324'', ''331'', ''332'', ''341'',
     ''353'', ''366'', ''401'', ''403'', ''404'', ''411'', ''412'', ''421'', ''431'', ''432'', ''433'',
     ''441'', ''442'', ''443'', ''451'', ''461'', ''462'', ''464'', ''467'', ''471'', ''472'',
     ''473'', ''475'', ''482''}"
  by (simp add: known_codes_def)

lemma known_codes_msgs:
  "list_all (\<lambda>n. lf_free n \<and> lf_free (getNumericMessage n)
     \<and> getNumericMessage n \<noteq> MSG_UNKNOWNNUMERIC) known_codes"
  by (simp add: known_codes_def getNumericMessage_def MSG_UNKNOWNNUMERIC_def lf_simps)

lemma numeric_str_line:
  assumes "num \<in> set known_codes" "lf_free target" "lf_free msg"
  shows "one_line (numeric_str target num msg)"
proof -
  have "lf_free num" "lf_free (getNumericMessage num)" "getNumericMessage num \<noteq> MSG_UNKNOWNNUMERIC"
    using known_codes_msgs assms(1) by (auto simp: list_all_iff simp del: known_code_simps)
  with assms(2,3) show ?thesis
    by (auto simp: numeric_str_def Let_def intro!: one_line_intros)
qed

lemma numeric_line:
  "num \<in> set known_codes \<Longrightarrow> client_ok c \<Longrightarrow> lf_free msg \<Longrightarrow> one_line (numeric c num msg)"
  using client_ok_nick_lf_free [of c]
  by (auto simp: numeric_def getValidTargetName_def getNickName_def Let_def lf_simps
      intro!: numeric_str_line)

lemma buildPrefix_lf_free: "client_ok c \<Longrightarrow> lf_free (buildPrefix c)"
  using client_ok_nick_lf_free [of c]
  by (auto simp: buildPrefix_def getNickName_def getUserName_def Let_def client_ok_def lf_simps)

lemma validTarget_lf_free: "client_ok c \<Longrightarrow> lf_free (getValidTargetName c)"
  using client_ok_nick_lf_free [of c]
  by (auto simp: getValidTargetName_def getNickName_def Let_def lf_simps)

lemma reply_lines [ok_intro]:
  assumes "client_ok c" "client_ok d" "lf_free s" "lf_free t"
  shows "one_line (reply_join c s)" "one_line (reply_privMsg c s t)" "one_line (reply_kick c d s t)"
    "one_line (reply_invite c d s)" "one_line (reply_topic c s t)" "one_line (reply_mode c s t)"
  using assms buildPrefix_lf_free [OF assms(1)] validTarget_lf_free [OF assms(2)]
  by (auto simp: reply_join_def reply_privMsg_def reply_kick_def reply_invite_def reply_topic_def
    reply_mode_def intro!: one_line_intros)

end
