(* ===== verification/Server_State.thy ===== *)
theory Server_State
  imports Reply_Builder
begin

section \<open>ServerState\<close>

text \<open>
  \<open>ServerState.cpp\<close>: the dictionaries of the server and the ownership of clients and channels.

  Clients are heap objects that the three dictionaries and the channels refer to by address, so
  the state has an explicit \<open>heap\<close> from addresses to live clients; \<open>deref\<close> of a deleted (or
  null) address is \<open>None\<close>, and so is deleting an address that is not live. A channel object
  has one owner, its entry in \<open>_channels\<close>, and is the value of that entry; a \<open>Channel *\<close> a
  handler holds is the entry's key. What \<open>operator new\<close> returns is an argument of the
  operations that allocate: \<open>None\<close> for \<open>std::bad_alloc\<close>, otherwise an address.
\<close>

record server_state =
  password :: string
  clientsByFd :: "(int, ptr) std_map"
  clientsByNick :: "(string, ptr) std_map"
  channels :: "(string, channel) std_map"
  heap :: "(ptr, client) std_map"

definition ServerState :: "string \<Rightarrow> server_state" where
  "ServerState pw = \<lparr>password = pw, clientsByFd = [], clientsByNick = [], channels = [], heap = []\<rparr>"

subsection \<open>Access through pointers\<close>

definition deref :: "server_state \<Rightarrow> ptr \<Rightarrow> client option" where
  "deref s p = map_find (heap s) p"

definition store :: "ptr \<Rightarrow> client \<Rightarrow> server_state \<Rightarrow> server_state" where
  "store p c s = s\<lparr>heap := map_put p c (heap s)\<rparr>"

definition delete_ptr :: "ptr \<Rightarrow> server_state \<Rightarrow> server_state option" where
  "delete_ptr p s = (if deref s p = None then None else Some (s\<lparr>heap := map_erase p (heap s)\<rparr>))"

definition putChannel :: "string \<Rightarrow> channel \<Rightarrow> server_state \<Rightarrow> server_state" where
  "putChannel n ch s = s\<lparr>channels := map_put n ch (channels s)\<rparr>"

subsection \<open>Lookups\<close>

definition isNicknameExist :: "string \<Rightarrow> server_state \<Rightarrow> bool" where
  "isNicknameExist nick s =
     (case map_find (clientsByNick s) nick of None \<Rightarrow> False | Some _ \<Rightarrow> True)"

definition getClientByFd :: "int \<Rightarrow> server_state \<Rightarrow> ptr" where
  "getClientByFd fd s = (case map_find (clientsByFd s) fd of None \<Rightarrow> NULL | Some p \<Rightarrow> p)"

definition getClientByNick :: "string \<Rightarrow> server_state \<Rightarrow> ptr" where
  "getClientByNick nick s = (case map_find (clientsByNick s) nick of None \<Rightarrow> NULL | Some p \<Rightarrow> p)"

definition findChannel :: "string \<Rightarrow> server_state \<Rightarrow> channel option" where
  "findChannel name s = map_find (channels s) name"

definition getChannels :: "server_state \<Rightarrow> (string, channel) std_map" where
  [simp]: "getChannels s = channels s"

definition isCorrectPassword :: "string \<Rightarrow> server_state \<Rightarrow> bool" where
  "isCorrectPassword pass s = (if pass = password s then True else False)"

subsection \<open>Clients\<close>

definition addNewClient :: "ptr option \<Rightarrow> int \<Rightarrow> server_state \<Rightarrow> bool \<times> server_state" where
  "addNewClient mem fd s =
     (if map_find (clientsByFd s) fd \<noteq> None then (False, s)
      else
        (case mem of
           None \<Rightarrow> (False, s)
         | Some newClient \<Rightarrow>
             (let s1 = store newClient (Client fd) s;
                  (m, inserted) = map_insert fd newClient (clientsByFd s1)
              in if \<not> inserted then (inserted, s1\<lparr>heap := map_erase newClient (heap s1)\<rparr>)
                 else (inserted, s1\<lparr>clientsByFd := m\<rparr>))))"

definition updateNickname :: "ptr \<Rightarrow> string \<Rightarrow> server_state \<Rightarrow> (bool \<times> server_state) option" where
  "updateNickname client nick s =
     (if nick = '''' then Some (False, s)
      else do {
        c \<leftarrow> deref s client;
        let oldNick = getNickName c;
        if nick = oldNick then Some (True, s)
        else if isNicknameExist nick s = True then Some (False, s)
        else
          (let (m, inserted) = map_insert nick client (clientsByNick s)
           in if \<not> inserted then Some (False, s)
              else
                (let m = (if oldNick \<noteq> '''' then map_erase oldNick m else m)
                 in Some (True,
                      store client (setNickByServerState nick c) (s\<lparr>clientsByNick := m\<rparr>))))
      })"

subsection \<open>Channels\<close>

text \<open>\<open>mem\<close> says whether the allocation of a new channel succeeds.\<close>

definition ensureChannel :: "bool \<Rightarrow> string \<Rightarrow> server_state \<Rightarrow> channel option \<times> server_state" where
  "ensureChannel mem name s =
     (case map_find (channels s) name of
        Some ch \<Rightarrow> (Some ch, s)
      | None \<Rightarrow>
          (if \<not> mem then (None, s)
           else
             (let newChan = Channel name;
                  (m, inserted) = map_insert name newChan (channels s)
              in if \<not> inserted then (None, s)
                 else (Some newChan, s\<lparr>channels := m\<rparr>))))"

definition removeChannelIfEmpty :: "string \<Rightarrow> server_state \<Rightarrow> bool \<times> server_state" where
  "removeChannelIfEmpty name s =
     (case map_find (channels s) name of
        None \<Rightarrow> (False, s)
      | Some target \<Rightarrow>
          (if getMemberCount target \<noteq> 0 then (False, s)
           else (True, s\<lparr>channels := map_erase name (channels s)\<rparr>)))"

subsection \<open>Removing a client\<close>

text \<open>The walk over all channels: drop the client from each and note the names of empty ones.\<close>

fun sweep_channels ::
  "ptr \<Rightarrow> (string, channel) std_map \<Rightarrow> string list \<Rightarrow> (string, channel) std_map \<times> string list" where
  "sweep_channels target [] removeList = ([], removeList)"
| "sweep_channels target ((n, ch) # rest) removeList =
     (let (removed, ch) = removeFromChannel target ch;
          removeList = (if getMemberCount ch = 0 then removeList @ [getChannelName ch] else removeList);
          (rest, removeList) = sweep_channels target rest removeList
      in ((n, ch) # rest, removeList))"

primrec remove_listed :: "string list \<Rightarrow> server_state \<Rightarrow> server_state" where
  "remove_listed [] s = s"
| "remove_listed (n # ns) s = remove_listed ns (snd (removeChannelIfEmpty n s))"

definition removeClient :: "int \<Rightarrow> server_state \<Rightarrow> (bool \<times> server_state) option" where
  "removeClient fd s =
     (case map_find (clientsByFd s) fd of
        None \<Rightarrow> Some (False, s)
      | Some target \<Rightarrow>
          (let (chans, removeList) = sweep_channels target (channels s) [];
               s = remove_listed removeList (s\<lparr>channels := chans\<rparr>)
           in do {
                c \<leftarrow> deref s target;
                let s = (if getNickName c \<noteq> ''''
                         then s\<lparr>clientsByNick := map_erase (getNickName c) (clientsByNick s)\<rparr> else s);
                let s = s\<lparr>clientsByFd := map_erase fd (clientsByFd s)\<rparr>;
                s \<leftarrow> delete_ptr target s;
                Some (True, s)
              }))"

text \<open>The destructor deletes every channel and then every client of \<open>_clientsByFd\<close>.\<close>

definition destroy_ServerState :: "server_state \<Rightarrow> server_state option" where
  "destroy_ServerState s =
     (let s = s\<lparr>clientsByNick := []\<rparr>; s = s\<lparr>channels := []\<rparr> in
      do { s \<leftarrow> for_each (\<lambda>(fd, p) s. delete_ptr p s) (clientsByFd s) s;
           Some (s\<lparr>clientsByFd := []\<rparr>) })"

subsection \<open>Well-formed states\<close>

text \<open>
  \<open>dir_ok\<close>: the heap and the two client dictionaries describe each other exactly. Every entry of
  \<open>clientsByFd\<close> and of \<open>clientsByNick\<close> points to a live client with that descriptor or nickname,
  every live client is found under its descriptor and, once it has one, under its nickname.
\<close>

definition maps_ok :: "server_state \<Rightarrow> bool" where
  "maps_ok s \<longleftrightarrow>
     map_ok (clientsByFd s) \<and> map_ok (clientsByNick s) \<and> map_ok (channels s) \<and> map_ok (heap s)"

definition fd_dir_ok :: "server_state \<Rightarrow> bool" where
  "fd_dir_ok s \<longleftrightarrow>
     (\<forall>fd p. map_find (clientsByFd s) fd = Some p \<longrightarrow> (\<exists>c. deref s p = Some c \<and> socketFd c = fd))
     \<and> (\<forall>p c. deref s p = Some c \<longrightarrow> map_find (clientsByFd s) (socketFd c) = Some p)"

definition nick_dir_ok :: "server_state \<Rightarrow> bool" where
  "nick_dir_ok s \<longleftrightarrow>
     (\<forall>n p. map_find (clientsByNick s) n = Some p \<longrightarrow>
        n \<noteq> '''' \<and> (\<exists>c. deref s p = Some c \<and> nickname c = n))
     \<and> (\<forall>p c. deref s p = Some c \<longrightarrow> nickname c \<noteq> '''' \<longrightarrow>
        map_find (clientsByNick s) (nickname c) = Some p)"

definition heap_ok :: "server_state \<Rightarrow> bool" where
  "heap_ok s \<longleftrightarrow> deref s NULL = None \<and> (\<forall>p c. deref s p = Some c \<longrightarrow> client_ok c)"

definition dir_ok :: "server_state \<Rightarrow> bool" where
  "dir_ok s \<longleftrightarrow> maps_ok s \<and> fd_dir_ok s \<and> nick_dir_ok s \<and> heap_ok s"

text \<open>
  \<open>chan_ok\<close>: every channel is stored under its own, valid name, is well formed, has a member,
  and refers to live clients only, members being registered.
\<close>

definition entry_ok :: "server_state \<Rightarrow> string \<Rightarrow> channel \<Rightarrow> bool" where
  "entry_ok s n ch \<longleftrightarrow>
     chName ch = n \<and> isValidChannelName n \<and> channel_ok ch
     \<and> (\<forall>p \<in> set (members ch). \<exists>c. deref s p = Some c \<and> registered c)
     \<and> (\<forall>p \<in> set (invited ch). deref s p \<noteq> None)"

definition chan_ok :: "server_state \<Rightarrow> bool" where
  "chan_ok s \<longleftrightarrow> (\<forall>n ch. findChannel n s = Some ch \<longrightarrow> entry_ok s n ch \<and> members ch \<noteq> [])"

definition state_ok :: "server_state \<Rightarrow> bool" where
  "state_ok s \<longleftrightarrow> dir_ok s \<and> chan_ok s"

lemmas state_ok_defs = state_ok_def dir_ok_def maps_ok_def fd_dir_ok_def nick_dir_ok_def heap_ok_def
  chan_ok_def

lemma state_ok_init [ok_intro]: "state_ok (ServerState pw)"
  by (simp add: state_ok_defs ServerState_def map_ok_def map_find_simps deref_def findChannel_def)

subsection \<open>Reading the dictionaries\<close>

lemma deref_simps [simp]:
  "deref (store p c s) q = (if q = p then Some c else deref s q)"
  "deref (putChannel n ch s) q = deref s q"
  "deref (s\<lparr>clientsByFd := f\<rparr>) q = deref s q" "deref (s\<lparr>clientsByNick := m\<rparr>) q = deref s q"
  "deref (s\<lparr>channels := chans\<rparr>) q = deref s q" "deref (s\<lparr>password := pw\<rparr>) q = deref s q"
  "deref (s\<lparr>heap := h\<rparr>) q = map_find h q"
  by (simp_all add: deref_def store_def putChannel_def map_find_simps)

lemma findChannel_simps [simp]:
  "findChannel n (putChannel k ch s) = (if n = k then Some ch else findChannel n s)"
  "findChannel n (store p c s) = findChannel n s"
  "findChannel n (s\<lparr>clientsByFd := f\<rparr>) = findChannel n s"
  "findChannel n (s\<lparr>clientsByNick := m\<rparr>) = findChannel n s"
  "findChannel n (s\<lparr>heap := h\<rparr>) = findChannel n s"
  by (simp_all add: findChannel_def store_def putChannel_def map_find_simps)

lemma store_fields [simp]:
  "password (store p c s) = password s" "clientsByFd (store p c s) = clientsByFd s"
  "clientsByNick (store p c s) = clientsByNick s" "channels (store p c s) = channels s"
  by (simp_all add: store_def)

lemma putChannel_fields [simp]:
  "password (putChannel n ch s) = password s" "clientsByFd (putChannel n ch s) = clientsByFd s"
  "clientsByNick (putChannel n ch s) = clientsByNick s" "heap (putChannel n ch s) = heap s"
  by (simp_all add: putChannel_def)

lemma getClientByFd_simps [simp]:
  "getClientByFd fd (store p c s) = getClientByFd fd s"
  "getClientByFd fd (putChannel n ch s) = getClientByFd fd s"
  by (simp_all add: getClientByFd_def)

lemma maps_ok_store [ok_intro]: "maps_ok s \<Longrightarrow> maps_ok (store p c s)"
  by (auto simp: maps_ok_def store_def intro: ok_intro)

lemma maps_ok_putChannel [ok_intro]: "maps_ok s \<Longrightarrow> maps_ok (putChannel n ch s)"
  by (auto simp: maps_ok_def putChannel_def intro: ok_intro)

subsection \<open>Rules for the directory invariant\<close>

lemma dir_okI:
  assumes "maps_ok s" and "deref s NULL = None"
    and "\<And>fd p. map_find (clientsByFd s) fd = Some p \<Longrightarrow> \<exists>c. deref s p = Some c \<and> socketFd c = fd"
    and "\<And>n p. map_find (clientsByNick s) n = Some p \<Longrightarrow>
      n \<noteq> [] \<and> (\<exists>c. deref s p = Some c \<and> nickname c = n)"
    and "\<And>p c. deref s p = Some c \<Longrightarrow> map_find (clientsByFd s) (socketFd c) = Some p \<and>
      (nickname c \<noteq> [] \<longrightarrow> map_find (clientsByNick s) (nickname c) = Some p) \<and> client_ok c"
  shows "dir_ok s"
  unfolding dir_ok_def fd_dir_ok_def nick_dir_ok_def heap_ok_def using assms by blast

lemma dir_ok_maps: "dir_ok s \<Longrightarrow> maps_ok s"
  and dir_ok_null: "dir_ok s \<Longrightarrow> deref s NULL = None"
  and fd_fwd: "dir_ok s \<Longrightarrow> map_find (clientsByFd s) fd = Some p \<Longrightarrow>
    \<exists>c. deref s p = Some c \<and> socketFd c = fd"
  and nick_fwd: "dir_ok s \<Longrightarrow> map_find (clientsByNick s) n = Some p \<Longrightarrow>
    n \<noteq> [] \<and> (\<exists>c. deref s p = Some c \<and> nickname c = n)"
  and fd_bwd: "dir_ok s \<Longrightarrow> deref s p = Some c \<Longrightarrow>
    map_find (clientsByFd s) (socketFd c) = Some p"
  and nick_bwd: "dir_ok s \<Longrightarrow> deref s p = Some c \<Longrightarrow> nickname c \<noteq> [] \<Longrightarrow>
    map_find (clientsByNick s) (nickname c) = Some p"
  and live_client_ok: "dir_ok s \<Longrightarrow> deref s p = Some c \<Longrightarrow> client_ok c"
  unfolding dir_ok_def fd_dir_ok_def nick_dir_ok_def heap_ok_def by blast+

lemma no_null_entry:
  "dir_ok s \<Longrightarrow> map_find (clientsByFd s) fd \<noteq> Some NULL"
  "dir_ok s \<Longrightarrow> map_find (clientsByNick s) n \<noteq> Some NULL"
  using fd_fwd [of s fd NULL] nick_fwd [of s n NULL] dir_ok_null [of s] by auto

lemma getClientByFd_iff:
  "p \<noteq> NULL \<Longrightarrow> getClientByFd fd s = p \<longleftrightarrow> map_find (clientsByFd s) fd = Some p"
  by (auto simp: getClientByFd_def split: option.splits)

lemma getClientByNick_iff:
  "p \<noteq> NULL \<Longrightarrow> getClientByNick n s = p \<longleftrightarrow> map_find (clientsByNick s) n = Some p"
  by (auto simp: getClientByNick_def split: option.splits)

lemma getClientByNick_NULL:
  "dir_ok s \<Longrightarrow> getClientByNick n s = NULL \<longleftrightarrow> map_find (clientsByNick s) n = None"
  using no_null_entry [of s] by (auto simp: getClientByNick_def intro!: gr0I split: option.splits)

lemma getClientByFd_NULL:
  "dir_ok s \<Longrightarrow> getClientByFd fd s = NULL \<longleftrightarrow> map_find (clientsByFd s) fd = None"
  using no_null_entry [of s] by (auto simp: getClientByFd_def intro!: gr0I split: option.splits)

subsection \<open>The client directory as an interface\<close>

text \<open>
  What the command handlers rely on when they turn a descriptor or a nickname into a client: a
  non-null answer is live and carries the key it was looked up by, and every live client is found
  by its keys.
\<close>

locale client_directory =
  fixes ok :: "'s \<Rightarrow> bool"
    and cell :: "'s \<Rightarrow> ptr \<Rightarrow> client option"
    and by_fd :: "int \<Rightarrow> 's \<Rightarrow> ptr"
    and by_nick :: "string \<Rightarrow> 's \<Rightarrow> ptr"
  assumes null_dead: "ok s \<Longrightarrow> cell s NULL = None"
    and by_fd_live: "ok s \<Longrightarrow> by_fd fd s \<noteq> NULL \<Longrightarrow> \<exists>c. cell s (by_fd fd s) = Some c \<and> socketFd c = fd"
    and by_nick_live:
      "ok s \<Longrightarrow> by_nick n s \<noteq> NULL \<Longrightarrow> \<exists>c. cell s (by_nick n s) = Some c \<and> nickname c = n \<and> n \<noteq> ''''"
    and live_by_fd: "ok s \<Longrightarrow> cell s p = Some c \<Longrightarrow> by_fd (socketFd c) s = p"
    and live_by_nick: "ok s \<Longrightarrow> cell s p = Some c \<Longrightarrow> nickname c \<noteq> '''' \<Longrightarrow> by_nick (nickname c) s = p"
    and live_ok: "ok s \<Longrightarrow> cell s p = Some c \<Longrightarrow> client_ok c"
begin

lemma live_not_null: "ok s \<Longrightarrow> cell s p = Some c \<Longrightarrow> p \<noteq> NULL"
  by (metis null_dead option.distinct(1))

lemma fd_unique:
  "ok s \<Longrightarrow> cell s p = Some c \<Longrightarrow> cell s q = Some d \<Longrightarrow> socketFd c = socketFd d \<Longrightarrow> p = q"
  using live_by_fd by metis

lemma nick_unique:
  "ok s \<Longrightarrow> cell s p = Some c \<Longrightarrow> cell s q = Some d \<Longrightarrow> nickname c \<noteq> '''' \<Longrightarrow>
    nickname c = nickname d \<Longrightarrow> p = q"
  using live_by_nick by metis

lemma by_nick_Nil: "ok s \<Longrightarrow> by_nick '''' s = NULL"
  using by_nick_live by blast

lemma by_fd_cases:
  assumes "ok s"
  obtains (absent) "by_fd fd s = NULL"
    | (present) c where "by_fd fd s \<noteq> NULL" "cell s (by_fd fd s) = Some c" "socketFd c = fd" "client_ok c"
  using by_fd_live [OF assms, of fd] live_ok [OF assms] by blast

lemma by_nick_cases:
  assumes "ok s"
  obtains (absent) "by_nick n s = NULL"
    | (present) c where "by_nick n s \<noteq> NULL" "cell s (by_nick n s) = Some c" "nickname c = n"
        "client_ok c" "isValidNick n"
proof (cases "by_nick n s = NULL")
  case True
  then show ?thesis by (rule absent)
next
  case False
  then obtain c where c: "cell s (by_nick n s) = Some c" "nickname c = n" "n \<noteq> ''''"
    using by_nick_live [OF assms] by blast
  with live_ok [OF assms] have "client_ok c" "isValidNick n" by (auto simp: client_ok_def)
  with False c present show ?thesis by blast
qed

end

interpretation dirs: client_directory dir_ok deref getClientByFd getClientByNick
proof unfold_locales
  fix s :: server_state and fd :: int and n :: string and p :: ptr and c :: client
  assume ok: "dir_ok s"
  show "deref s NULL = None" using ok by (rule dir_ok_null)
  show "\<exists>c. deref s (getClientByFd fd s) = Some c \<and> socketFd c = fd" if "getClientByFd fd s \<noteq> NULL"
    using ok that getClientByFd_iff fd_fwd by blast
  show "\<exists>c. deref s (getClientByNick n s) = Some c \<and> nickname c = n \<and> n \<noteq> ''''"
    if "getClientByNick n s \<noteq> NULL"
    using ok that getClientByNick_iff nick_fwd by blast
  show "getClientByFd (socketFd c) s = p" if "deref s p = Some c"
    using fd_bwd [OF ok that] by (simp add: getClientByFd_def)
  show "getClientByNick (nickname c) s = p" if "deref s p = Some c" "nickname c \<noteq> ''''"
    using nick_bwd [OF ok that] by (simp add: getClientByNick_def)
  show "client_ok c" if "deref s p = Some c"
    using ok that by (rule live_client_ok)
qed

lemma state_ok_dir: "state_ok s \<Longrightarrow> dir_ok s"
  by (simp add: state_ok_def)

lemma fd_cases [consumes 1, case_names absent present]:
  assumes "state_ok s"
  obtains "getClientByFd fd s = NULL"
    | c where "getClientByFd fd s \<noteq> NULL" "deref s (getClientByFd fd s) = Some c"
      "socketFd c = fd" "client_ok c"
  by (rule dirs.by_fd_cases [OF state_ok_dir [OF assms]]) (rule that; assumption)+

lemma nick_cases [consumes 1, case_names absent present]:
  assumes "state_ok s"
  obtains "getClientByNick n s = NULL"
    | c where "getClientByNick n s \<noteq> NULL" "deref s (getClientByNick n s) = Some c"
      "nickname c = n" "client_ok c" "isValidNick n"
  by (rule dirs.by_nick_cases [OF state_ok_dir [OF assms]]) (rule that; assumption)+

lemma findChannel_entry:
  "state_ok s \<Longrightarrow> findChannel n s = Some ch \<Longrightarrow> entry_ok s n ch \<and> members ch \<noteq> []"
  by (simp add: state_ok_def chan_ok_def)

subsection \<open>Preservation: writes to clients and channels\<close>

lemma entry_ok_mono:
  "entry_ok s n ch \<Longrightarrow>
    (\<And>p c. deref s p = Some c \<Longrightarrow> \<exists>c'. deref s' p = Some c' \<and> (registered c \<longrightarrow> registered c')) \<Longrightarrow>
    entry_ok s' n ch"
  unfolding entry_ok_def by (metis not_None_eq)

lemma chan_ok_mono:
  assumes "chan_ok s" and "\<And>n. findChannel n s' = findChannel n s"
    and "\<And>p c. deref s p = Some c \<Longrightarrow> \<exists>c'. deref s' p = Some c' \<and> (registered c \<longrightarrow> registered c')"
  shows "chan_ok s'"
  unfolding chan_ok_def
proof (intro allI impI)
  fix n ch
  assume "findChannel n s' = Some ch"
  with assms(1,2) have "entry_ok s n ch" "members ch \<noteq> []" by (simp_all add: chan_ok_def)
  with entry_ok_mono [OF _ assms(3)] show "entry_ok s' n ch \<and> members ch \<noteq> []" by blast
qed

lemma dir_ok_store:
  assumes ok: "dir_ok s" and c: "deref s p = Some c" and c': "client_ok c'"
    and same: "socketFd c' = socketFd c" "nickname c' = nickname c"
  shows "dir_ok (store p c' s)"
proof (rule dir_okI)
  show "maps_ok (store p c' s)" using ok by (intro maps_ok_store dir_ok_maps)
  show "deref (store p c' s) NULL = None"
    using c dir_ok_null [OF ok] by (auto intro!: gr0I)
  show "\<exists>d. deref (store p c' s) q = Some d \<and> socketFd d = fd"
    if "map_find (clientsByFd (store p c' s)) fd = Some q" for fd q
    using fd_fwd [OF ok, of fd q] that c same by auto
  show "n \<noteq> [] \<and> (\<exists>d. deref (store p c' s) q = Some d \<and> nickname d = n)"
    if "map_find (clientsByNick (store p c' s)) n = Some q" for n q
    using nick_fwd [OF ok, of n q] that c same by auto
  show "map_find (clientsByFd (store p c' s)) (socketFd d) = Some q \<and>
      (nickname d \<noteq> [] \<longrightarrow> map_find (clientsByNick (store p c' s)) (nickname d) = Some q) \<and> client_ok d"
    if "deref (store p c' s) q = Some d" for q d
    using that c' same fd_bwd [OF ok c] nick_bwd [OF ok c] fd_bwd [OF ok, of q d]
      nick_bwd [OF ok, of q d] live_client_ok [OF ok, of q d]
    by (auto split: if_splits)
qed

lemma state_ok_store [ok_intro]:
  assumes ok: "state_ok s" and c: "deref s p = Some c" and c': "client_ok c'"
    and same: "socketFd c' = socketFd c" "nickname c' = nickname c" "registered c \<longrightarrow> registered c'"
  shows "state_ok (store p c' s)"
proof -
  have "chan_ok (store p c' s)"
    by (rule chan_ok_mono [of s]) (use ok c same in \<open>auto simp: state_ok_def\<close>)
  with dir_ok_store [OF state_ok_dir [OF ok] c c'] same show ?thesis
    by (simp add: state_ok_def)
qed

lemma dir_ok_cong:
  assumes "dir_ok s" and "maps_ok s'" and "\<And>p. deref s' p = deref s p"
    and "clientsByFd s' = clientsByFd s" and "clientsByNick s' = clientsByNick s"
  shows "dir_ok s'"
  using assms(1,2) unfolding dir_ok_def fd_dir_ok_def nick_dir_ok_def heap_ok_def assms(3-5) by blast

lemma dir_ok_putChannel [ok_intro]: "dir_ok s \<Longrightarrow> dir_ok (putChannel n ch s)"
  by (rule dir_ok_cong) (auto intro: maps_ok_putChannel dir_ok_maps)

lemma entry_ok_cong: "(\<And>p. deref s' p = deref s p) \<Longrightarrow> entry_ok s' n ch = entry_ok s n ch"
  by (simp add: entry_ok_def)

lemma entry_ok_putChannel [simp]: "entry_ok (putChannel k x s) n ch = entry_ok s n ch"
  by (rule entry_ok_cong) simp

lemma state_ok_putChannel [ok_intro]:
  assumes "state_ok s" "entry_ok s n ch" "members ch \<noteq> []"
  shows "state_ok (putChannel n ch s)"
  using assms entry_ok_cong [of "putChannel n ch s" s]
  by (auto simp: state_ok_def chan_ok_def intro: ok_intro)

subsection \<open>Preservation: addNewClient and updateNickname\<close>

text \<open>What the allocator promises: a fresh, non-null address, or failure.\<close>

definition fresh :: "ptr option \<Rightarrow> server_state \<Rightarrow> bool" where
  "fresh mem s = (case mem of None \<Rightarrow> True | Some p \<Rightarrow> p \<noteq> NULL \<and> deref s p = None)"

lemma addNewClient_new:
  "map_find (clientsByFd s) fd = None \<Longrightarrow>
    addNewClient (Some p) fd s
      = (True, (store p (Client fd) s)\<lparr>clientsByFd := map_put fd p (clientsByFd s)\<rparr>)"
  by (simp add: addNewClient_def map_insert_def)

lemma dir_ok_add:
  assumes ok: "dir_ok s" and p: "p \<noteq> NULL" "deref s p = None"
    and fd: "map_find (clientsByFd s) fd = None"
  shows "dir_ok ((store p (Client fd) s)\<lparr>clientsByFd := map_put fd p (clientsByFd s)\<rparr>)" (is "dir_ok ?s")
proof (rule dir_okI)
  show "maps_ok ?s"
    using dir_ok_maps [OF ok] by (auto simp: maps_ok_def store_def intro: ok_intro)
  show "deref ?s NULL = None" using p dir_ok_null [OF ok] by simp
  show "\<exists>c. deref ?s q = Some c \<and> socketFd c = f" if "map_find (clientsByFd ?s) f = Some q" for f q
    using that fd_fwd [OF ok, of f q] p
    by (auto simp: map_find_put Client_def split: if_splits)
  show "n \<noteq> [] \<and> (\<exists>c. deref ?s q = Some c \<and> nickname c = n)"
    if "map_find (clientsByNick ?s) n = Some q" for n q
    using that nick_fwd [OF ok, of n q] p by auto
  show "map_find (clientsByFd ?s) (socketFd d) = Some q \<and>
      (nickname d \<noteq> [] \<longrightarrow> map_find (clientsByNick ?s) (nickname d) = Some q) \<and> client_ok d"
    if "deref ?s q = Some d" for q d
    using that fd fd_bwd [OF ok, of q d] nick_bwd [OF ok, of q d] live_client_ok [OF ok, of q d]
      client_ok_new [of "socketFd d"]
    by (auto simp: map_find_put Client_def split: if_splits)
qed

lemma state_ok_addNewClient [ok_intro]:
  assumes ok: "state_ok s" and mem: "fresh mem s"
  shows "state_ok (snd (addNewClient mem fd s))"
proof (cases "map_find (clientsByFd s) fd = None \<and> mem \<noteq> None")
  case False
  with ok show ?thesis by (auto simp: addNewClient_def)
next
  case True
  then obtain p where p: "mem = Some p" by blast
  with mem have fr: "p \<noteq> NULL" "deref s p = None" by (simp_all add: fresh_def)
  have "chan_ok ((store p (Client fd) s)\<lparr>clientsByFd := map_put fd p (clientsByFd s)\<rparr>)"
    by (rule chan_ok_mono [of s]) (use ok fr in \<open>auto simp: state_ok_def\<close>)
  with dir_ok_add [OF state_ok_dir [OF ok] fr] True p show ?thesis
    by (simp add: addNewClient_new state_ok_def)
qed

text \<open>The outcome of a nickname update on every branch.\<close>

lemma updateNickname_result:
  assumes ok: "dir_ok s" and c: "deref s p = Some c"
  shows "updateNickname p nick s =
    (if nick = '''' \<or> (nick \<noteq> nickname c \<and> getClientByNick nick s \<noteq> NULL) then Some (False, s)
     else if nick = nickname c then Some (True, s)
     else Some (True, store p (setNickByServerState nick c)
       (s\<lparr>clientsByNick :=
          (if nickname c \<noteq> '''' then map_erase (nickname c) else id)
            (map_put nick p (clientsByNick s))\<rparr>)))"
  using c by (simp add: getClientByNick_NULL [OF ok] updateNickname_def map_insert_def
      isNicknameExist_def getNickName_def split: option.split)

lemma rename_dir:
  assumes ok: "dir_ok s" and c: "deref s p = Some c" and nick: "isValidNick nick"
    and free: "map_find (clientsByNick s) nick = None"
  shows "dir_ok (store p (setNickByServerState nick c)
    (s\<lparr>clientsByNick := (if nickname c \<noteq> '''' then map_erase (nickname c) else id)
        (map_put nick p (clientsByNick s))\<rparr>))" (is "dir_ok ?s")
proof (rule dir_okI)
  have ne: "nick \<noteq> []" using isValidNick_chars [OF nick] by simp
  have new: "nickname c \<noteq> nick" if "nickname c \<noteq> []"
    using free nick_bwd [OF ok c that] by auto
  have none: "map_find (clientsByNick s) [] = None"
    using nick_fwd [OF ok, of "[]"] by (cases "map_find (clientsByNick s) []") auto
  have find: "map_find (clientsByNick ?s) n =
      (if n = nick then Some p else if n = nickname c then None else map_find (clientsByNick s) n)" for n
    using new none by (auto simp: map_find_simps)
  show "maps_ok ?s"
    using dir_ok_maps [OF ok] by (auto simp: maps_ok_def store_def intro: ok_intro)
  show "deref ?s NULL = None" using c dir_ok_null [OF ok] by (auto intro!: gr0I)
  show "\<exists>d. deref ?s q = Some d \<and> socketFd d = f" if "map_find (clientsByFd ?s) f = Some q" for f q
    using that fd_fwd [OF ok, of f q] c by (auto simp: setNickByServerState_def)
  show "n \<noteq> [] \<and> (\<exists>d. deref ?s q = Some d \<and> nickname d = n)"
    if "map_find (clientsByNick ?s) n = Some q" for n q
    using that nick_fwd [OF ok, of n q] c ne unfolding find
    by (auto simp: setNickByServerState_def split: if_splits)
  show "map_find (clientsByFd ?s) (socketFd d) = Some q \<and>
      (nickname d \<noteq> [] \<longrightarrow> map_find (clientsByNick ?s) (nickname d) = Some q) \<and> client_ok d"
    if d: "deref ?s q = Some d" for q d
  proof (cases "q = p")
    case True
    with d show ?thesis
      using fd_bwd [OF ok c] client_ok_nick [OF live_client_ok [OF ok c] nick] unfolding find
      by (auto simp: setNickByServerState_def)
  next
    case False
    with d have d: "deref s q = Some d" by simp
    have "nickname d \<noteq> nick" "nickname d \<noteq> nickname c" if "nickname d \<noteq> []"
      using nick_bwd [OF ok d that] nick_bwd [OF ok c] free False that by auto
    with fd_bwd [OF ok d] nick_bwd [OF ok d] live_client_ok [OF ok d] show ?thesis
      unfolding find by auto
  qed
qed

lemma state_ok_rename:
  assumes ok: "state_ok s" and c: "deref s p = Some c" and nick: "isValidNick nick"
    and free: "map_find (clientsByNick s) nick = None"
  shows "state_ok (store p (setNickByServerState nick c)
    (s\<lparr>clientsByNick := (if nickname c \<noteq> '''' then map_erase (nickname c) else id)
        (map_put nick p (clientsByNick s))\<rparr>))" (is "state_ok ?s")
proof -
  have "chan_ok ?s"
    by (rule chan_ok_mono [of s]) (use ok c in \<open>auto simp: state_ok_def setNickByServerState_def\<close>)
  with rename_dir [OF state_ok_dir [OF ok] c nick free] show ?thesis
    by (simp add: state_ok_def)
qed

text \<open>
  The test suite of the repository expects a client's own nickname to be refused
  (\<open>test_ServerState.cpp\<close>: "Same nick is not allowed"); the code accepts it.
\<close>

lemma updateNickname_same:
  "dir_ok s \<Longrightarrow> deref s p = Some c \<Longrightarrow> nickname c \<noteq> '''' \<Longrightarrow>
    updateNickname p (nickname c) s = Some (True, s)"
  by (simp add: updateNickname_result)

subsection \<open>Preservation: channels\<close>

lemma ensureChannel_result:
  "ensureChannel mem n s =
    (case findChannel n s of
       Some ch \<Rightarrow> (Some ch, s)
     | None \<Rightarrow> if mem then (Some (Channel n), putChannel n (Channel n) s) else (None, s))"
  by (auto simp: ensureChannel_def findChannel_def map_insert_def putChannel_def Let_def
      split: option.split)

lemma removeChannelIfEmpty_result:
  "removeChannelIfEmpty n s =
    (case findChannel n s of
       None \<Rightarrow> (False, s)
     | Some ch \<Rightarrow>
         if members ch = [] then (True, s\<lparr>channels := map_erase n (channels s)\<rparr>) else (False, s))"
  by (auto simp: removeChannelIfEmpty_def findChannel_def getMemberCount_def split: option.split)

lemma findChannel_removeChannelIfEmpty:
  "findChannel k (snd (removeChannelIfEmpty n s)) =
    (case findChannel k s of
       None \<Rightarrow> None
     | Some ch \<Rightarrow> if k = n \<and> members ch = [] then None else Some ch)"
  by (auto simp: removeChannelIfEmpty_result map_find_simps split: option.split)
    (auto simp: findChannel_def map_find_simps)

lemma removeChannelIfEmpty_fields [simp]:
  "clientsByFd (snd (removeChannelIfEmpty n s)) = clientsByFd s"
  "clientsByNick (snd (removeChannelIfEmpty n s)) = clientsByNick s"
  "password (snd (removeChannelIfEmpty n s)) = password s"
  "heap (snd (removeChannelIfEmpty n s)) = heap s"
  by (auto simp: removeChannelIfEmpty_result split: option.split)

lemma map_ok_removeChannelIfEmpty [ok_intro]:
  "map_ok (channels s) \<Longrightarrow> map_ok (channels (snd (removeChannelIfEmpty n s)))"
  by (auto simp: removeChannelIfEmpty_result intro: ok_intro split: option.split)

lemma deref_cong: "heap s' = heap s \<Longrightarrow> deref s' = deref s"
  by (auto simp: deref_def)

lemma removeChannelIfEmpty_noop: "state_ok s \<Longrightarrow> snd (removeChannelIfEmpty n s) = s"
  using findChannel_entry [of s n] by (auto simp: removeChannelIfEmpty_result split: option.split)

text \<open>A channel that an operation has emptied is put back and then removed.\<close>

lemma state_ok_put_remove:
  assumes ok: "state_ok s" and e: "entry_ok s n ch"
  shows "state_ok (snd (removeChannelIfEmpty n (putChannel n ch s)))" (is "state_ok ?s")
proof -
  have heap: "heap ?s = heap s" by simp
  have "maps_ok ?s"
    using maps_ok_putChannel [OF dir_ok_maps [OF state_ok_dir [OF ok]], of n ch]
    by (auto simp: maps_ok_def intro: ok_intro)
  then have "dir_ok ?s"
    using dir_ok_cong [OF state_ok_dir [OF ok], of ?s] deref_cong [OF heap] by simp
  moreover have "chan_ok ?s"
    using findChannel_entry [OF ok] e entry_ok_cong [of ?s s] deref_cong [OF heap]
    by (auto simp: chan_ok_def findChannel_removeChannelIfEmpty split: option.splits if_splits)
  ultimately show ?thesis by (simp add: state_ok_def)
qed

subsection \<open>Removing a client\<close>

definition drop_client :: "ptr \<Rightarrow> channel \<Rightarrow> channel" where
  "drop_client p ch = snd (removeFromChannel p ch)"

lemma drop_client_simps [simp]:
  "chName (drop_client p ch) = chName ch" "members (drop_client p ch) = set_erase p (members ch)"
  "operators (drop_client p ch) = set_erase p (operators ch)"
  "invited (drop_client p ch) = set_erase p (invited ch)"
  "chModes (drop_client p ch) = chModes ch" "chTopic (drop_client p ch) = chTopic ch"
  by (simp_all add: drop_client_def removeFromChannel_result)

lemma sweep_channels_eq:
  "sweep_channels p m rl =
    (map (\<lambda>(n, ch). (n, drop_client p ch)) m,
     rl @ map (chName \<circ> snd) (filter (\<lambda>(n, ch). members (drop_client p ch) = []) m))"
proof (induction m arbitrary: rl)
  case Nil
  then show ?case by simp
next
  case (Cons e rest)
  obtain n ch where e: "e = (n, ch)" by (cases e)
  have r: "removeFromChannel p ch = (fst (removeFromChannel p ch), drop_client p ch)"
    by (simp add: drop_client_def)
  show ?case
    unfolding e sweep_channels.simps by (subst r) (simp add: Cons getMemberCount_def)
qed

lemma findChannel_channels: "findChannel n (s\<lparr>channels := m\<rparr>) = map_find m n"
  by (simp add: findChannel_def)

lemma remove_listed_fields [simp]:
  "clientsByFd (remove_listed ns s) = clientsByFd s"
  "clientsByNick (remove_listed ns s) = clientsByNick s"
  "password (remove_listed ns s) = password s" "heap (remove_listed ns s) = heap s"
  by (induction ns arbitrary: s) auto

lemma map_ok_remove_listed [ok_intro]:
  "map_ok (channels s) \<Longrightarrow> map_ok (channels (remove_listed ns s))"
  by (induction ns arbitrary: s) (auto intro: ok_intro)

lemma findChannel_remove_listed:
  "findChannel k (remove_listed ns s) =
    (case findChannel k s of
       None \<Rightarrow> None
     | Some ch \<Rightarrow> if k \<in> set ns \<and> members ch = [] then None else Some ch)"
  by (induction ns arbitrary: s)
    (auto simp: findChannel_removeChannelIfEmpty split: option.splits if_splits)

text \<open>What the loop over the channels and the removal of the emptied ones leave behind.\<close>

definition swept :: "ptr \<Rightarrow> server_state \<Rightarrow> server_state" where
  "swept p s =
     (let (chans, removeList) = sweep_channels p (channels s) []
      in remove_listed removeList (s\<lparr>channels := chans\<rparr>))"

lemma swept_fields [simp]:
  "clientsByFd (swept p s) = clientsByFd s" "clientsByNick (swept p s) = clientsByNick s"
  "password (swept p s) = password s" "heap (swept p s) = heap s"
  by (simp_all add: swept_def sweep_channels_eq)

lemma findChannel_swept:
  assumes ok: "state_ok s"
  shows "findChannel n (swept p s) =
    (case findChannel n s of
       None \<Rightarrow> None
     | Some ch \<Rightarrow>
         if set_erase p (members ch) = [] then None else Some (drop_client p ch))"
proof (cases "findChannel n s")
  case None
  then show ?thesis
    by (simp add: swept_def sweep_channels_eq findChannel_remove_listed findChannel_channels
        map_find_map findChannel_def [of n s, symmetric])
next
  case (Some ch)
  then have "(n, ch) \<in> set (channels s)" "chName ch = n"
    using ok dir_ok_maps [OF state_ok_dir [OF ok]] findChannel_entry [OF ok Some]
    by (auto simp: findChannel_def map_find_set maps_ok_def entry_ok_def)
  then have "n \<in> chName ` snd ` {(n, ch). (n, ch) \<in> set (channels s) \<and> set_erase p (members ch) = []}"
    if "set_erase p (members ch) = []"
    using that by force
  then have "n \<in> set (snd (sweep_channels p (channels s) []))" if "set_erase p (members ch) = []"
    using that by (auto simp: sweep_channels_eq case_prod_beta)
  moreover have "fst (sweep_channels p (channels s) []) = map (\<lambda>(n, ch). (n, drop_client p ch)) (channels s)"
    by (simp add: sweep_channels_eq)
  moreover have "map_find (map (\<lambda>(n, ch). (n, drop_client p ch)) (channels s)) n
      = Some (drop_client p ch)"
    using Some by (simp add: map_find_map findChannel_def)
  ultimately show ?thesis
    using Some by (simp add: swept_def case_prod_beta findChannel_remove_listed findChannel_channels)
qed

lemma map_ok_swept [ok_intro]: "maps_ok s \<Longrightarrow> map_ok (channels (swept p s))"
  by (auto simp: swept_def sweep_channels_eq maps_ok_def map_ok_map intro: ok_intro)

definition removed :: "int \<Rightarrow> ptr \<Rightarrow> client \<Rightarrow> server_state \<Rightarrow> server_state" where
  "removed fd p c s =
     (swept p s)\<lparr>clientsByFd := map_erase fd (clientsByFd s),
       clientsByNick := (if nickname c \<noteq> [] then map_erase (nickname c) else id) (clientsByNick s),
       heap := map_erase p (heap s)\<rparr>"

lemma removeClient_result:
  assumes "dir_ok s"
  shows "removeClient fd s =
    (case map_find (clientsByFd s) fd of
       None \<Rightarrow> Some (False, s)
     | Some p \<Rightarrow> Some (True, removed fd p (the (deref s p)) s))"
proof (cases "map_find (clientsByFd s) fd")
  case None
  then show ?thesis by (simp add: removeClient_def)
next
  case (Some p)
  then obtain c where c: "deref s p = Some c" using fd_fwd [OF assms] by blast
  have sw: "remove_listed (snd (sweep_channels p (channels s) []))
      (s\<lparr>channels := fst (sweep_channels p (channels s) [])\<rparr>) = swept p s"
    by (simp add: swept_def case_prod_beta)
  have d: "deref (swept p s) p = Some c" and h: "map_find (heap s) p = Some c"
    using c by (simp_all add: deref_def)
  show ?thesis
    using Some c d h
    by (simp add: removeClient_def case_prod_beta sw removed_def delete_ptr_def getNickName_def Let_def
        deref_def)
qed

lemma removed_dir:
  assumes ok: "dir_ok s" and c: "deref s p = Some c" and fd: "socketFd c = fd"
  shows "dir_ok (removed fd p c s)" (is "dir_ok ?s")
proof (rule dir_okI)
  have nick: "map_find (clientsByNick ?s) n =
      (if n = nickname c then None else map_find (clientsByNick s) n)" for n
    using nick_fwd [OF ok, of "[]"]
    by (cases "map_find (clientsByNick s) []") (auto simp: removed_def map_find_simps)
  have deref: "deref ?s q = (if q = p then None else deref s q)" for q
    by (simp add: removed_def map_find_simps) (simp add: deref_def)
  have byfd: "map_find (clientsByFd ?s) f = (if f = fd then None else map_find (clientsByFd s) f)" for f
    by (simp add: removed_def map_find_simps)
  show "maps_ok ?s"
    using dir_ok_maps [OF ok] map_ok_swept [OF dir_ok_maps [OF ok]]
    by (auto simp: maps_ok_def removed_def intro: ok_intro)
  show "deref ?s NULL = None" using dir_ok_null [OF ok] by (simp add: deref)
  show "\<exists>d. deref ?s q = Some d \<and> socketFd d = f" if "map_find (clientsByFd ?s) f = Some q" for f q
    using that fd_fwd [OF ok, of f q] c fd by (auto simp: deref byfd split: if_splits)
  show "n \<noteq> [] \<and> (\<exists>d. deref ?s q = Some d \<and> nickname d = n)"
    if "map_find (clientsByNick ?s) n = Some q" for n q
    using that nick_fwd [OF ok, of n q] c by (auto simp: deref nick split: if_splits)
  show "map_find (clientsByFd ?s) (socketFd d) = Some q \<and>
      (nickname d \<noteq> [] \<longrightarrow> map_find (clientsByNick ?s) (nickname d) = Some q) \<and> client_ok d"
    if d: "deref ?s q = Some d" for q d
  proof -
    from d have q: "q \<noteq> p" and d: "deref s q = Some d" by (auto simp: deref split: if_splits)
    have "socketFd d \<noteq> fd" using fd_bwd [OF ok d] fd_bwd [OF ok c] fd q by auto
    moreover have "nickname d \<noteq> nickname c" if "nickname d \<noteq> []"
      using nick_bwd [OF ok d that] nick_bwd [OF ok c] q that by auto
    ultimately show ?thesis
      using fd_bwd [OF ok d] nick_bwd [OF ok d] live_client_ok [OF ok d] by (auto simp: nick byfd)
  qed
qed

lemma removed_deref: "deref (removed fd p c s) q = (if q = p then None else deref s q)"
  by (simp add: removed_def map_find_simps) (simp add: deref_def)

lemma removed_findChannel: "findChannel n (removed fd p c s) = findChannel n (swept p s)"
  by (simp add: removed_def)

lemma removed_chan:
  assumes ok: "state_ok s" and c: "deref s p = Some c"
  shows "chan_ok (removed fd p c s)"
  unfolding chan_ok_def
proof (intro allI impI)
  fix n ch
  assume ch: "findChannel n (removed fd p c s) = Some ch"
  then obtain ch0 where ch0: "findChannel n s = Some ch0" "ch = drop_client p ch0" "members ch \<noteq> []"
    unfolding removed_findChannel findChannel_swept [OF ok] by (auto split: option.splits if_splits)
  from findChannel_entry [OF ok ch0(1)] have e: "entry_ok s n ch0" by blast
  then have "channel_ok ch"
    unfolding ch0(2) drop_client_def entry_ok_def by (blast intro: ok_intro)
  with e ch0 show "entry_ok (removed fd p c s) n ch \<and> members ch \<noteq> []"
    by (auto simp: entry_ok_def removed_deref std_set_simps)
qed

lemma state_ok_removed:
  "state_ok s \<Longrightarrow> deref s p = Some c \<Longrightarrow> socketFd c = fd \<Longrightarrow> state_ok (removed fd p c s)"
  using removed_dir [of s p c fd] removed_chan [of s p c fd] by (simp add: state_ok_def)

definition mentions :: "ptr \<Rightarrow> channel \<Rightarrow> bool" where
  "mentions p ch \<longleftrightarrow> p \<in> set (members ch) \<union> set (operators ch) \<union> set (invited ch)"

text \<open>
  C26. Disconnecting a client leaves no reference to it. In a well-formed state, \<open>removeClient\<close> on
  a connected descriptor succeeds without touching a dead object, the state stays well formed,
  the client object is deleted and neither dictionary nor any channel (members, operators or
  invitations) still refers to it; every other client is untouched, every channel keeps exactly
  its other members, and exactly the channels that lose their last member disappear.
\<close>

theorem removeClient_complete:
  assumes "state_ok s" and "map_find (clientsByFd s) fd = Some p"
  shows "\<exists>s'. removeClient fd s = Some (True, s') \<and> state_ok s'
    \<and> deref s' p = None \<and> getClientByFd fd s' = NULL
    \<and> (\<forall>q. q \<noteq> p \<longrightarrow> deref s' q = deref s q)
    \<and> (\<forall>n. getClientByNick n s' \<noteq> p)
    \<and> (\<forall>n ch. findChannel n s' = Some ch \<longrightarrow> \<not> mentions p ch)
    \<and> (\<forall>n. findChannel n s' =
        (case findChannel n s of None \<Rightarrow> None
         | Some ch \<Rightarrow> if set (members ch) \<subseteq> {p} then None else Some (drop_client p ch)))"
proof -
  obtain c where c: "deref s p = Some c" "socketFd c = fd"
    using fd_fwd [OF state_ok_dir [OF assms(1)] assms(2)] by blast
  let ?s = "removed fd p c s"
  have ok: "state_ok ?s" using state_ok_removed [OF assms(1)] c by blast
  have p: "p \<noteq> NULL" using c dirs.live_not_null [OF state_ok_dir [OF assms(1)]] by blast
  have dead: "deref ?s p = None" by (simp add: removed_deref)
  have "getClientByFd fd ?s = NULL"
    by (simp add: getClientByFd_def removed_def map_find_simps)
  moreover have "getClientByNick n ?s \<noteq> p" for n
    using dirs.by_nick_live [OF state_ok_dir [OF ok], of n] dead p by auto
  moreover have chan: "findChannel n ?s = (case findChannel n s of None \<Rightarrow> None
      | Some ch \<Rightarrow> if set (members ch) \<subseteq> {p} then None else Some (drop_client p ch))" for n
    by (auto simp: removed_findChannel findChannel_swept [OF assms(1)] set_erase_def filter_empty_conv
        split: option.split)
  moreover have "\<not> mentions p ch" if "findChannel n ?s = Some ch" for n ch
    using that by (auto simp: chan mentions_def std_set_simps split: option.splits if_splits)
  ultimately show ?thesis
    using ok dead c assms(2) removeClient_result [OF state_ok_dir [OF assms(1)], of fd]
    by (simp add: removed_deref)
qed

subsection \<open>Destruction\<close>

lemma delete_all:
  "distinct ps \<Longrightarrow> (\<And>p. p \<in> set ps \<Longrightarrow> deref s p \<noteq> None) \<Longrightarrow>
    for_each delete_ptr ps s = Some (s\<lparr>heap := filter (\<lambda>(q, c). q \<notin> set ps) (heap s)\<rparr>)"
proof (induction ps arbitrary: s)
  case Nil
  then show ?case by simp
next
  case (Cons p ps)
  let ?s = "s\<lparr>heap := map_erase p (heap s)\<rparr>"
  have live: "deref ?s q \<noteq> None" if "q \<in> set ps" for q
    using Cons.prems(2) [of q] Cons.prems(1) that by (auto simp: map_find_simps deref_def)
  have "delete_ptr p s = Some ?s"
    using Cons.prems(2) [of p] by (simp add: delete_ptr_def)
  moreover have "for_each delete_ptr ps ?s = Some (?s\<lparr>heap := filter (\<lambda>(q, c). q \<notin> set ps) (heap ?s)\<rparr>)"
    by (rule Cons.IH) (use Cons.prems(1) live in auto)
  ultimately show ?case
    by (simp add: map_erase_def case_prod_beta conj_commute)
qed

lemma distinct_client_ptrs:
  assumes "dir_ok s"
  shows "distinct (map snd (clientsByFd s))"
proof -
  have ok: "map_ok (clientsByFd s)" using dir_ok_maps [OF assms] by (simp add: maps_ok_def)
  have "inj_on snd (set (clientsByFd s))"
  proof (rule inj_onI)
    fix x y assume x: "x \<in> set (clientsByFd s)" and y: "y \<in> set (clientsByFd s)" and eq: "snd x = snd y"
    obtain f p g q where xy: "x = (f, p)" "y = (g, q)" by (cases x; cases y)
    with x y ok have "map_find (clientsByFd s) f = Some p" "map_find (clientsByFd s) g = Some q"
      by (simp_all add: map_find_set)
    with fd_fwd [OF assms, of f p] fd_fwd [OF assms, of g q] eq xy have "f = g" by auto
    with xy eq show "x = y" by simp
  qed
  then show ?thesis
    using map_ok_distinct [OF ok] by (simp add: distinct_map)
qed

lemma destroy_ServerState_result:
  assumes "state_ok s"
  shows "destroy_ServerState s = Some (ServerState (password s))"
proof -
  have ok: "dir_ok s" using assms by (rule state_ok_dir)
  let ?s = "s\<lparr>clientsByNick := [], channels := []\<rparr>" and ?ps = "map snd (clientsByFd s)"
  have live: "deref ?s p \<noteq> None" if "p \<in> set ?ps" for p
    using that fd_fwd [OF ok] dir_ok_maps [OF ok] by (force simp: maps_ok_def map_find_set)
  have all: "p \<in> set ?ps" if "(p, c) \<in> set (heap s)" for p c
  proof -
    from that have "deref s p = Some c"
      using dir_ok_maps [OF ok] by (simp add: maps_ok_def map_find_set deref_def)
    then have "(socketFd c, p) \<in> set (clientsByFd s)"
      using fd_bwd [OF ok] dir_ok_maps [OF ok] by (simp add: maps_ok_def map_find_set)
    then show ?thesis by force
  qed
  have "for_each (\<lambda>(fd, p) s. delete_ptr p s) (clientsByFd s) ?s = for_each delete_ptr ?ps ?s"
    by (simp add: for_each_map comp_def case_prod_beta')
  also have "\<dots> = Some (?s\<lparr>heap := filter (\<lambda>(q, c). q \<notin> set ?ps) (heap s)\<rparr>)"
    using delete_all [OF distinct_client_ptrs [OF ok], of ?s] live by simp
  also have "filter (\<lambda>(q, c). q \<notin> set ?ps) (heap s) = []"
    using all by (auto simp: filter_empty_conv)
  finally show ?thesis
    by (simp add: destroy_ServerState_def ServerState_def)
qed

text \<open>
  Shutdown neither leaks nor deletes twice. The destructor of a well-formed state deletes
  every client object exactly once and leaves no live client behind.
\<close>

theorem destroy_frees_all:
  assumes "state_ok s"
  shows "destroy_ServerState s = Some (ServerState (password s))"
  using assms by (rule destroy_ServerState_result)

subsection \<open>A concrete state\<close>

text \<open>Two connected clients, for the witnesses below.\<close>

definition two_clients :: server_state where
  "two_clients = snd (addNewClient (Some 2) 5 (snd (addNewClient (Some 1) 4 (ServerState ''pw''))))"

lemma two_clients_eq:
  "two_clients = \<lparr>password = ''pw'', clientsByFd = [(4, 1), (5, 2)], clientsByNick = [], channels = [],
     heap = [(1, Client 4), (2, Client 5)]\<rparr>"
  by (simp add: two_clients_def addNewClient_def ServerState_def store_def map_insert_def map_find_def)

lemma state_ok_two_clients: "state_ok two_clients"
proof -
  have "state_ok (snd (addNewClient (Some 1) 4 (ServerState ''pw'')))"
    by (rule state_ok_addNewClient [OF state_ok_init])
      (simp add: fresh_def ServerState_def deref_def map_find_def)
  then show ?thesis
    unfolding two_clients_def
    by (rule state_ok_addNewClient)
      (simp add: fresh_def addNewClient_def ServerState_def deref_def store_def map_insert_def
        map_find_def)
qed

theorem removeClient_complete_witness:
  "\<exists>s'. removeClient 4 two_clients = Some (True, s') \<and> deref s' 1 = None
    \<and> deref s' 2 = Some (Client 5) \<and> state_ok s'"
proof -
  have "map_find (clientsByFd two_clients) 4 = Some 1" "deref two_clients 2 = Some (Client 5)"
    by (simp_all add: two_clients_eq map_find_def deref_def)
  with removeClient_complete [OF state_ok_two_clients, of 4 1] show ?thesis by auto
qed

theorem destroy_frees_all_witness:
  "destroy_ServerState two_clients = Some (ServerState ''pw'')"
  using destroy_frees_all [OF state_ok_two_clients] by (simp add: two_clients_eq)

lemma updateNickname_effect:
  assumes ok: "state_ok s" and c: "deref s p = Some c" and nick: "isValidNick nick"
  shows "\<exists>b s'. updateNickname p nick s = Some (b, s') \<and> state_ok s'
    \<and> b = (getClientByNick nick s \<in> {NULL, p})
    \<and> (if b then deref s' p = Some (c\<lparr>nickname := nick\<rparr>)
         \<and> (\<forall>n. getClientByNick n s' =
             (if n = nick then p else if n = nickname c then NULL else getClientByNick n s))
         \<and> (\<forall>q. q \<noteq> p \<longrightarrow> deref s' q = deref s q)
       else s' = s)"
proof -
  note d = state_ok_dir [OF ok]
  have p: "p \<noteq> NULL" using dirs.live_not_null [OF d c] .
  have ne: "nick \<noteq> []" using isValidNick_chars [OF nick] by simp
  have Nil: "map_find (clientsByNick s) [] = None"
    using dirs.by_nick_Nil [OF d] getClientByNick_NULL [OF d] by simp
  consider (same) "nick = nickname c" | (free) "nick \<noteq> nickname c" "getClientByNick nick s = NULL"
    | (taken) "nick \<noteq> nickname c" "getClientByNick nick s \<noteq> NULL" by blast
  then show ?thesis
  proof cases
    case same
    then have "getClientByNick nick s = p"
      using dirs.live_by_nick [OF d c] ne by simp
    with same ok c ne show ?thesis
      by (intro exI [of _ True] exI [of _ s]) (auto simp: updateNickname_result [OF d c]
          getClientByNick_def)
  next
    case free
    then have none: "map_find (clientsByNick s) nick = None" using getClientByNick_NULL [OF d] by simp
    show ?thesis
      using free ne state_ok_rename [OF ok c nick none] Nil
      by (auto simp: updateNickname_result [OF d c] setNickByServerState_def getClientByNick_def
          map_find_simps)
  next
    case taken
    then have "getClientByNick nick s \<noteq> p"
      using dirs.by_nick_live [OF d, of nick] c by auto
    with taken ok show ?thesis
      by (intro exI [of _ False] exI [of _ s]) (simp add: updateNickname_result [OF d c])
  qed
qed

text \<open>
  C36. Nicknames stay unique and the nickname dictionary exact. A live client of a
  well-formed state that asks for a valid name other than its own gets it exactly when no client has
  it; then the name is looked up to this client, its old name is released, every other
  client and lookup is unchanged; a refused rename changes nothing; and the state stays well
  formed.
\<close>

theorem updateNickname_unique:
  assumes ok: "state_ok s" and c: "deref s p = Some c" and nick: "isValidNick nick" "nick \<noteq> nickname c"
  shows "\<exists>b s'. updateNickname p nick s = Some (b, s') \<and> state_ok s'
    \<and> b = (getClientByNick nick s = NULL)
    \<and> (if b then deref s' p = Some (c\<lparr>nickname := nick\<rparr>)
         \<and> (\<forall>n. getClientByNick n s' =
             (if n = nick then p else if n = nickname c then NULL else getClientByNick n s))
         \<and> (\<forall>q. q \<noteq> p \<longrightarrow> deref s' q = deref s q)
       else s' = s)"
proof -
  note d = state_ok_dir [OF ok]
  have "getClientByNick nick s \<noteq> p"
    using dirs.by_nick_live [OF d, of nick] dirs.live_not_null [OF d c] c nick(2) by force
  with updateNickname_effect [OF ok c nick(1)] show ?thesis by simp
qed

theorem updateNickname_unique_witness:
  "\<exists>s'. updateNickname 1 ''ada'' two_clients = Some (True, s') \<and> getClientByNick ''ada'' s' = 1"
proof -
  have c: "deref two_clients 1 = Some (Client 4)" and n: "getClientByNick ''ada'' two_clients = NULL"
    by (simp_all add: two_clients_eq deref_def map_find_def getClientByNick_def)
  have v: "isValidNick ''ada''" "''ada'' \<noteq> nickname (Client 4)"
    by (simp_all add: isValidNick_def isalpha_def isupper_def islower_def byte_def Client_def)
  from updateNickname_unique [OF state_ok_two_clients c v] n show ?thesis by auto
qed

subsection \<open>Repeated channel writes\<close>

lemma putChannel_twice:
  "maps_ok s \<Longrightarrow> putChannel n ch (putChannel n ch' s) = putChannel n ch s"
  by (simp add: putChannel_def maps_ok_def smap.put_put)

lemma putChannel_same:
  "maps_ok s \<Longrightarrow> findChannel n s = Some ch \<Longrightarrow> putChannel n ch s = s"
  by (simp add: putChannel_def maps_ok_def findChannel_def smap.put_same)

subsection \<open>A state with two registered clients and a channel\<close>

text \<open>
  The sample the witnesses of the handlers use: \<open>ada\<close> (descriptor 4, address 1) and \<open>bob\<close>
  (descriptor 5, address 2) are registered, \<open>ada\<close> is the operator and only member of \<open>#lobby\<close>.
\<close>

definition sample_client :: "int \<Rightarrow> string \<Rightarrow> client" where
  "sample_client fd n = \<lparr>socketFd = fd, username = n, nickname = n, realname = n,
     passAccepted = True, registered = True\<rparr>"

definition sample_channel :: channel where
  "sample_channel = (Channel ''#lobby'')\<lparr>members := [1], operators := [1]\<rparr>"

definition sample_state :: server_state where
  "sample_state = \<lparr>password = ''pw'', clientsByFd = [(4, 1), (5, 2)],
     clientsByNick = [(''ada'', 1), (''bob'', 2)], channels = [(''#lobby'', sample_channel)],
     heap = [(1, sample_client 4 ''ada''), (2, sample_client 5 ''bob'')]\<rparr>"

lemma sample_nicks: "isValidNick ''ada''" "isValidNick ''bob''" "isValidChannelName ''#lobby''"
  by (simp_all add: isValidNick_def isalpha_def isupper_def islower_def byte_def isValidChannelName_def
      isspace_def iscntrl_def)

lemma sample_client_ok: "client_ok (sample_client fd ''ada'')" "client_ok (sample_client fd ''bob'')"
  by (simp_all add: client_ok_def sample_client_def complete_def sample_nicks lf_simps)

lemma sample_lookups [simp]:
  "deref sample_state p = (if p = 1 then Some (sample_client 4 ''ada'')
     else if p = 2 then Some (sample_client 5 ''bob'') else None)"
  "map_find (clientsByFd sample_state) fd = (if fd = 4 then Some 1 else if fd = 5 then Some 2 else None)"
  "map_find (clientsByNick sample_state) n =
     (if n = ''ada'' then Some 1 else if n = ''bob'' then Some 2 else None)"
  "findChannel c sample_state = (if c = ''#lobby'' then Some sample_channel else None)"
  by (simp_all add: sample_state_def deref_def map_find_def findChannel_def)

lemma state_ok_sample: "state_ok sample_state"
proof -
  have "maps_ok sample_state"
    by (simp add: maps_ok_def map_ok_def sample_state_def)
  then have "dir_ok sample_state"
    by (rule dir_okI) (auto simp: sample_client_def [of 4] sample_client_def [of 5]
        sample_client_ok [unfolded sample_client_def] split: if_splits)
  moreover have "channel_ok sample_channel"
    using channel_ok_new [of "''#lobby''"]
    by (auto simp: sample_channel_def channel_ok_def Channel_def set_ok_def)
  then have "chan_ok sample_state"
    by (auto simp: chan_ok_def entry_ok_def sample_nicks sample_channel_def Channel_def
        sample_client_def split: if_splits)
  ultimately show ?thesis by (simp add: state_ok_def)
qed

lemma sample_fd [simp]: "getClientByFd 4 sample_state = 1" "getClientByFd 5 sample_state = 2"
  by (simp_all add: getClientByFd_def)

lemma sample_nick [simp]:
  "getClientByNick ''ada'' sample_state = 1" "getClientByNick ''bob'' sample_state = 2"
  by (simp_all add: getClientByNick_def)

text \<open>The same server after \<open>bob\<close> has joined \<open>#lobby\<close>.\<close>

definition shared_channel :: channel where
  "shared_channel = sample_channel\<lparr>members := [1, 2]\<rparr>"

definition shared_state :: server_state where
  "shared_state = putChannel ''#lobby'' shared_channel sample_state"

lemma shared_channel_simps [simp]:
  "members shared_channel = [1, 2]" "operators shared_channel = [1]" "invited shared_channel = []"
  "chTopic shared_channel = ''''" "chModes shared_channel = ChannelModes"
  "chName shared_channel = ''#lobby''"
  by (simp_all add: shared_channel_def sample_channel_def Channel_def)

lemma shared_lookups [simp]:
  "deref shared_state p = deref sample_state p"
  "findChannel n shared_state = (if n = ''#lobby'' then Some shared_channel else None)"
  "getClientByFd fd shared_state = getClientByFd fd sample_state"
  "getClientByNick n shared_state = getClientByNick n sample_state"
  by (simp_all add: shared_state_def getClientByFd_def getClientByNick_def)

lemma state_ok_shared: "state_ok shared_state"
proof -
  have "entry_ok sample_state ''#lobby'' shared_channel"
    using modes_ok_intros(1)
    by (auto simp: entry_ok_def channel_ok_def set_ok_def sample_nicks sample_client_def lf_simps)
  then show ?thesis
    unfolding shared_state_def by (intro state_ok_putChannel [OF state_ok_sample]) simp_all
qed

end
