(* ===== verification/Command_Base.thy ===== *)
theory Command_Base
  imports Server_State
begin

section \<open>What every command handler promises\<close>

text \<open>
  The broadcast helper of \<open>CommandDispatcher.cpp\<close> and the contract of a command handler, stated
  once as the locale \<open>command_handler\<close> and interpreted for every handler where it is defined.
\<close>

type_synonym handler_fun = "int \<Rightarrow> message \<Rightarrow> server_state \<Rightarrow> (command_result \<times> server_state) option"

subsection \<open>Broadcast\<close>

definition broadcast_one ::
  "server_state \<Rightarrow> string \<Rightarrow> ptr \<Rightarrow> ptr \<Rightarrow> command_result \<Rightarrow> command_result option" where
  "broadcast_one s text except it result =
     (if it \<noteq> NULL \<and> it \<noteq> except
      then do { c \<leftarrow> deref s it; Some (addReply (getSocketFd c) text result) }
      else Some result)"

definition broadcastToChannel ::
  "command_result \<Rightarrow> channel \<Rightarrow> string \<Rightarrow> ptr \<Rightarrow> server_state \<Rightarrow> command_result option" where
  "broadcastToChannel result ch text except s =
     for_each (broadcast_one s text except) (getMembers ch) result"

definition fd_of :: "server_state \<Rightarrow> ptr \<Rightarrow> int" where
  "fd_of s p = (case deref s p of None \<Rightarrow> -1 | Some c \<Rightarrow> socketFd c)"

definition reply_to :: "string \<Rightarrow> int \<Rightarrow> t_reply" where
  "reply_to text fd = \<lparr>replyFd = fd, replyText = text\<rparr>"

definition addReplies :: "t_reply list \<Rightarrow> command_result \<Rightarrow> command_result" where
  "addReplies ts r = r\<lparr>replies := replies r @ ts\<rparr>"

lemma addReplies_simps [simp]:
  "replies (addReplies ts r) = replies r @ ts" "disconnect (addReplies ts r) = disconnect r"
  by (simp_all add: addReplies_def)

text \<open>
  A broadcast to live members never fails and queues one copy for each member but the excepted
  one, in the order of the member set.
\<close>

lemma broadcast_loop:
  assumes "\<And>p. p \<in> set ps \<Longrightarrow> deref s p \<noteq> None" and "deref s NULL = None"
  shows "for_each (broadcast_one s text ex) ps r
    = Some (addReplies (map (reply_to text \<circ> fd_of s) (filter (\<lambda>p. p \<noteq> ex) ps)) r)"
  using assms
proof (induction ps arbitrary: r)
  case Nil
  then show ?case by (simp add: addReplies_def)
next
  case (Cons p ps)
  then obtain c where c: "deref s p = Some c" by (metis list.set_intros(1) not_None_eq)
  moreover from this Cons.prems have "p \<noteq> NULL" by (metis option.distinct(1))
  ultimately have "broadcast_one s text ex p r
      = Some (if p = ex then r else addReply (fd_of s p) text r)"
    by (simp add: broadcast_one_def fd_of_def getSocketFd_def)
  with Cons show ?case by (simp add: addReplies_def addReply_def reply_to_def)
qed

lemma broadcast_result:
  assumes "dir_ok s" and "\<And>p. p \<in> set (members ch) \<Longrightarrow> deref s p \<noteq> None"
  shows "broadcastToChannel r ch text ex s
    = Some (addReplies (map (reply_to text \<circ> fd_of s) (filter (\<lambda>p. p \<noteq> ex) (members ch))) r)"
  unfolding broadcastToChannel_def getMembers_def using assms dir_ok_null by (intro broadcast_loop) auto

lemma entry_ok_live:
  "entry_ok s n ch \<Longrightarrow> p \<in> set (members ch) \<Longrightarrow> deref s p \<noteq> None"
  by (auto simp: entry_ok_def)

subsection \<open>The contract\<close>

text \<open>
  Replies go to connected clients only and are single lines; the connected descriptors and the
  password are unchanged; the only client object a handler writes is the one of the issuing
  connection, and its registration is never taken back; the result does not ask to disconnect.
\<close>

definition replies_ok :: "server_state \<Rightarrow> command_result \<Rightarrow> bool" where
  "replies_ok s r \<longleftrightarrow>
     list_all (\<lambda>t. getClientByFd (replyFd t) s \<noteq> NULL \<and> one_line (replyText t)) (replies r)"

definition frame :: "int \<Rightarrow> server_state \<Rightarrow> server_state \<Rightarrow> bool" where
  "frame fd s s' \<longleftrightarrow>
     clientsByFd s' = clientsByFd s \<and> password s' = password s
     \<and> (\<forall>p. p \<noteq> getClientByFd fd s \<longrightarrow> deref s' p = deref s p)
     \<and> (\<forall>p c. deref s p = Some c \<longrightarrow> (\<exists>c'. deref s' p = Some c' \<and> socketFd c' = socketFd c
          \<and> (registered c \<longrightarrow> registered c' \<and> username c' = username c)))"

definition acc_ok :: "int \<Rightarrow> server_state \<Rightarrow> command_result \<times> server_state \<Rightarrow> bool" where
  "acc_ok fd s a \<longleftrightarrow>
     state_ok (snd a) \<and> frame fd s (snd a) \<and> replies_ok s (fst a) \<and> \<not> disconnect (fst a)"

definition outcome_ok :: "int \<Rightarrow> server_state \<Rightarrow> (command_result \<times> server_state) option \<Rightarrow> bool" where
  "outcome_ok fd s out \<longleftrightarrow> (\<exists>a. out = Some a \<and> acc_ok fd s a)"

lemma frame_refl [intro, simp]: "frame fd s s"
  by (simp add: frame_def)

lemma frame_fd: "frame fd s s' \<Longrightarrow> getClientByFd f s' = getClientByFd f s"
  by (simp add: frame_def getClientByFd_def)

lemma frame_trans:
  assumes "frame fd s s'" "frame fd s' s''"
  shows "frame fd s s''"
  using assms frame_fd [OF assms(1)] unfolding frame_def by metis

lemma frame_live: "frame fd s s' \<Longrightarrow> deref s p \<noteq> None \<Longrightarrow> deref s' p \<noteq> None"
  unfolding frame_def by blast

lemma frame_fd_of: "frame fd s s' \<Longrightarrow> deref s p \<noteq> None \<Longrightarrow> fd_of s' p = fd_of s p"
  unfolding frame_def fd_of_def by (metis (no_types, lifting) not_None_eq option.simps(5))

lemma frame_putChannel [intro, simp]: "frame fd s (putChannel n ch s)"
  by (simp add: frame_def)

lemma frame_removeChannelIfEmpty [intro, simp]: "frame fd s (snd (removeChannelIfEmpty n s))"
  using deref_cong [of "snd (removeChannelIfEmpty n s)" s] by (simp add: frame_def)

lemma frame_channels:
  "clientsByFd s' = clientsByFd s \<Longrightarrow> password s' = password s \<Longrightarrow> heap s' = heap s \<Longrightarrow> frame fd s s'"
  by (simp add: frame_def deref_def)

lemma frame_store:
  assumes "dir_ok s" and "deref s p = Some c" and "p = getClientByFd fd s"
    and "socketFd c' = socketFd c" and "registered c \<longrightarrow> registered c' \<and> username c' = username c"
  shows "frame fd s (store p c' (s\<lparr>clientsByNick := m\<rparr>))"
  using assms by (auto simp: frame_def)

lemma frame_store0:
  "dir_ok s \<Longrightarrow> deref s p = Some c \<Longrightarrow> p = getClientByFd fd s \<Longrightarrow> socketFd c' = socketFd c \<Longrightarrow>
    registered c \<longrightarrow> registered c' \<and> username c' = username c \<Longrightarrow> frame fd s (store p c' s)"
  using frame_store [of s p c fd c' "clientsByNick s"] by simp

lemma replies_ok_Nil [simp]: "replies_ok s CommandResult"
  by (simp add: replies_ok_def)

lemma replies_ok_add:
  "replies_ok s r \<Longrightarrow> getClientByFd fd s \<noteq> NULL \<Longrightarrow> one_line t \<Longrightarrow> replies_ok s (addReply fd t r)"
  by (simp add: replies_ok_def)

lemma replies_ok_frame: "frame fd s s' \<Longrightarrow> replies_ok s' r = replies_ok s r"
  by (simp add: replies_ok_def frame_fd)

lemma replies_ok_broadcast:
  assumes "dir_ok s" "replies_ok s r" "one_line t" "\<And>p. p \<in> set ps \<Longrightarrow> deref s p \<noteq> None"
  shows "replies_ok s (addReplies (map (reply_to t \<circ> fd_of s) ps) r)"
proof -
  have "getClientByFd (fd_of s p) s \<noteq> NULL" if "p \<in> set ps" for p
  proof -
    from assms(4) [OF that] obtain c where c: "deref s p = Some c" by blast
    then show ?thesis
      using dirs.live_by_fd [OF assms(1) c] dirs.live_not_null [OF assms(1) c] by (simp add: fd_of_def)
  qed
  with assms(2,3) show ?thesis
    by (auto simp: replies_ok_def list_all_iff reply_to_def)
qed

lemma acc_ok_init: "state_ok s \<Longrightarrow> acc_ok fd s (CommandResult, s)"
  by (simp add: acc_ok_def)

lemma acc_ok_reply:
  "acc_ok fd s (r, s') \<Longrightarrow> getClientByFd f s \<noteq> NULL \<Longrightarrow> one_line t \<Longrightarrow> acc_ok fd s (addReply f t r, s')"
  by (simp add: acc_ok_def replies_ok_add)

lemma outcome_ok_Some [simp]: "outcome_ok fd s (Some a) = acc_ok fd s a"
  by (simp add: outcome_ok_def)

lemma acc_ok_numeric:
  "acc_ok fd s (r, s') \<Longrightarrow> getClientByFd f s \<noteq> NULL \<Longrightarrow> client_ok c \<Longrightarrow> code \<in> set known_codes \<Longrightarrow>
    lf_free msg \<Longrightarrow> acc_ok fd s (addReply f (numeric c code msg) r, s')"
  by (simp add: acc_ok_reply numeric_line)

lemma param_lf_free: "message_lf_free m \<Longrightarrow> i < length (params m) \<Longrightarrow> lf_free (params m ! i)"
  by (simp add: message_lf_free_def list_all_length)

text \<open>
  \<open>pre\<close> is what a handler assumes of the issuing connection: nothing, or (the commands that the
  dispatcher gates) that its client, if there is one, is registered.
\<close>

definition registered_at :: "int \<Rightarrow> server_state \<Rightarrow> bool" where
  "registered_at fd s \<longleftrightarrow>
     (let p = getClientByFd fd s in
      p = NULL \<or> (case deref s p of None \<Rightarrow> False | Some c \<Rightarrow> isRegistered c))"

locale command_handler =
  fixes h :: handler_fun
    and pre :: "int \<Rightarrow> server_state \<Rightarrow> bool"
  assumes contract: "state_ok s \<Longrightarrow> message_lf_free m \<Longrightarrow> pre fd s \<Longrightarrow> outcome_ok fd s (h fd m s)"
begin

lemma returns:
  assumes "state_ok s" "message_lf_free m" "pre fd s"
  obtains r s' where "h fd m s = Some (r, s')" "state_ok s'" "frame fd s s'" "replies_ok s r"
    "\<not> disconnect r"
  using contract [OF assms] by (auto simp: outcome_ok_def acc_ok_def)

lemma connected_same:
  assumes "state_ok s" "message_lf_free m" "pre fd s" "h fd m s = Some (r, s')"
  shows "getClientByFd f s' = getClientByFd f s"
  using returns [OF assms(1-3)] assms(4) frame_fd by (metis option.inject prod.inject)

end

text \<open>A handler without precondition can be run on any sequence of commands.\<close>

locale total_handler = command_handler h "\<lambda>fd s. True"
  for h :: handler_fun
begin

lemma run_sequence:
  assumes "state_ok s" and "list_all (\<lambda>(fd, m). message_lf_free m) cmds"
  shows "\<exists>s'. for_each (\<lambda>(fd, m) s. map_option snd (h fd m s)) cmds s = Some s'
    \<and> state_ok s' \<and> clientsByFd s' = clientsByFd s \<and> password s' = password s"
proof -
  let ?f = "\<lambda>(fd, m) s. map_option snd (h fd m s)"
  let ?I = "\<lambda>t. state_ok t \<and> clientsByFd t = clientsByFd s \<and> password t = password s"
  have step: "\<exists>t'. ?f x t = Some t' \<and> ?I t'" if "x \<in> set cmds" "?I t" for x t
  proof -
    obtain fd m where x: "x = (fd, m)" by (cases x)
    with that assms(2) have "message_lf_free m" by (auto simp: list_all_iff)
    with that obtain r t' where t': "h fd m t = Some (r, t')" "state_ok t'" "frame fd t t'"
      using returns [of t m fd] by blast
    with that x show ?thesis by (simp add: frame_def)
  qed
  show ?thesis
    by (rule for_each_rule [where I = ?I]) (use step assms(1) in blast)+
qed

end

end
