(* ===== verification/Handlers_Registration.thy ===== *)
theory Handlers_Registration
  imports Command_Base
begin

section \<open>PASS, NICK, USER, CAP, PING and unknown commands\<close>

text \<open>
  The handlers a connection may use before it has registered, and \<open>PING\<close>: \<open>handlePass.cpp\<close>,
  \<open>handleNick.cpp\<close>, \<open>handleUser.cpp\<close>, \<open>handleCap.cpp\<close>, \<open>handlePing.cpp\<close> and
  \<open>_handleInvalidCommand\<close>. The first three end in the same attempt to register.
\<close>

subsection \<open>The handlers\<close>

text \<open>\<open>if (client->tryRegister ()) { ... }\<close>, with the four welcome numerics.\<close>

definition welcome_replies :: "int \<Rightarrow> client \<Rightarrow> command_result \<Rightarrow> command_result" where
  "welcome_replies fd c result =
     addReply fd (numeric c ''004'' '''')
       (addReply fd (numeric c ''003'' '''')
         (addReply fd (numeric c ''002'' '''')
           (addReply fd (numeric c ''001'' '''') result)))"

definition register_step ::
  "int \<Rightarrow> ptr \<Rightarrow> command_result \<Rightarrow> server_state \<Rightarrow> (command_result \<times> server_state) option" where
  "register_step fd client result s =
     do {
       c \<leftarrow> deref s client;
       let (ok, c) = tryRegister c;
       let s = store client c s;
       if ok then Some (welcome_replies fd c result, s) else Some (result, s)
     }"

definition handlePass :: handler_fun where
  "handlePass fd msg s =
     (let result = CommandResult; client = getClientByFd fd s in
      if client = NULL then Some (result, s)
      else do {
        c \<leftarrow> deref s client;
        if getParamCount msg < 1 then Some (addReply fd (numeric c ''461'' ''PASS'') result, s)
        else if isRegistered c then Some (addReply fd (numeric c ''462'' '''') result, s)
        else do {
          pass \<leftarrow> getSingleParam msg 0;
          if \<not> isCorrectPassword pass s then Some (addReply fd (numeric c ''464'' '''') result, s)
          else register_step fd client result (store client (acceptPassword c) s)
        }
      })"

definition handleNick :: handler_fun where
  "handleNick fd msg s =
     (let result = CommandResult; client = getClientByFd fd s in
      if client = NULL then Some (result, s)
      else do {
        c \<leftarrow> deref s client;
        if getParamCount msg < 1 then Some (addReply fd (numeric c ''431'' '''') result, s)
        else do {
          nick \<leftarrow> getSingleParam msg 0;
          if \<not> isValidNick nick then Some (addReply fd (numeric c ''432'' nick) result, s)
          else if isNicknameExist nick s
              \<and> (let used = getClientByNick nick s in used \<noteq> NULL \<and> used \<noteq> client)
            then Some (addReply fd (numeric c ''433'' nick) result, s)
          else do {
            (updated, s) \<leftarrow> updateNickname client nick s;
            c \<leftarrow> deref s client;
            if \<not> updated then Some (addReply fd (numeric c ''433'' nick) result, s)
            else register_step fd client result s
          }
        }
      })"

definition handleUser :: handler_fun where
  "handleUser fd msg s =
     (let result = CommandResult; client = getClientByFd fd s in
      if client = NULL then Some (result, s)
      else do {
        c \<leftarrow> deref s client;
        if getParamCount msg < 4 then Some (addReply fd (numeric c ''461'' ''USER'') result, s)
        else if isRegistered c then Some (addReply fd (numeric c ''462'' '''') result, s)
        else do {
          user \<leftarrow> getSingleParam msg 0;
          real \<leftarrow> getSingleParam msg 3;
          register_step fd client result (store client (setRealName real (setUserName user c)) s)
        }
      })"

definition handleCap :: handler_fun where
  "handleCap fd msg s =
     (let result = CommandResult; client = getClientByFd fd s in
      if client = NULL then Some (result, s)
      else if getParamCount msg < 1 then Some (result, s)
      else do {
        subCommand \<leftarrow> getSingleParam msg 0;
        if subCommand = ''LS'' then do {
          c \<leftarrow> deref s client;
          let target = (if getNickName c = '''' then ''*'' else getNickName c);
          Some (addReply fd ('':ircServ CAP '' @ target @ '' LS :'' @ crlf) result, s)
        }
        else if subCommand = ''REQ'' then do {
          requested \<leftarrow> (if getParamCount msg > 1 then getSingleParam msg 1 else Some '''');
          c \<leftarrow> deref s client;
          let target = (if getNickName c = '''' then ''*'' else getNickName c);
          Some (addReply fd ('':ircServ CAP '' @ target @ '' NAK :'' @ requested @ crlf) result, s)
        }
        else Some (result, s)
      })"

definition handlePing :: handler_fun where
  "handlePing fd msg s =
     (let result = CommandResult; client = getClientByFd fd s in
      if client = NULL then Some (result, s)
      else do {
        token \<leftarrow> (if getParams msg = [] then Some ''ircServ'' else getSingleParam msg 0);
        Some (addReply fd (''PONG ircServ :'' @ token @ crlf) result, s)
      })"

definition handleInvalidCommand :: handler_fun where
  "handleInvalidCommand fd msg s =
     (let result = CommandResult; client = getClientByFd fd s in
      if client = NULL then Some (result, s)
      else do {
        c \<leftarrow> deref s client;
        Some (addReply fd (numeric c ''421'' (getCommand msg)) result, s)
      })"

subsection \<open>The contract holds\<close>

lemma welcome_ok:
  "acc_ok fd s (r, s') \<Longrightarrow> getClientByFd fd s \<noteq> NULL \<Longrightarrow> client_ok c \<Longrightarrow> acc_ok fd s (welcome_replies fd c r, s')"
  unfolding welcome_replies_def by (intro acc_ok_numeric) (simp_all add: lf_simps)

text \<open>The shape of the three registering handlers: write the client, then try to register.\<close>

lemma register_step_result:
  "deref s p = Some c \<Longrightarrow>
    register_step fd p r s =
      (let c' = snd (tryRegister c) in
       Some (if \<not> registered c \<and> complete c then welcome_replies fd c' r else r, store p c' s))"
  using tryRegister_result [of c "fst (tryRegister c)" "snd (tryRegister c)"]
  by (auto simp: register_step_def case_prod_beta Let_def)

lemma register_step_ok:
  assumes ok: "state_ok s'" and fr: "frame fd s s'" and c: "deref s' p = Some c"
    and p: "p = getClientByFd fd s" and r: "replies_ok s r" "\<not> disconnect r"
  shows "outcome_ok fd s (register_step fd p r s')"
proof -
  have d: "dir_ok s'" using ok by (rule state_ok_dir)
  have live: "getClientByFd fd s' = p" using p frame_fd [OF fr] by simp
  have pn: "getClientByFd fd s \<noteq> NULL" using dirs.live_not_null [OF d c] p by simp
  let ?c = "snd (tryRegister c)"
  have okc: "client_ok ?c" using live_client_ok [OF d c] by (rule client_ok_tryRegister)
  have fr': "frame fd s' (store p ?c s')"
    using d c live by (intro frame_store0) (auto simp: tryRegister_registered)
  have "state_ok (store p ?c s')"
    using ok c okc by (rule state_ok_store) (auto simp: tryRegister_registered)
  then have "acc_ok fd s (r, store p ?c s')"
    using frame_trans [OF fr fr'] r by (simp add: acc_ok_def)
  then show ?thesis
    using welcome_ok [of fd s r "store p ?c s'" ?c] okc pn
    by (simp add: register_step_result [OF c] Let_def)
qed

lemma handlePass_contract:
  assumes ok: "state_ok s" and m: "message_lf_free m"
  shows "outcome_ok fd s (handlePass fd m s)"
  using ok
proof (cases rule: fd_cases [where fd = fd])
  case absent
  with ok show ?thesis by (simp add: handlePass_def acc_ok_init)
next
  case (present c)
  note d = state_ok_dir [OF ok]
  let ?p = "getClientByFd fd s" and ?c = "acceptPassword c"
  have same: "socketFd ?c = socketFd c" "nickname ?c = nickname c" "registered ?c = registered c"
    "username ?c = username c"
    by (simp_all add: acceptPassword_def)
  have st: "state_ok (store ?p ?c s)" and fr: "frame fd s (store ?p ?c s)"
    using ok d present same by (auto intro!: state_ok_store frame_store0 client_ok_pass)
  have reg: "outcome_ok fd s (register_step fd ?p CommandResult (store ?p ?c s))"
    by (rule register_step_ok [OF st fr]) simp_all
  show ?thesis
    using present(1,2,4) ok reg
    by (auto simp: handlePass_def getParamCount_def getSingleParam_def lf_simps Let_def
        intro!: acc_ok_numeric acc_ok_init)
qed

lemma handleUser_contract:
  assumes ok: "state_ok s" and m: "message_lf_free m"
  shows "outcome_ok fd s (handleUser fd m s)"
  using ok
proof (cases rule: fd_cases [where fd = fd])
  case absent
  with ok show ?thesis by (simp add: handleUser_def acc_ok_init)
next
  case (present c)
  note d = state_ok_dir [OF ok]
  let ?p = "getClientByFd fd s"
  have reg: "outcome_ok fd s (register_step fd ?p CommandResult
      (store ?p (setRealName (params m ! 3) (setUserName (params m ! 0) c)) s))"
    if "\<not> registered c" "4 \<le> length (params m)"
  proof -
    let ?c = "setRealName (params m ! 3) (setUserName (params m ! 0) c)"
    have same: "socketFd ?c = socketFd c" "nickname ?c = nickname c" "registered ?c = registered c"
      by (simp_all add: setRealName_def setUserName_def)
    have "0 < length (params m)" "3 < length (params m)" using that by linarith+
    then have "client_ok ?c"
      using present(4) that param_lf_free [OF m] by (intro client_ok_user) auto
    then have st: "state_ok (store ?p ?c s)" and fr: "frame fd s (store ?p ?c s)"
      using ok d present(1-3) same that by (auto intro!: state_ok_store frame_store0)
    show ?thesis by (rule register_step_ok [OF st fr]) simp_all
  qed
  show ?thesis
    using present(1,2,4) ok reg
    by (auto simp: handleUser_def getParamCount_def getSingleParam_def lf_simps isRegistered_def Let_def
        intro!: acc_ok_numeric acc_ok_init)
qed

lemma handleNick_contract:
  assumes ok: "state_ok s" and m: "message_lf_free m"
  shows "outcome_ok fd s (handleNick fd m s)"
  using ok
proof (cases rule: fd_cases [where fd = fd])
  case absent
  with ok show ?thesis by (simp add: handleNick_def acc_ok_init)
next
  case (present c)
  note d = state_ok_dir [OF ok]
  let ?p = "getClientByFd fd s" and ?n = "params m ! 0"
  show ?thesis
  proof (cases "0 < length (params m) \<and> isValidNick ?n \<and> getClientByNick ?n s \<in> {NULL, ?p}")
    case False
    have ex: "isNicknameExist ?n s \<longleftrightarrow> getClientByNick ?n s \<noteq> NULL"
      using getClientByNick_NULL [OF d, of ?n] by (auto simp: isNicknameExist_def split: option.split)
    from False present(1,2,4) ok param_lf_free [OF m, of 0] show ?thesis
      by (auto simp: handleNick_def getParamCount_def getSingleParam_def lf_simps ex Let_def
          intro!: acc_ok_numeric acc_ok_init)
  next
    case True
    then have n: "isValidNick ?n" and len: "0 < length (params m)" by simp_all
    obtain s1 where s1: "updateNickname ?p ?n s = Some (True, s1)" "state_ok s1"
        "deref s1 ?p = Some (c\<lparr>nickname := ?n\<rparr>)" "\<And>q. q \<noteq> ?p \<Longrightarrow> deref s1 q = deref s q"
      using updateNickname_effect [OF ok present(2) n] True by auto
    have fields: "clientsByFd s1 = clientsByFd s" "password s1 = password s"
      using s1(1) unfolding updateNickname_result [OF d present(2)] by (auto split: if_splits)
    have "deref s1 q = (if q = ?p then Some (c\<lparr>nickname := ?n\<rparr>) else deref s q)" for q
      using s1(3,4) by simp
    then have fr: "frame fd s s1"
      unfolding frame_def using fields present(2) by auto
    have reg: "outcome_ok fd s (register_step fd ?p CommandResult s1)"
      using s1 fr by (intro register_step_ok) auto
    from True len present(1,2) s1 reg show ?thesis
      by (auto simp: handleNick_def getParamCount_def getSingleParam_def Let_def)
  qed
qed

lemma one_line_texts:
  assumes "lf_free t" "lf_free u"
  shows "one_line ('':ircServ CAP '' @ t @ '' LS :'' @ crlf)"
    "one_line ('':ircServ CAP '' @ t @ '' NAK :'' @ u @ crlf)"
    "one_line (''PONG ircServ :'' @ u @ crlf)"
  using assms by (auto intro!: one_line_intros)

lemma handleCap_contract:
  assumes ok: "state_ok s" and m: "message_lf_free m"
  shows "outcome_ok fd s (handleCap fd m s)"
  using ok
proof (cases rule: fd_cases [where fd = fd])
  case absent
  with ok show ?thesis by (simp add: handleCap_def acc_ok_init)
next
  case (present c)
  let ?t = "if nickname c = '''' then ''*'' else nickname c"
  have t: "lf_free ?t" using client_ok_nick_lf_free [OF present(4)] by (simp add: lf_simps)
  have "lf_free (if 1 < length (params m) then params m ! 1 else '''')"
    using param_lf_free [OF m, of 1] by (simp add: lf_simps)
  note lines = one_line_texts [OF t this]
  have "acc_ok fd s (addReply fd ('':ircServ CAP '' @ ?t @ '' LS :'' @ crlf) CommandResult, s)"
    using acc_ok_reply [OF acc_ok_init [OF ok] present(1) lines(1)] .
  moreover have "acc_ok fd s (addReply fd ('':ircServ CAP '' @ ?t @ '' NAK :''
      @ (if 1 < length (params m) then params m ! 1 else '''') @ crlf) CommandResult, s)"
    using acc_ok_reply [OF acc_ok_init [OF ok] present(1) lines(2)] .
  ultimately show ?thesis
    using present(1,2) ok
    by (simp add: handleCap_def getParamCount_def getSingleParam_def getNickName_def Let_def
        acc_ok_init split: if_splits)
qed

lemma handlePing_contract:
  assumes ok: "state_ok s" and m: "message_lf_free m"
  shows "outcome_ok fd s (handlePing fd m s)"
proof (cases "getClientByFd fd s = NULL")
  case True
  with ok show ?thesis by (simp add: handlePing_def acc_ok_init)
next
  case False
  have "lf_free (if params m = [] then ''ircServ'' else params m ! 0)"
    using param_lf_free [OF m, of 0] by (simp add: lf_simps)
  from acc_ok_reply [OF acc_ok_init [OF ok] False one_line_texts(3) [OF lf_free_Nil this]] False
  show ?thesis
    by (cases "params m = []") (simp_all add: handlePing_def getSingleParam_def Let_def)
qed

lemma handleInvalidCommand_contract:
  assumes ok: "state_ok s" and m: "message_lf_free m"
  shows "outcome_ok fd s (handleInvalidCommand fd m s)"
  using ok
proof (cases rule: fd_cases [where fd = fd])
  case absent
  with ok show ?thesis by (simp add: handleInvalidCommand_def acc_ok_init)
next
  case (present c)
  from present(1,2,4) ok m show ?thesis
    by (auto simp: handleInvalidCommand_def message_lf_free_def Let_def intro!: acc_ok_numeric acc_ok_init)
qed

interpretation pass_cmd: total_handler handlePass
  by unfold_locales (rule handlePass_contract)

interpretation nick_cmd: total_handler handleNick
  by unfold_locales (rule handleNick_contract)

interpretation user_cmd: total_handler handleUser
  by unfold_locales (rule handleUser_contract)

interpretation cap_cmd: total_handler handleCap
  by unfold_locales (rule handleCap_contract)

interpretation ping_cmd: total_handler handlePing
  by unfold_locales (rule handlePing_contract)

interpretation invalid_cmd: total_handler handleInvalidCommand
  by unfold_locales (rule handleInvalidCommand_contract)

end
