(* ===== verification/Handlers_Join.thy ===== *)
theory Handlers_Join
  imports Command_Base
begin

section \<open>JOIN\<close>

text \<open>
  \<open>handleJoin.cpp\<close>: the checks on a channel's modes, the creation of a channel by its first
  member, and the announcement. \<open>mem\<close> tells for the \<open>i\<close>-th target of the command whether the
  allocation of a new channel succeeds.
\<close>

subsection \<open>The handler\<close>

definition notifyTopic :: "int \<Rightarrow> client \<Rightarrow> channel \<Rightarrow> command_result \<Rightarrow> command_result" where
  "notifyTopic fd client channel result =
     (let channelName = getChannelName channel; topic = getChannelTopic channel;
          reply = (if topic = '''' then numeric client ''331'' channelName
                   else numeric client ''332'' (channelName @ '' :'' @ topic))
      in addReply fd reply result)"

definition member_word :: "server_state \<Rightarrow> channel \<Rightarrow> ptr \<Rightarrow> string \<Rightarrow> string option" where
  "member_word s channel it memberLine =
     (if it = NULL then Some memberLine
      else do {
        c \<leftarrow> deref s it;
        let memberLine = (if memberLine \<noteq> '''' then memberLine @ '' '' else memberLine);
        let memberLine = (if isOperator it channel then memberLine @ ''@'' else memberLine);
        Some (memberLine @ getNickName c)
      })"

definition notifyMembers ::
  "int \<Rightarrow> client \<Rightarrow> channel \<Rightarrow> server_state \<Rightarrow> command_result \<Rightarrow> command_result option" where
  "notifyMembers fd client channel s result =
     do {
       memberLine \<leftarrow> for_each (member_word s channel) (getMembers channel) '''';
       let channelName = getChannelName channel;
       let result = addReply fd (numeric client ''353'' (channelName @ '' :'' @ memberLine)) result;
       Some (addReply fd (numeric client ''366'' channelName) result)
     }"

definition joinSingleChannel ::
  "bool \<Rightarrow> int \<Rightarrow> ptr \<Rightarrow> string \<Rightarrow> string \<Rightarrow> command_result \<times> server_state
    \<Rightarrow> (command_result \<times> server_state) option" where
  "joinSingleChannel mem fd client channel key acc =
     (let (result, s) = acc in do {
        c \<leftarrow> deref s client;
        if \<not> isValidChannelName channel
          then Some (addReply fd (numeric c ''403'' channel) result, s)
        else
          (let isNewChannel = (findChannel channel s = None);
               (target, s) = (if isNewChannel then ensureChannel mem channel s
                              else (findChannel channel s, s))
           in case target of
             None \<Rightarrow> Some (result, s)
           | Some ch \<Rightarrow>
               if isChannelMember client ch then Some (result, s)
               else if \<not> isNewChannel \<and> isInviteOnly (getModes ch) \<and> \<not> isInvitedMember client ch
                 then Some (addReply fd (numeric c ''473'' channel) result, s)
               else if \<not> isNewChannel \<and> isChannelProtected (getModes ch)
                   \<and> \<not> checkChannelPassword key (getModes ch)
                 then Some (addReply fd (numeric c ''475'' channel) result, s)
               else if \<not> isNewChannel \<and> isMemberLimited (getModes ch)
                   \<and> (let limit = scast (getMemberLimit (getModes ch)) :: size_t
                      in getMemberCount ch \<ge> unat limit)
                 then Some (addReply fd (numeric c ''471'' channel) result, s)
               else
                 (let (added, ch) = addMember client ch; s = putChannel channel ch s in
                  if \<not> added then Some (result, s)
                  else
                    (let (op_added, ch) = (if isNewChannel then addOperator client ch else (True, ch));
                         s = putChannel channel ch s in
                     if \<not> op_added then Some (result, s)
                     else do {
                       result \<leftarrow> broadcastToChannel result ch (reply_join c channel) NULL s;
                       let result = notifyTopic fd c ch result;
                       result \<leftarrow> notifyMembers fd c ch s result;
                       Some (result, s)
                     })))
      })"

definition handleJoin :: "(nat \<Rightarrow> bool) \<Rightarrow> handler_fun" where
  "handleJoin mem fd msg s =
     (let result = CommandResult; client = getClientByFd fd s in
      if client = NULL then Some (result, s)
      else do {
        c \<leftarrow> deref s client;
        if getParamCount msg < 1 then Some (addReply fd (numeric c ''461'' ''JOIN'') result, s)
        else do {
          p0 \<leftarrow> getSingleParam msg 0;
          channels \<leftarrow> splitByComma p0;
          keys \<leftarrow> (if hasParam msg 1 then do { p1 \<leftarrow> getSingleParam msg 1; splitByComma p1 }
                  else Some []);
          for_each
            (\<lambda>(i, channel) acc.
               joinSingleChannel (mem i) fd client channel (if i < length keys then keys ! i else '''') acc)
            (enumerate 0 channels) (result, s)
        }
      })"

subsection \<open>The announcement\<close>

fun join_sp :: "string list \<Rightarrow> string" where
  "join_sp [] = ''''"
| "join_sp [w] = w"
| "join_sp (w # v # ws) = w @ '' '' @ join_sp (v # ws)"

definition nick_of :: "server_state \<Rightarrow> ptr \<Rightarrow> string" where
  "nick_of s p = (case deref s p of None \<Rightarrow> '''' | Some c \<Rightarrow> nickname c)"

definition names_line :: "server_state \<Rightarrow> channel \<Rightarrow> string" where
  "names_line s ch =
     join_sp (map (\<lambda>p. (if p \<in> set (operators ch) then ''@'' else '''') @ nick_of s p) (members ch))"

definition join_replies :: "server_state \<Rightarrow> int \<Rightarrow> client \<Rightarrow> channel \<Rightarrow> t_reply list" where
  "join_replies s fd c ch =
     map (reply_to (reply_join c (chName ch)) \<circ> fd_of s) (members ch)
     @ [reply_to (if chTopic ch = '''' then numeric c ''331'' (chName ch)
                  else numeric c ''332'' (chName ch @ '' :'' @ chTopic ch)) fd,
        reply_to (numeric c ''353'' (chName ch @ '' :'' @ names_line s ch)) fd,
        reply_to (numeric c ''366'' (chName ch)) fd]"

lemma join_sp_Cons: "join_sp (w # ws) = w @ concat (map (\<lambda>v. '' '' @ v) ws)"
  by (induction ws arbitrary: w) auto

lemma entry_member:
  assumes "dir_ok s" "entry_ok s n ch" "p \<in> set (members ch)"
  obtains c where "deref s p = Some c" "registered c" "p \<noteq> NULL" "client_ok c" "nickname c \<noteq> ''''"
proof -
  obtain c where c: "deref s p = Some c" "registered c"
    using assms(2,3) by (auto simp: entry_ok_def)
  moreover have "client_ok c" using live_client_ok [OF assms(1) c(1)] .
  moreover from this c have "nickname c \<noteq> ''''" by (simp add: client_ok_def complete_def)
  moreover have "p \<noteq> NULL" using dirs.live_not_null [OF assms(1) c(1)] .
  ultimately show ?thesis using that by blast
qed

lemma member_word_loop:
  assumes "\<And>p. p \<in> set ps \<Longrightarrow> p \<noteq> NULL \<and> deref s p \<noteq> None" and "line \<noteq> ''''"
  shows "for_each (member_word s ch) ps line = Some (line @ concat (map (\<lambda>p.
    '' '' @ (if p \<in> set (operators ch) then ''@'' else '''') @ nick_of s p) ps))"
  using assms
proof (induction ps arbitrary: line)
  case Nil
  then show ?case by simp
next
  case (Cons p ps)
  then obtain c where c: "deref s p = Some c" "p \<noteq> NULL" by (metis list.set_intros(1) not_None_eq)
  then have "member_word s ch p line = Some (line @ '' ''
      @ (if p \<in> set (operators ch) then ''@'' else '''') @ nick_of s p)"
    using Cons.prems(2)
    by (simp add: member_word_def member_tests nick_of_def getNickName_def Let_def)
  with Cons show ?case by simp
qed

lemma member_line:
  assumes "dir_ok s" "entry_ok s n ch"
  shows "for_each (member_word s ch) (members ch) '''' = Some (names_line s ch)"
proof (cases "members ch")
  case Nil
  then show ?thesis by (simp add: names_line_def)
next
  case (Cons p ps)
  then obtain c where c: "deref s p = Some c" "p \<noteq> NULL" "nickname c \<noteq> ''''"
    using entry_member [OF assms, of p] by auto
  have live: "q \<noteq> NULL \<and> deref s q \<noteq> None" if "q \<in> set ps" for q
    using entry_member [OF assms, of q] that Cons by auto
  have "member_word s ch p '''' = Some ((if p \<in> set (operators ch) then ''@'' else '''') @ nick_of s p)"
    using c by (simp add: member_word_def member_tests nick_of_def getNickName_def Let_def)
  with c live show ?thesis
    by (simp add: Cons names_line_def member_word_loop nick_of_def join_sp_Cons comp_def)
qed

lemma announce_result:
  assumes d: "dir_ok s" and e: "entry_ok s n ch"
  shows "do { result \<leftarrow> broadcastToChannel r ch (reply_join c n) NULL s;
      let result = notifyTopic fd c ch result;
      notifyMembers fd c ch s result } = Some (addReplies (join_replies s fd c ch) r)"
proof -
  have n: "chName ch = n" and nn: "\<And>p. p \<in> set (members ch) \<Longrightarrow> p \<noteq> NULL"
    using e entry_member [OF d e] by (auto simp: entry_ok_def)
  have "filter (\<lambda>p. p \<noteq> NULL) (members ch) = members ch"
    using nn by (simp add: filter_id_conv)
  then have "broadcastToChannel r ch (reply_join c n) NULL s
      = Some (addReplies (map (reply_to (reply_join c n) \<circ> fd_of s) (members ch)) r)"
    using broadcast_result [OF d entry_ok_live [OF e]] by simp
  then show ?thesis
    by (simp add: notifyTopic_def notifyMembers_def member_line [OF d e] n join_replies_def
        addReply_def addReplies_def reply_to_def Let_def)
qed

subsection \<open>What joining one channel does\<close>

definition limit_of :: "channel_modes \<Rightarrow> nat" where
  "limit_of m = nat (sint (getMemberLimit m))"

definition join_error :: "ptr \<Rightarrow> string \<Rightarrow> channel \<Rightarrow> string option" where
  "join_error p key ch =
     (if inviteOnly (chModes ch) \<and> p \<notin> set (invited ch) then Some ''473''
      else if channelProtected (chModes ch) \<and> key \<noteq> channelPass (chModes ch) then Some ''475''
      else if memberLimited (chModes ch) \<and> limit_of (chModes ch) \<le> length (members ch) then Some ''471''
      else None)"

definition created :: "string \<Rightarrow> ptr \<Rightarrow> channel" where
  "created n p = (Channel n)\<lparr>members := [p], operators := [p]\<rparr>"

definition joined :: "ptr \<Rightarrow> channel \<Rightarrow> channel" where
  "joined p ch = ch\<lparr>members := set_insert p (members ch)\<rparr>"

definition join_spec ::
  "bool \<Rightarrow> int \<Rightarrow> ptr \<Rightarrow> client \<Rightarrow> string \<Rightarrow> string \<Rightarrow> server_state \<Rightarrow> t_reply list \<times> server_state" where
  "join_spec mem fd p c n key s =
     (if \<not> isValidChannelName n then ([reply_to (numeric c ''403'' n) fd], s)
      else
        (case findChannel n s of
           None \<Rightarrow>
             if mem then
               (let s' = putChannel n (created n p) s in (join_replies s' fd c (created n p), s'))
             else ([], s)
         | Some ch \<Rightarrow>
             if p \<in> set (members ch) then ([], s)
             else
               (case join_error p key ch of
                  Some code \<Rightarrow> ([reply_to (numeric c code n) fd], s)
                | None \<Rightarrow>
                    (let s' = putChannel n (joined p ch) s
                     in (join_replies s' fd c (joined p ch), s')))))"

lemma limit_conversion:
  assumes "0 <s (w :: 32 word)"
  shows "unat (scast w :: 64 word) = nat (sint w)"
proof -
  have "0 < sint w" using assms by (simp add: word_sless_alt)
  moreover have "sint w < 2 ^ 31" using sint_lt [of w] by simp
  ultimately have "sint w mod 2 ^ 64 = sint w" by simp
  then have "uint (scast w :: 64 word) = sint w"
    unfolding scast_eq uint_word_of_int by simp
  then show ?thesis by (simp only: unat_eq_nat_uint)
qed

lemma entry_ok_joined:
  assumes "entry_ok s n ch" "deref s p = Some c" "registered c"
  shows "entry_ok s n (joined p ch)"
proof -
  have "channel_ok ch" using assms(1) by (simp add: entry_ok_def)
  then have "channel_ok (joined p ch)"
    by (auto simp: channel_ok_def joined_def std_set_simps intro: ok_intro)
  with assms show ?thesis
    by (auto simp: entry_ok_def joined_def std_set_simps)
qed

lemma entry_ok_created:
  assumes "isValidChannelName n" "deref s p = Some c" "registered c"
  shows "entry_ok s n (created n p)"
  using assms channel_ok_new [of n]
  by (auto simp: entry_ok_def created_def Channel_def channel_ok_def set_ok_def)

lemma joinSingleChannel_result:
  assumes ok: "state_ok s" and c: "deref s p = Some c" "registered c"
  shows "joinSingleChannel mem fd p n key (r, s)
    = Some (addReplies (fst (join_spec mem fd p c n key s)) r, snd (join_spec mem fd p c n key s))"
proof -
  note d = state_ok_dir [OF ok]
  note m = dir_ok_maps [OF d]
  have no_reply: "addReplies [] r = r" for r by (simp add: addReplies_def)
  have one_reply: "addReplies [reply_to t fd] r = addReply fd t r" for t r
    by (simp add: addReplies_def addReply_def reply_to_def)
  show ?thesis
  proof (cases "isValidChannelName n")
    case False
    with c show ?thesis by (simp add: joinSingleChannel_def join_spec_def one_reply)
  next
    case valid: True
    show ?thesis
    proof (cases "findChannel n s")
      case None
      show ?thesis
      proof (cases mem)
        case False
        with None c valid show ?thesis
          by (simp add: joinSingleChannel_def join_spec_def ensureChannel_result no_reply)
      next
        case True
        let ?s = "putChannel n (created n p) s"
        have e: "entry_ok ?s n (created n p)" using entry_ok_created [OF valid c] by simp
        have "joinSingleChannel mem fd p n key (r, s) =
          Option.bind (do { result \<leftarrow> broadcastToChannel r (created n p) (reply_join c n) NULL ?s;
            let result = notifyTopic fd c (created n p) result;
            notifyMembers fd c (created n p) ?s result }) (\<lambda>result. Some (result, ?s))"
          using None True c valid m
          by (simp add: joinSingleChannel_def ensureChannel_result member_tests add_results
              Channel_def created_def putChannel_twice maps_ok_putChannel Let_def)
        with announce_result [OF dir_ok_putChannel [OF d] e] None True valid show ?thesis
          by (simp add: join_spec_def Let_def)
      qed
    next
      case (Some ch)
      then have ent: "entry_ok s n ch" using findChannel_entry [OF ok] by blast
      then have mo: "modes_ok (chModes ch)" by (simp add: entry_ok_def channel_ok_def)
      then have lim: "memberLimited (chModes ch) \<Longrightarrow>
          unat (scast (getMemberLimit (chModes ch)) :: size_t) = limit_of (chModes ch)"
        by (simp add: modes_ok_def limit_conversion limit_of_def)
      show ?thesis
      proof (cases "p \<in> set (members ch) \<or> join_error p key ch \<noteq> None")
        case True
        with Some c valid lim show ?thesis
          by (auto simp: joinSingleChannel_def join_spec_def join_error_def member_tests no_reply
              one_reply checkChannelPassword_def getMemberCount_def split: if_splits)
      next
        case False
        let ?s = "putChannel n (joined p ch) s"
        have e: "entry_ok ?s n (joined p ch)" using entry_ok_joined [OF ent c] by simp
        have "joinSingleChannel mem fd p n key (r, s) =
          Option.bind (do { result \<leftarrow> broadcastToChannel r (joined p ch) (reply_join c n) NULL ?s;
            let result = notifyTopic fd c (joined p ch) result;
            notifyMembers fd c (joined p ch) ?s result }) (\<lambda>result. Some (result, ?s))"
          using Some False c valid lim m
          by (auto simp: joinSingleChannel_def join_error_def member_tests add_results joined_def
              checkChannelPassword_def getMemberCount_def putChannel_twice Let_def split: if_splits)
        with announce_result [OF dir_ok_putChannel [OF d] e] Some False valid show ?thesis
          by (simp add: join_spec_def Let_def)
      qed
    qed
  qed
qed

lemma state_ok_join_spec:
  assumes ok: "state_ok s" and c: "deref s p = Some c" "registered c"
  shows "state_ok (snd (join_spec mem fd p c n key s))"
proof -
  have new: "state_ok (putChannel n (created n p) s)" if "isValidChannelName n"
    using state_ok_putChannel [OF ok entry_ok_created [OF that c]] by (simp add: created_def)
  have old: "state_ok (putChannel n (joined p ch) s)" if "findChannel n s = Some ch" for ch
    using state_ok_putChannel [OF ok entry_ok_joined [OF _ c]] findChannel_entry [OF ok that]
    by (simp add: joined_def)
  show ?thesis
    using ok new old by (auto simp: join_spec_def Let_def split: option.split)
qed

lemma frame_join_spec: "frame f s (snd (join_spec mem fd p c n key s))"
  by (auto simp: join_spec_def Let_def split: option.split)

subsection \<open>The contract holds\<close>

lemma names_line_lf_free:
  assumes d: "dir_ok s" and e: "entry_ok s n ch"
  shows "lf_free (names_line s ch)"
proof -
  have "lf_free (nick_of s p)" if p: "p \<in> set (members ch)" for p
  proof -
    obtain c where "deref s p = Some c" "client_ok c"
      by (rule entry_member [OF d e p])
    then show ?thesis using client_ok_nick_lf_free by (simp add: nick_of_def)
  qed
  then have "\<forall>w \<in> (\<lambda>p. (if p \<in> set (operators ch) then ''@'' else '''') @ nick_of s p) ` set (members ch).
      lf_free w"
    by (auto simp: lf_simps)
  moreover have "lf_free (join_sp ws)" if "\<forall>w \<in> set ws. lf_free w" for ws
    using that by (induction ws rule: join_sp.induct) (auto simp: lf_simps)
  ultimately show ?thesis unfolding names_line_def by simp
qed

lemma join_replies_ok:
  assumes ok: "state_ok s" and e: "entry_ok s n ch" and c: "client_ok c"
    and fd: "getClientByFd fd s \<noteq> NULL" and r: "replies_ok s r"
  shows "replies_ok s (addReplies (join_replies s fd c ch) r)"
proof -
  note d = state_ok_dir [OF ok]
  have n: "lf_free n" "chName ch = n" "lf_free (chTopic ch)"
    using e isValidChannelName_lf_free by (auto simp: entry_ok_def channel_ok_def)
  have lines: "one_line (reply_join c n)" "one_line (numeric c ''331'' n)"
      "one_line (numeric c ''332'' (n @ '' :'' @ chTopic ch))"
      "one_line (numeric c ''353'' (n @ '' :'' @ names_line s ch))" "one_line (numeric c ''366'' n)"
    using c n names_line_lf_free [OF d e] reply_lines(1) [OF c c n(1) n(1)]
    by (auto intro!: numeric_line simp: known_codes_def lf_simps)
  have "replies_ok s (addReplies (map (reply_to (reply_join c n) \<circ> fd_of s) (members ch)) r)"
    using lines(1) entry_ok_live [OF e] by (intro replies_ok_broadcast [OF d r]) auto
  with lines fd n(2) show ?thesis
    by (auto simp: replies_ok_def join_replies_def reply_to_def)
qed

lemma join_spec_replies:
  assumes ok: "state_ok s" and c: "deref s p = Some c" "registered c"
    and fd: "getClientByFd fd s \<noteq> NULL" and n: "lf_free n" and r: "replies_ok s r"
  shows "replies_ok s (addReplies (fst (join_spec mem fd p c n key s)) r)"
proof -
  note d = state_ok_dir [OF ok]
  have cok: "client_ok c" using live_client_ok [OF d c(1)] .
  have num: "replies_ok s (addReplies [reply_to (numeric c code n) fd] r)" if "code \<in> set known_codes" for code
    using that fd r n cok numeric_line [of code c n]
    by (simp add: replies_ok_def reply_to_def)
  have err: "code \<in> set known_codes" if "join_error p key ch = Some code" for ch code
    using that by (auto simp: join_error_def known_codes_def split: if_splits)
  have ann: "replies_ok s (addReplies (join_replies (putChannel n ch s) fd c ch) r)"
    if "entry_ok s n ch" "members ch \<noteq> []" for ch
  proof -
    have "frame fd s (putChannel n ch s)" by simp
    note same = replies_ok_frame [OF this]
    show ?thesis
      using join_replies_ok [OF state_ok_putChannel [OF ok that], of n ch c fd r] that cok fd r
      by (simp add: same)
  qed
  have z: "addReplies [] r = r" by (simp add: addReplies_def)
  show ?thesis
  proof (cases "isValidChannelName n")
    case False
    then show ?thesis using num [of "''403''"] by (simp add: join_spec_def known_codes_def)
  next
    case True
    note new = ann [OF entry_ok_created [OF True c]]
    show ?thesis
    proof (cases "findChannel n s")
      case None
      with True new r show ?thesis by (simp add: join_spec_def created_def Let_def z)
    next
      case (Some ch)
      with findChannel_entry [OF ok] have e: "entry_ok s n ch" by blast
      note old = ann [OF entry_ok_joined [OF e c]]
      show ?thesis
        using Some True old r num err
        by (auto simp: join_spec_def joined_def Let_def z split: option.split)
    qed
  qed
qed

lemma joinSingleChannel_acc:
  assumes acc: "acc_ok fd s0 (r, s)" and c: "deref s p = Some c" "registered c"
    and fd: "getClientByFd fd s0 \<noteq> NULL" and n: "lf_free n"
  shows "\<exists>a. joinSingleChannel mem fd p n key (r, s) = Some a \<and> acc_ok fd s0 a
    \<and> deref (snd a) p = Some c"
proof -
  have ok: "state_ok s" and fr: "frame fd s0 s" and r: "replies_ok s0 r" "\<not> disconnect r"
    using acc by (simp_all add: acc_ok_def)
  let ?j = "join_spec mem fd p c n key s"
  have fr': "frame fd s (snd ?j)" by (rule frame_join_spec)
  have "replies_ok s (addReplies (fst ?j) r)"
    using join_spec_replies [OF ok c _ n] fd frame_fd [OF fr] r replies_ok_frame [OF fr] by simp
  then have "acc_ok fd s0 (addReplies (fst ?j) r, snd ?j)"
    using state_ok_join_spec [OF ok c] frame_trans [OF fr fr'] r replies_ok_frame [OF fr]
    by (simp add: acc_ok_def)
  moreover have "heap (snd ?j) = heap s"
    by (auto simp: join_spec_def Let_def split: option.split)
  ultimately show ?thesis
    using joinSingleChannel_result [OF ok c] c(1) by (simp add: deref_def)
qed

definition join_keys :: "message \<Rightarrow> string list" where
  "join_keys m = (if 1 < length (params m) then comma_split (params m ! 1) else [])"

definition join_target ::
  "(nat \<Rightarrow> bool) \<Rightarrow> int \<Rightarrow> ptr \<Rightarrow> message \<Rightarrow> nat \<times> string \<Rightarrow> command_result \<times> server_state
    \<Rightarrow> (command_result \<times> server_state) option" where
  "join_target mem fd p m x =
     joinSingleChannel (mem (fst x)) fd p (snd x)
       (if fst x < length (join_keys m) then join_keys m ! fst x else '''')"

lemma handleJoin_loop:
  assumes "getClientByFd fd s \<noteq> NULL" "deref s (getClientByFd fd s) = Some c" "params m \<noteq> []"
  shows "handleJoin mem fd m s = for_each (join_target mem fd (getClientByFd fd s) m)
    (enumerate 0 (comma_split (params m ! 0))) (CommandResult, s)"
proof -
  have keys: "(if hasParam m 1 then do { p1 \<leftarrow> getSingleParam m 1; splitByComma p1 } else Some [])
      = Some (join_keys m)"
    by (simp add: hasParam_def getSingleParam_def splitByComma_eq join_keys_def)
  show ?thesis
    unfolding handleJoin_def keys using assms
    by (simp add: getParamCount_def getSingleParam_def splitByComma_eq join_target_def [abs_def]
        case_prod_beta' Let_def)
qed

lemma registered_atD:
  assumes "registered_at fd s" "getClientByFd fd s \<noteq> NULL" "deref s (getClientByFd fd s) = Some c"
  shows "registered c"
  using assms by (simp add: registered_at_def isRegistered_def)

lemma handleJoin_contract:
  assumes ok: "state_ok s" and m: "message_lf_free m" and pre: "registered_at fd s"
  shows "outcome_ok fd s (handleJoin mem fd m s)"
  using ok
proof (cases rule: fd_cases [where fd = fd])
  case absent
  with ok show ?thesis by (simp add: handleJoin_def acc_ok_init)
next
  case (present c)
  let ?p = "getClientByFd fd s"
  have reg: "registered c" using registered_atD [OF pre present(1,2)] .
  show ?thesis
  proof (cases "params m = []")
    case True
    with present ok show ?thesis
      by (auto simp: handleJoin_def getParamCount_def lf_simps Let_def intro!: acc_ok_numeric acc_ok_init)
  next
    case False
    then have m0: "lf_free (params m ! 0)" using param_lf_free [OF m, of 0] by simp
    let ?f = "join_target mem fd ?p m"
    let ?I = "\<lambda>a. acc_ok fd s a \<and> deref (snd a) ?p = Some c"
    have step: "\<exists>a'. ?f x a = Some a' \<and> ?I a'"
      if x: "x \<in> set (enumerate 0 (comma_split (params m ! 0)))" and a: "?I a" for x a
    proof -
      have "snd x \<in> set (comma_split (params m ! 0))" using x by (auto simp: in_set_enumerate_eq) (metis nth_mem)
      then have "lf_free (snd x)" using comma_split_lf_free [OF m0] by blast
      with a show ?thesis
        using joinSingleChannel_acc [of fd s "fst a" "snd a" ?p c] reg present(1)
        by (simp add: join_target_def)
    qed
    have "\<exists>a. for_each ?f (enumerate 0 (comma_split (params m ! 0))) (CommandResult, s) = Some a \<and> ?I a"
      by (rule for_each_rule [where I = ?I]) (use step acc_ok_init [OF ok] present(2) in auto)
    then show ?thesis
      by (auto simp: handleJoin_loop [OF present(1,2) False] outcome_ok_def)
  qed
qed

interpretation join_cmd: command_handler "handleJoin mem" registered_at
  by unfold_locales (rule handleJoin_contract)

subsection \<open>Properties of JOIN\<close>

text \<open>
  C30. Joining one channel, on every branch. For a registered client in a well-formed state, the
  code (with its scans, its width-changing limit comparison, its two writes of the channel and
  its announcement loops) never fails and does exactly what \<open>join_spec\<close> says: an invalid name,
  a failed mode check (invite, then key, then limit) or an allocation failure changes nothing;
  an existing member is left alone; otherwise the client becomes a member, and the operator of
  a channel that did not exist, and the JOIN line, the topic and the member list are queued.
\<close>

theorem join_refines_spec:
  assumes "state_ok s" and "deref s p = Some c" and "registered c"
  shows "joinSingleChannel mem fd p n key (r, s)
    = Some (addReplies (fst (join_spec mem fd p c n key s)) r, snd (join_spec mem fd p c n key s))
    \<and> state_ok (snd (join_spec mem fd p c n key s))"
  using joinSingleChannel_result [OF assms] state_ok_join_spec [OF assms] by simp

text \<open>The keys that a command gives for the channel \<open>n\<close>: those at the positions of \<open>n\<close> in its list.\<close>

definition key_at :: "message \<Rightarrow> nat \<Rightarrow> string" where
  "key_at m i = (if i < length (join_keys m) then join_keys m ! i else '''')"

definition keys_for :: "message \<Rightarrow> string \<Rightarrow> string set" where
  "keys_for m n = (if params m = [] then {}
     else {key_at m i |i. i < length (comma_split (params m ! 0)) \<and> comma_split (params m ! 0) ! i = n})"

lemma keys_for_at: "params m \<noteq> [] \<Longrightarrow> (i, n) \<in> set (enumerate 0 (comma_split (params m ! 0))) \<Longrightarrow> key_at m i \<in> keys_for m n"
  by (auto simp: keys_for_def in_set_enumerate_eq)

definition joins_only :: "ptr \<Rightarrow> (string \<Rightarrow> string set) \<Rightarrow> server_state \<Rightarrow> server_state \<Rightarrow> bool" where
  "joins_only p keys s s' \<longleftrightarrow>
     heap s' = heap s \<and>
     (\<forall>n. case findChannel n s of
        None \<Rightarrow> findChannel n s' = None \<or> (findChannel n s' = Some (created n p) \<and> keys n \<noteq> {})
      | Some ch \<Rightarrow> findChannel n s' = Some ch
          \<or> (findChannel n s' = Some (joined p ch) \<and> p \<notin> set (members ch)
              \<and> (\<exists>key \<in> keys n. join_error p key ch = None)))"

lemma joins_only_refl: "joins_only p keys s s"
  by (auto simp: joins_only_def split: option.split)

lemma joins_only_step:
  assumes old: "joins_only p keys s s'" and key: "key \<in> keys n"
  shows "joins_only p keys s (snd (join_spec mem fd p c n key s'))" (is "joins_only p keys s ?t")
  unfolding joins_only_def
proof (intro conjI allI)
  have "heap ?t = heap s'" by (auto simp: join_spec_def Let_def split: option.split)
  with old show "heap ?t = heap s" by (simp add: joins_only_def)
  fix k
  have old_k: "case findChannel k s of
      None \<Rightarrow> findChannel k s' = None \<or> (findChannel k s' = Some (created k p) \<and> keys k \<noteq> {})
    | Some ch \<Rightarrow> findChannel k s' = Some ch
        \<or> (findChannel k s' = Some (joined p ch) \<and> p \<notin> set (members ch) \<and> (\<exists>key \<in> keys k. join_error p key ch = None))"
    using old unfolding joins_only_def by blast
  consider (same) "findChannel k ?t = findChannel k s'"
    | (new) "k = n" "findChannel k s' = None" "findChannel k ?t = Some (created k p)"
    | (more) ch where "k = n" "findChannel k s' = Some ch" "p \<notin> set (members ch)" "join_error p key ch = None"
        "findChannel k ?t = Some (joined p ch)"
  proof -
    have "findChannel k ?t = findChannel k s' \<or>
        (k = n \<and> findChannel n s' = None \<and> findChannel n ?t = Some (created n p)) \<or>
        (k = n \<and> (\<exists>ch. findChannel n s' = Some ch \<and> p \<notin> set (members ch) \<and> join_error p key ch = None
          \<and> findChannel n ?t = Some (joined p ch)))"
      by (auto simp: join_spec_def Let_def split: option.split)
    then show ?thesis by (elim disjE exE conjE) (rule that; simp)+
  qed
  then show "case findChannel k s of
      None \<Rightarrow> findChannel k ?t = None \<or> (findChannel k ?t = Some (created k p) \<and> keys k \<noteq> {})
    | Some ch \<Rightarrow> findChannel k ?t = Some ch
        \<or> (findChannel k ?t = Some (joined p ch) \<and> p \<notin> set (members ch) \<and> (\<exists>key \<in> keys k. join_error p key ch = None))"
  proof cases
    case same
    show ?thesis using old_k unfolding same .
  next
    case new
    then have "keys k \<noteq> {}" "findChannel k s = None"
      using old_k key by (auto simp del: findChannel_simps split: option.splits)
    with new(3) show ?thesis by (simp del: findChannel_simps)
  next
    case (more ch)
    have "p \<in> set (members (created k p))" "p \<in> set (members (joined p ch'))" for ch'
      by (simp_all add: created_def joined_def std_set_simps)
    with more(2,3) old_k have "findChannel k s = Some ch"
      by (auto simp del: findChannel_simps split: option.splits)
    with more(3-5) key show ?thesis unfolding more(1) by (auto simp del: findChannel_simps)
  qed
qed

lemma handleJoin_admission:
  assumes ok: "state_ok s" and live: "getClientByFd fd s = p" "p \<noteq> NULL" and pre: "registered_at fd s"
    and m: "message_lf_free m"
  shows "\<exists>r s'. handleJoin mem fd m s = Some (r, s') \<and> state_ok s' \<and> joins_only p (keys_for m) s s'"
proof -
  obtain c where c: "deref s p = Some c" and cok: "client_ok c"
    using ok by (cases rule: fd_cases [where fd = fd]) (use live in auto)
  have reg: "registered c" using registered_atD [OF pre] live c by simp
  show ?thesis
  proof (cases "params m = []")
    case True
    with c live ok joins_only_refl show ?thesis
      by (auto simp: handleJoin_def getParamCount_def Let_def)
  next
    case False
    let ?I = "\<lambda>a. state_ok (snd a) \<and> joins_only p (keys_for m) s (snd a)"
    have step: "\<exists>a'. join_target mem fd p m x a = Some a' \<and> ?I a'"
      if x: "x \<in> set (enumerate 0 (comma_split (params m ! 0)))" and a: "?I a" for x a
    proof -
      have "deref (snd a) p = Some c" using a c by (simp add: joins_only_def deref_def)
      moreover have "key_at m (fst x) \<in> keys_for m (snd x)" using keys_for_at [OF False] x by (metis prod.collapse)
      moreover have "state_ok (snd a)" "joins_only p (keys_for m) s (snd a)" using a by simp_all
      ultimately show ?thesis
        using joinSingleChannel_result [of "snd a" p c _ _ _ _ "fst a"] reg
          state_ok_join_spec [of "snd a" p c] joins_only_step [of p "keys_for m" s "snd a"]
        by (simp add: join_target_def key_at_def)
    qed
    have "\<exists>a. for_each (join_target mem fd p m) (enumerate 0 (comma_split (params m ! 0)))
        (CommandResult, s) = Some a \<and> ?I a"
      by (rule for_each_rule [where I = ?I]) (use step ok joins_only_refl in auto)
    with False c live show ?thesis by (auto simp: handleJoin_loop)
  qed
qed

text \<open>
  C27. Channel admission. A whole \<open>JOIN\<close> command (any list of targets and keys) of a registered
  client returns normally, and its only effect on an existing channel is to add the issuer as a
  member, which requires that the command names it, that the channel is not invite-only or the issuer
  was invited, that it has no key or the key at a position of its name in the command (or the empty one,
  if there is none) matches, and that it has no limit or fewer members than the limit; a channel that
  did not exist is either not created or is named by the command and has the issuer
  as its only member and operator. No client object is changed.
\<close>

theorem join_admission:
  assumes ok: "state_ok s" and live: "getClientByFd fd s = p" "p \<noteq> NULL" and pre: "registered_at fd s"
    and m: "message_lf_free m"
  shows "\<exists>r s'. handleJoin mem fd m s = Some (r, s') \<and> state_ok s' \<and> joins_only p (keys_for m) s s'"
  using assms by (rule handleJoin_admission)

lemma sample_registered: "registered_at 4 sample_state" "registered_at 5 sample_state"
  by (simp_all add: registered_at_def isRegistered_def sample_client_def)

theorem join_refines_spec_witness:
  "\<exists>a. joinSingleChannel True 5 2 ''#lobby'' '''' (CommandResult, sample_state) = Some a
    \<and> map_option members (findChannel ''#lobby'' (snd a)) = Some [1, 2]"
proof -
  have "deref sample_state 2 = Some (sample_client 5 ''bob'')" "registered (sample_client 5 ''bob'')"
    by (simp_all add: sample_client_def)
  note j = join_refines_spec [OF state_ok_sample this, of True 5 "''#lobby''" "''''" CommandResult]
  have "snd (join_spec True 5 2 (sample_client 5 ''bob'') ''#lobby'' '''' sample_state)
      = putChannel ''#lobby'' (joined 2 sample_channel) sample_state"
    by (simp add: join_spec_def sample_nicks join_error_def sample_channel_def Channel_def
        ChannelModes_def Let_def)
  with j show ?thesis by (simp add: joined_def sample_channel_def)
qed

theorem join_admission_witness:
  "\<exists>r s'. handleJoin (\<lambda>i. True) 5 \<lparr>command = ''JOIN'', params = [''#lobby,#new'']\<rparr> sample_state
      = Some (r, s') \<and> state_ok s'"
proof -
  have "message_lf_free \<lparr>command = ''JOIN'', params = [''#lobby,#new'']\<rparr>"
    by (simp add: message_lf_free_def lf_simps)
  from join_admission [OF state_ok_sample sample_fd(2) _ sample_registered(2) this, of "\<lambda>i. True"]
  show ?thesis by auto
qed

end
