(* ===== verification/Handlers_Channel.thy ===== *)
theory Handlers_Channel
  imports Handlers_Join
begin

section \<open>PRIVMSG, TOPIC and INVITE\<close>

text \<open>
  \<open>handlePrivMsg.cpp\<close>, \<open>handleTopic.cpp\<close> and \<open>handleInvite.cpp\<close>, with the authority each of
  them requires and the exact deliveries and changes it makes.
\<close>

subsection \<open>The handlers\<close>

definition sendPrivMsgToTarget ::
  "int \<Rightarrow> ptr \<Rightarrow> string \<Rightarrow> server_state \<Rightarrow> string \<Rightarrow> command_result \<Rightarrow> command_result option" where
  "sendPrivMsgToTarget fd client msg s target result =
     do {
       c \<leftarrow> deref s client;
       if target = '''' then Some (addReply fd (numeric c ''411'' ''PRIVMSG'') result)
       else if hd target = CHR ''#'' then
         (case findChannel target s of
            None \<Rightarrow> Some (addReply fd (numeric c ''403'' target) result)
          | Some channel \<Rightarrow>
              if \<not> isChannelMember client channel
              then Some (addReply fd (numeric c ''404'' target) result)
              else broadcastToChannel result channel (reply_privMsg c target msg) client s)
       else
         (let targetClient = getClientByNick target s in
          if targetClient = NULL then Some (addReply fd (numeric c ''401'' target) result)
          else do {
            t \<leftarrow> deref s targetClient;
            Some (addReply (getSocketFd t) (reply_privMsg c target msg) result)
          })
     }"

definition handlePrivMsg :: handler_fun where
  "handlePrivMsg fd msg s =
     (let result = CommandResult; client = getClientByFd fd s in
      if client = NULL then Some (result, s)
      else do {
        c \<leftarrow> deref s client;
        if getParamCount msg < 1 then Some (addReply fd (numeric c ''411'' ''PRIVMSG'') result, s)
        else do {
          empty_text \<leftarrow> (if getParamCount msg < 2 then Some True
                        else do { p1 \<leftarrow> getSingleParam msg 1; Some (p1 = '''') });
          if empty_text then Some (addReply fd (numeric c ''412'' '''') result, s)
          else do {
            p0 \<leftarrow> getSingleParam msg 0;
            targets \<leftarrow> splitByComma p0;
            text \<leftarrow> getSingleParam msg 1;
            result \<leftarrow> for_each (sendPrivMsgToTarget fd client text s) targets result;
            Some (result, s)
          }
        }
      })"

definition handleTopic :: handler_fun where
  "handleTopic fd msg s =
     (let result = CommandResult; client = getClientByFd fd s in
      if client = NULL then Some (result, s)
      else do {
        c \<leftarrow> deref s client;
        let param = getParamCount msg;
        if param < 1 then Some (addReply fd (numeric c ''461'' ''TOPIC'') result, s)
        else do {
          channelName \<leftarrow> getSingleParam msg 0;
          (case findChannel channelName s of
             None \<Rightarrow> Some (addReply fd (numeric c ''403'' channelName) result, s)
           | Some channel \<Rightarrow>
               if \<not> isChannelMember client channel
               then Some (addReply fd (numeric c ''442'' channelName) result, s)
               else if param = 1 then
                 (let currentTopic = getChannelTopic channel;
                      reply = (if currentTopic = '''' then numeric c ''331'' channelName
                               else numeric c ''332'' (channelName @ '' :'' @ currentTopic))
                  in Some (addReply fd reply result, s))
               else if isTopicRestricted (getModes channel) \<and> \<not> isOperator client channel
               then Some (addReply fd (numeric c ''482'' channelName) result, s)
               else do {
                 newTopic \<leftarrow> getSingleParam msg 1;
                 let channel = setChannelTopic newTopic channel;
                 let s = putChannel channelName channel s;
                 result \<leftarrow> broadcastToChannel result channel (reply_topic c channelName newTopic) NULL s;
                 Some (result, s)
               })
        }
      })"

definition handleInvite :: handler_fun where
  "handleInvite fd msg s =
     (let result = CommandResult; client = getClientByFd fd s in
      if client = NULL then Some (result, s)
      else do {
        c \<leftarrow> deref s client;
        if getParamCount msg < 2 then Some (addReply fd (numeric c ''461'' ''INVITE'') result, s)
        else do {
          channelName \<leftarrow> getSingleParam msg 1;
          (case findChannel channelName s of
             None \<Rightarrow> Some (addReply fd (numeric c ''403'' channelName) result, s)
           | Some channel \<Rightarrow>
               if \<not> isChannelMember client channel
               then Some (addReply fd (numeric c ''442'' channelName) result, s)
               else if \<not> isOperator client channel
               then Some (addReply fd (numeric c ''482'' channelName) result, s)
               else do {
                 nick \<leftarrow> getSingleParam msg 0;
                 let target = getClientByNick nick s;
                 if target = NULL then Some (addReply fd (numeric c ''401'' nick) result, s)
                 else if isChannelMember target channel
                 then Some (addReply fd (numeric c ''443'' (nick @ '' '' @ channelName)) result, s)
                 else
                   (let (added, channel) = addInvitedMember target channel;
                        s = putChannel channelName channel s in
                    if \<not> added then Some (result, s)
                    else do {
                      let result = addReply fd (numeric c ''341'' (nick @ '' '' @ channelName)) result;
                      t \<leftarrow> deref s target;
                      Some (addReply (getSocketFd t) (reply_invite c t channelName) result, s)
                    })
               })
        }
      })"

subsection \<open>PRIVMSG\<close>

text \<open>What one target of a \<open>PRIVMSG\<close> produces.\<close>

definition privmsg_spec :: "int \<Rightarrow> ptr \<Rightarrow> client \<Rightarrow> string \<Rightarrow> server_state \<Rightarrow> string \<Rightarrow> t_reply list" where
  "privmsg_spec fd p c text s target =
     (if target = '''' then [reply_to (numeric c ''411'' ''PRIVMSG'') fd]
      else if hd target = CHR ''#'' then
        (case findChannel target s of
           None \<Rightarrow> [reply_to (numeric c ''403'' target) fd]
         | Some ch \<Rightarrow>
             if p \<notin> set (members ch) then [reply_to (numeric c ''404'' target) fd]
             else map (reply_to (reply_privMsg c target text) \<circ> fd_of s)
               (filter (\<lambda>q. q \<noteq> p) (members ch)))
      else if getClientByNick target s = NULL then [reply_to (numeric c ''401'' target) fd]
      else [reply_to (reply_privMsg c target text) (fd_of s (getClientByNick target s))])"

lemma addReply_addReplies: "addReply fd t r = addReplies [reply_to t fd] r"
  by (simp add: addReplies_def addReply_def reply_to_def)

lemma addReplies_append: "addReplies ts (addReplies us r) = addReplies (us @ ts) r"
  by (simp add: addReplies_def)

lemma addReplies_Nil [simp]: "addReplies [] r = r"
  by (simp add: addReplies_def)

lemma fd_of_Some: "deref s p = Some c \<Longrightarrow> fd_of s p = socketFd c"
  by (simp add: fd_of_def)

lemma sendPrivMsg_result:
  assumes ok: "state_ok s" and c: "deref s p = Some c"
  shows "sendPrivMsgToTarget fd p text s target r = Some (addReplies (privmsg_spec fd p c text s target) r)"
proof -
  note d = state_ok_dir [OF ok]
  have chan: "broadcastToChannel r ch t p s = Some (addReplies (map (reply_to t \<circ> fd_of s)
      (filter (\<lambda>q. q \<noteq> p) (members ch))) r)" if "findChannel n s = Some ch" for n ch t
    using findChannel_entry [OF ok that] entry_ok_live by (intro broadcast_result [OF d]) blast
  show ?thesis
    using ok
  proof (cases rule: nick_cases [where n = target])
    case absent
    with c chan show ?thesis
      by (auto simp: sendPrivMsgToTarget_def privmsg_spec_def member_tests addReply_addReplies
          split: option.split)
  next
    case (present t)
    with c chan show ?thesis
      by (auto simp: sendPrivMsgToTarget_def privmsg_spec_def member_tests addReply_addReplies
          getSocketFd_def fd_of_Some Let_def split: option.split)
  qed
qed

lemma privmsg_loop:
  "state_ok s \<Longrightarrow> deref s p = Some c \<Longrightarrow>
    for_each (sendPrivMsgToTarget fd p text s) targets r
      = Some (addReplies (concat (map (privmsg_spec fd p c text s) targets)) r)"
  by (induction targets arbitrary: r) (simp_all add: sendPrivMsg_result addReplies_append)

lemma privmsg_spec_ok:
  assumes ok: "state_ok s" and c: "deref s p = Some c" and fd: "getClientByFd fd s \<noteq> NULL"
    and lf: "lf_free target" "lf_free text" and r: "replies_ok s r"
  shows "replies_ok s (addReplies (privmsg_spec fd p c text s target) r)"
proof -
  note d = state_ok_dir [OF ok]
  have cok: "client_ok c" using live_client_ok [OF d c] .
  have num: "replies_ok s (addReplies [reply_to (numeric c code m) fd] r)"
    if "code \<in> set known_codes" "lf_free m" for code m
    using that fd r cok numeric_line [of code c m] by (simp add: replies_ok_def reply_to_def)
  have line: "one_line (reply_privMsg c target text)" using cok lf by (intro reply_lines)
  have chan: "replies_ok s (addReplies (map (reply_to (reply_privMsg c target text) \<circ> fd_of s)
      (filter (\<lambda>q. q \<noteq> p) (members ch))) r)" if "findChannel n s = Some ch" for n ch
    using findChannel_entry [OF ok that] entry_ok_live
    by (intro replies_ok_broadcast [OF d r line]) auto
  have nick: "replies_ok s (addReplies [reply_to (reply_privMsg c target text)
      (fd_of s (getClientByNick target s))] r)" if "getClientByNick target s \<noteq> NULL"
    using replies_ok_broadcast [OF d r line, of "[getClientByNick target s]"]
      dirs.by_nick_live [OF d that] by auto
  show ?thesis
    using num lf chan nick by (auto simp: privmsg_spec_def lf_simps split: option.split)
qed

lemma replies_ok_concat:
  assumes "\<And>x r. x \<in> set xs \<Longrightarrow> replies_ok s r \<Longrightarrow> replies_ok s (addReplies (f x) r)"
    and "replies_ok s r"
  shows "replies_ok s (addReplies (concat (map f xs)) r)"
  using assms
proof (induction xs arbitrary: r)
  case Nil
  then show ?case by simp
next
  case (Cons x xs)
  from Cons.prems have "replies_ok s (addReplies (f x) r)" by simp
  with Cons.IH [of "addReplies (f x) r"] Cons.prems(1) show ?case
    by (simp add: addReplies_append)
qed

lemma handlePrivMsg_contract:
  assumes ok: "state_ok s" and m: "message_lf_free m"
  shows "outcome_ok fd s (handlePrivMsg fd m s)"
  using ok
proof (cases rule: fd_cases [where fd = fd])
  case absent
  with ok show ?thesis by (simp add: handlePrivMsg_def acc_ok_init)
next
  case (present c)
  show ?thesis
  proof (cases "2 \<le> length (params m) \<and> params m ! 1 \<noteq> ''''")
    case False
    with present(1,2,4) ok show ?thesis
      by (auto simp: handlePrivMsg_def getParamCount_def getSingleParam_def lf_simps Let_def
          intro!: acc_ok_numeric acc_ok_init)
  next
    case True
    then have len: "0 < length (params m)" "1 < length (params m)" by linarith+
    note lf = param_lf_free [OF m len(1)] param_lf_free [OF m len(2)]
    have "replies_ok s (addReplies (concat (map (privmsg_spec fd (getClientByFd fd s) c (params m ! 1) s)
        (comma_split (params m ! 0)))) CommandResult)"
      using privmsg_spec_ok [OF ok present(2,1)] comma_split_lf_free [OF lf(1)] lf(2)
      by (intro replies_ok_concat) simp_all
    with True len present(1,2) ok show ?thesis
      by (auto simp: handlePrivMsg_def getParamCount_def getSingleParam_def splitByComma_eq
          privmsg_loop [OF ok present(2)] acc_ok_def Let_def)
  qed
qed

interpretation privmsg_cmd: total_handler handlePrivMsg
  by unfold_locales (rule handlePrivMsg_contract)

subsection \<open>TOPIC\<close>

text \<open>
  The channel and text of a \<open>TOPIC\<close> command that takes effect: the issuer is a member, and an
  operator where the topic is restricted.
\<close>

definition topic_change :: "ptr \<Rightarrow> string list \<Rightarrow> server_state \<Rightarrow> (channel \<times> string) option" where
  "topic_change p ps s =
     (if length ps < 2 then None
      else
        (case findChannel (ps ! 0) s of
           None \<Rightarrow> None
         | Some ch \<Rightarrow>
             if p \<in> set (members ch) \<and> (topicRestricted (chModes ch) \<longrightarrow> p \<in> set (operators ch))
             then Some (ch, ps ! 1) else None))"

definition topic_answer :: "ptr \<Rightarrow> client \<Rightarrow> string list \<Rightarrow> server_state \<Rightarrow> string" where
  "topic_answer p c ps s =
     (if ps = [] then numeric c ''461'' ''TOPIC''
      else
        (case findChannel (ps ! 0) s of
           None \<Rightarrow> numeric c ''403'' (ps ! 0)
         | Some ch \<Rightarrow>
             if p \<notin> set (members ch) then numeric c ''442'' (ps ! 0)
             else if length ps = 1 then
               (if chTopic ch = '''' then numeric c ''331'' (ps ! 0)
                else numeric c ''332'' (ps ! 0 @ '' :'' @ chTopic ch))
             else numeric c ''482'' (ps ! 0)))"

definition to_all :: "server_state \<Rightarrow> channel \<Rightarrow> string \<Rightarrow> t_reply list" where
  "to_all s ch text = map (reply_to text \<circ> fd_of s) (members ch)"

lemma to_all_ok:
  "dir_ok s \<Longrightarrow> replies_ok s r \<Longrightarrow> one_line t \<Longrightarrow> entry_ok s n ch \<Longrightarrow> replies_ok s (addReplies (to_all s ch t) r)"
  unfolding to_all_def by (rule replies_ok_broadcast) (auto dest: entry_ok_live)

lemma broadcast_all:
  assumes "dir_ok s" and "\<And>p. p \<in> set (members ch) \<Longrightarrow> deref s p \<noteq> None"
  shows "broadcastToChannel r ch text NULL s = Some (addReplies (to_all s ch text) r)"
proof -
  have "p \<noteq> NULL" if "p \<in> set (members ch)" for p
    using assms(2) [OF that] dir_ok_null [OF assms(1)] by metis
  then have "filter (\<lambda>p. p \<noteq> NULL) (members ch) = members ch"
    by (auto simp: filter_id_conv)
  then show ?thesis using broadcast_result [OF assms, where ex = NULL] by (simp add: to_all_def)
qed

lemma fd_of_putChannel [simp]: "fd_of (putChannel n ch s) = fd_of s"
  by (rule ext) (simp add: fd_of_def)

lemma to_all_cong: "members ch' = members ch \<Longrightarrow> fd_of s' = fd_of s \<Longrightarrow> to_all s' ch' t = to_all s ch t"
  by (simp add: to_all_def)

lemma handleTopic_result:
  assumes ok: "state_ok s" and p: "getClientByFd fd s = p" "p \<noteq> NULL" and c: "deref s p = Some c"
  shows "handleTopic fd m s =
    (case topic_change p (params m) s of
       Some (ch, t) \<Rightarrow>
         Some (addReplies (to_all s ch (reply_topic c (params m ! 0) t)) CommandResult,
               putChannel (params m ! 0) (setChannelTopic t ch) s)
     | None \<Rightarrow> Some (addReply fd (topic_answer p c (params m) s) CommandResult, s))"
proof -
  note d = state_ok_dir [OF ok]
  have bc: "broadcastToChannel r (setChannelTopic t ch) text NULL (putChannel n (setChannelTopic t ch) s)
      = Some (addReplies (to_all s ch text) r)" if "findChannel n s = Some ch" for r t ch and "text" and n
  proof -
    have live: "\<And>q. q \<in> set (members ch) \<Longrightarrow> deref s q \<noteq> None"
      using findChannel_entry [OF ok that] entry_ok_live by blast
    have "to_all (putChannel n (setChannelTopic t ch) s) (setChannelTopic t ch) text = to_all s ch text"
      by (rule to_all_cong) (simp_all add: setChannelTopic_def)
    then show ?thesis
      using broadcast_all [OF dir_ok_putChannel [OF d], of "setChannelTopic t ch"] live
      by (simp add: setChannelTopic_def)
  qed
  consider (none) "length (params m) < 2" | (two) "2 \<le> length (params m)" by linarith
  then show ?thesis
  proof cases
    case none
    with p c show ?thesis
      by (auto simp: handleTopic_def topic_change_def topic_answer_def
        getParamCount_def getSingleParam_def member_tests less_2_cases_iff Let_def split: option.split)
  next
    case two
    then have len: "params m \<noteq> []" "length (params m) \<noteq> 1" "\<not> length (params m) < 2" "0 < length (params m)"
      "1 < length (params m)" by auto
    with p c show ?thesis
      by (cases "findChannel (params m ! 0) s")
        (simp_all add: handleTopic_def topic_change_def topic_answer_def
          getParamCount_def getSingleParam_def member_tests bc Let_def)
  qed
qed

lemma params2_lf_free:
  "message_lf_free m \<Longrightarrow> 2 \<le> length (params m) \<Longrightarrow> lf_free (params m ! 0) \<and> lf_free (params m ! 1)"
  using param_lf_free [of m 0] param_lf_free [of m 1] by linarith

lemma topic_answer_ok:
  assumes ok: "state_ok s" and a: "acc_ok fd s (r, s)" and fd: "getClientByFd fd s \<noteq> NULL"
    and c: "client_ok c" and m: "message_lf_free m"
  shows "acc_ok fd s (addReply fd (topic_answer p c (params m) s) r, s)"
proof -
  have "lf_free (chTopic ch)" if "findChannel n s = Some ch" for n ch
    using findChannel_entry [OF ok that] by (simp add: entry_ok_def channel_ok_def)
  with a fd c param_lf_free [OF m, of 0] show ?thesis
    by (auto simp: topic_answer_def lf_simps split: option.split intro!: acc_ok_numeric)
qed

lemma topic_changeD:
  "topic_change p ps s = Some (ch, t) \<Longrightarrow>
    2 \<le> length ps \<and> findChannel (ps ! 0) s = Some ch \<and> t = ps ! 1 \<and> p \<in> set (members ch)
    \<and> (topicRestricted (chModes ch) \<longrightarrow> p \<in> set (operators ch))"
  by (auto simp: topic_change_def split: if_splits option.splits)

lemma entry_ok_topic: "entry_ok s n ch \<Longrightarrow> lf_free t \<Longrightarrow> entry_ok s n (setChannelTopic t ch)"
  by (auto simp: entry_ok_def setChannelTopic_def channel_ok_def)

lemma handleTopic_contract:
  assumes ok: "state_ok s" and m: "message_lf_free m"
  shows "outcome_ok fd s (handleTopic fd m s)"
  using ok
proof (cases rule: fd_cases [where fd = fd])
  case absent
  with ok show ?thesis by (simp add: handleTopic_def acc_ok_init)
next
  case (present c)
  note res = handleTopic_result [OF ok refl present(1,2), of m]
  show ?thesis
  proof (cases "topic_change (getClientByFd fd s) (params m) s")
    case None
    with res topic_answer_ok [OF ok acc_ok_init [OF ok] present(1,4) m] show ?thesis by simp
  next
    case (Some x)
    obtain ch t where x: "x = (ch, t)" by (cases x)
    with topic_changeD Some have ch: "2 \<le> length (params m)" "findChannel (params m ! 0) s = Some ch"
      "t = params m ! 1" by auto
    then have lf: "lf_free (params m ! 0)" "lf_free t"
      using params2_lf_free [OF m] by auto
    note e = findChannel_entry [OF ok ch(2)]
    have "state_ok (putChannel (params m ! 0) (setChannelTopic t ch) s)"
      using ok e entry_ok_topic [OF _ lf(2)] by (intro state_ok_putChannel) (auto simp: setChannelTopic_def)
    moreover have "replies_ok s
        (addReplies (to_all s ch (reply_topic c (params m ! 0) t)) CommandResult)"
      using e present(4) lf by (intro to_all_ok [OF state_ok_dir [OF ok]] reply_lines) auto
    ultimately show ?thesis using res Some x by (simp add: acc_ok_def)
  qed
qed

interpretation topic_cmd: total_handler handleTopic
  by unfold_locales (rule handleTopic_contract)

subsection \<open>INVITE\<close>

text \<open>
  The channel and the invited client of an \<open>INVITE\<close> that passes every check: the issuer is a
  member and an operator, the target exists and is not a member.
\<close>

definition invite_change :: "ptr \<Rightarrow> string list \<Rightarrow> server_state \<Rightarrow> (channel \<times> ptr) option" where
  "invite_change p ps s =
     (if length ps < 2 then None
      else
        (case findChannel (ps ! 1) s of
           None \<Rightarrow> None
         | Some ch \<Rightarrow>
             (let q = getClientByNick (ps ! 0) s in
              if p \<in> set (members ch) \<and> p \<in> set (operators ch) \<and> q \<noteq> NULL \<and> q \<notin> set (members ch)
              then Some (ch, q) else None)))"

definition invite_answer :: "ptr \<Rightarrow> client \<Rightarrow> string list \<Rightarrow> server_state \<Rightarrow> string" where
  "invite_answer p c ps s =
     (if length ps < 2 then numeric c ''461'' ''INVITE''
      else
        (case findChannel (ps ! 1) s of
           None \<Rightarrow> numeric c ''403'' (ps ! 1)
         | Some ch \<Rightarrow>
             if p \<notin> set (members ch) then numeric c ''442'' (ps ! 1)
             else if p \<notin> set (operators ch) then numeric c ''482'' (ps ! 1)
             else if getClientByNick (ps ! 0) s = NULL then numeric c ''401'' (ps ! 0)
             else numeric c ''443'' (ps ! 0 @ '' '' @ ps ! 1)))"

definition invite_in :: "ptr \<Rightarrow> channel \<Rightarrow> channel" where
  "invite_in q ch = ch\<lparr>invited := set_insert q (invited ch)\<rparr>"

definition invite_replies :: "int \<Rightarrow> client \<Rightarrow> client \<Rightarrow> string list \<Rightarrow> t_reply list" where
  "invite_replies fd c t ps =
     [reply_to (numeric c ''341'' (ps ! 0 @ '' '' @ ps ! 1)) fd,
      reply_to (reply_invite c t (ps ! 1)) (socketFd t)]"

lemma invite_changeD:
  "invite_change p ps s = Some (ch, q) \<Longrightarrow>
    2 \<le> length ps \<and> findChannel (ps ! 1) s = Some ch \<and> q = getClientByNick (ps ! 0) s \<and> q \<noteq> NULL
    \<and> p \<in> set (members ch) \<and> p \<in> set (operators ch) \<and> q \<notin> set (members ch)"
  by (auto simp: invite_change_def Let_def split: if_splits option.splits)

lemma handleInvite_refused:
  assumes "getClientByFd fd s = p" "p \<noteq> NULL" "deref s p = Some c" "invite_change p (params m) s = None"
  shows "handleInvite fd m s = Some (addReply fd (invite_answer p c (params m) s) CommandResult, s)"
proof (cases "length (params m) < 2")
  case True
  with assms show ?thesis by (simp add: handleInvite_def getParamCount_def invite_answer_def Let_def)
next
  case False
  then have "0 < length (params m)" "1 < length (params m)" by linarith+
  with False assms show ?thesis
    by (auto simp: handleInvite_def getParamCount_def getSingleParam_def invite_answer_def
        invite_change_def member_tests Let_def split: option.split if_splits)
qed

lemma handleInvite_accepted:
  assumes ok: "state_ok s" and p: "getClientByFd fd s = p" "p \<noteq> NULL" "deref s p = Some c"
    and acc: "invite_change p (params m) s = Some (ch, q)" and t: "deref s q = Some t"
  shows "handleInvite fd m s =
    (if q \<in> set (invited ch) then Some (CommandResult, s)
     else Some (addReplies (invite_replies fd c t (params m)) CommandResult,
                putChannel (params m ! 1) (invite_in q ch) s))"
proof -
  note ch = invite_changeD [OF acc]
  then have len: "\<not> length (params m) < 2" "0 < length (params m)" "1 < length (params m)" by linarith+
  have same: "putChannel (params m ! 1) ch s = s"
    using putChannel_same [OF dir_ok_maps [OF state_ok_dir [OF ok]]] ch by blast
  from ch len same p t show ?thesis
    by (auto simp: handleInvite_def getParamCount_def getSingleParam_def member_tests add_results
        invite_in_def invite_replies_def addReply_addReplies addReplies_append getSocketFd_def Let_def)
qed

lemma invite_answer_ok:
  assumes "acc_ok fd s (r, s)" "getClientByFd fd s \<noteq> NULL" "client_ok c" "message_lf_free m"
  shows "acc_ok fd s (addReply fd (invite_answer p c (params m) s) r, s)"
proof (cases "length (params m) < 2")
  case True
  with assms show ?thesis by (auto simp: invite_answer_def lf_simps intro!: acc_ok_numeric)
next
  case False
  with assms params2_lf_free [OF assms(4)] show ?thesis
    by (auto simp: invite_answer_def lf_simps split: option.split intro!: acc_ok_numeric)
qed

lemma invite_in_ok: "entry_ok s n ch \<Longrightarrow> deref s q \<noteq> None \<Longrightarrow> entry_ok s n (invite_in q ch)"
  by (auto simp: entry_ok_def invite_in_def channel_ok_def std_set_simps intro: ok_intro)

lemma handleInvite_contract:
  assumes ok: "state_ok s" and m: "message_lf_free m"
  shows "outcome_ok fd s (handleInvite fd m s)"
  using ok
proof (cases rule: fd_cases [where fd = fd])
  case absent
  with ok show ?thesis by (simp add: handleInvite_def acc_ok_init)
next
  case (present c)
  note d = state_ok_dir [OF ok]
  show ?thesis
  proof (cases "invite_change (getClientByFd fd s) (params m) s")
    case None
    show ?thesis
      using handleInvite_refused [OF refl present(1,2) None]
        invite_answer_ok [OF acc_ok_init [OF ok] present(1,4) m] by simp
  next
    case (Some x)
    obtain ch q where x: "invite_change (getClientByFd fd s) (params m) s = Some (ch, q)"
      using Some by (cases x) simp
    note ch = invite_changeD [OF x]
    then obtain t where t: "deref s q = Some t" using dirs.by_nick_live [OF d] by blast
    have e: "entry_ok s (params m ! 1) ch" "members ch \<noteq> []"
      using findChannel_entry [OF ok] ch by blast+
    have lf: "lf_free (params m ! 0)" "lf_free (params m ! 1)"
      using params2_lf_free [OF m] ch by auto
    have cok: "client_ok t" by (rule live_client_ok [OF d t])
    have lines: "one_line (numeric c ''341'' (params m ! 0 @ '' '' @ params m ! 1))"
      "one_line (reply_invite c t (params m ! 1))"
      using present(4) cok lf by (auto intro!: numeric_line reply_lines(4) simp: lf_simps)
    have "getClientByFd (socketFd t) s \<noteq> NULL"
      using dirs.live_by_fd [OF d t] dirs.live_not_null [OF d t] by simp
    with lines present(1) have "replies_ok s (addReplies (invite_replies fd c t (params m)) CommandResult)"
      by (simp add: invite_replies_def replies_ok_def reply_to_def)
    moreover have "state_ok (putChannel (params m ! 1) (invite_in q ch) s)"
      using ok e invite_in_ok [OF e(1)] t by (intro state_ok_putChannel) (auto simp: invite_in_def)
    ultimately show ?thesis
      using handleInvite_accepted [OF ok refl present(1,2) x t] ok
      by (simp add: acc_ok_def)
  qed
qed

interpretation invite_cmd: total_handler handleInvite
  by unfold_locales (rule handleInvite_contract)

subsection \<open>Properties of PRIVMSG\<close>

text \<open>
  C31. A \<open>PRIVMSG\<close> with a text changes nothing in the server state and produces, target by target
  in the order of the command, exactly the deliveries and error replies of \<open>privmsg_spec\<close>: the
  message for each other member of a channel the sender is on, the message for the named client,
  or one numeric to the sender (no such channel, not on it, no such nick, no recipient).
\<close>

theorem privmsg_delivery:
  assumes "state_ok s" and "getClientByFd fd s \<noteq> NULL" and "deref s (getClientByFd fd s) = Some c"
    and "2 \<le> length (params m)" and "params m ! 1 \<noteq> ''''"
  shows "handlePrivMsg fd m s =
    Some (addReplies (concat (map (privmsg_spec fd (getClientByFd fd s) c (params m ! 1) s)
            (comma_split (params m ! 0)))) CommandResult, s)"
proof -
  from assms(4) have "0 < length (params m)" "1 < length (params m)" by linarith+
  with assms show ?thesis
    by (simp add: handlePrivMsg_def getParamCount_def getSingleParam_def splitByComma_eq
        privmsg_loop Let_def)
qed

lemma reply_to_fields [simp]:
  "replyFd (reply_to t f) = f" "replyText (reply_to t f) = t"
  "replyFd \<circ> (reply_to t \<circ> g) = g" "replyFd \<circ> reply_to t = (\<lambda>f. f)"
  by (auto simp: reply_to_def)

lemma fd_of_inj:
  assumes "dir_ok s" and "\<And>p. p \<in> A \<Longrightarrow> deref s p \<noteq> None"
  shows "inj_on (fd_of s) A"
proof (rule inj_onI)
  fix p q
  assume "p \<in> A" "q \<in> A" and eq: "fd_of s p = fd_of s q"
  with assms(2) obtain c d where "deref s p = Some c" "deref s q = Some d" by blast
  with eq dirs.fd_unique [OF assms(1)] show "p = q" by (simp add: fd_of_Some)
qed

text \<open>
  A message to a channel is delivered exactly once to every other member and never to the
  sender: the queued copies go to pairwise different descriptors, which are those of the members
  other than the sender, and all carry the same line.
\<close>

theorem privmsg_channel_once:
  assumes ok: "state_ok s" and c: "deref s p = Some c"
    and ch: "findChannel target s = Some ch" and mem: "p \<in> set (members ch)"
  shows "\<exists>ts. sendPrivMsgToTarget fd p text s target r = Some (addReplies ts r)
    \<and> distinct (map replyFd ts)
    \<and> set (map replyFd ts) = fd_of s ` (set (members ch) - {p})
    \<and> socketFd c \<notin> set (map replyFd ts)
    \<and> (\<forall>t \<in> set ts. replyText t = reply_privMsg c target text)"
proof -
  note d = state_ok_dir [OF ok]
  let ?qs = "filter (\<lambda>q. q \<noteq> p) (members ch)"
  let ?ts = "map (reply_to (reply_privMsg c target text) \<circ> fd_of s) ?qs"
  have e: "entry_ok s target ch" using findChannel_entry [OF ok ch] by simp
  then have v: "isValidChannelName target" and dist: "distinct (members ch)"
    by (auto simp: entry_ok_def channel_ok_def set_ok_distinct)
  have live: "deref s q \<noteq> None" if "q \<in> insert p (set (members ch))" for q
    using that entry_ok_live [OF e] c by auto
  note inj = fd_of_inj [OF d live]
  have "target \<noteq> ''''" "hd target = CHR ''#''"
    using v by (auto simp: isValidChannelName_def hd_conv_nth split: if_splits)
  then have "privmsg_spec fd p c text s target = ?ts"
    using ch mem by (simp add: privmsg_spec_def)
  moreover have fds: "map replyFd ?ts = map (fd_of s) ?qs" by (simp add: reply_to_def)
  moreover have "distinct (map (fd_of s) ?qs)"
    using dist inj_on_subset [OF inj, of "set ?qs"] by (auto simp: distinct_map)
  moreover have "set (map (fd_of s) ?qs) = fd_of s ` (set (members ch) - {p})" by auto
  moreover have "fd_of s p \<notin> fd_of s ` (set (members ch) - {p})"
    using inj by (auto simp: inj_on_def)
  moreover have "fd_of s p = socketFd c" using c by (rule fd_of_Some)
  moreover have "\<forall>t \<in> set ?ts. replyText t = reply_privMsg c target text" by (simp add: reply_to_def)
  ultimately show ?thesis
    using sendPrivMsg_result [OF ok c, of fd "text" target r]
    by (intro exI [of _ ?ts]) simp
qed

theorem privmsg_delivery_witness:
  "handlePrivMsg 5 \<lparr>command = ''PRIVMSG'', params = [''#lobby,ada,eve'', ''hi'']\<rparr> shared_state
    = Some (addReplies
        [reply_to (reply_privMsg (sample_client 5 ''bob'') ''#lobby'' ''hi'') 4,
         reply_to (reply_privMsg (sample_client 5 ''bob'') ''ada'' ''hi'') 4,
         reply_to (numeric (sample_client 5 ''bob'') ''401'' ''eve'') 5] CommandResult, shared_state)"
proof -
  have "fd_of shared_state 1 = 4" by (simp add: fd_of_def sample_client_def)
  moreover have "getClientByNick ''eve'' sample_state = NULL" by (simp add: getClientByNick_def)
  ultimately show ?thesis
    using privmsg_delivery [OF state_ok_shared, of 5 "sample_client 5 ''bob''"
        "\<lparr>command = ''PRIVMSG'', params = [''#lobby,ada,eve'', ''hi'']\<rparr>"]
    by (simp add: privmsg_spec_def)
qed

theorem privmsg_channel_once_witness:
  "\<exists>ts. sendPrivMsgToTarget 5 2 ''hi'' shared_state ''#lobby'' CommandResult = Some (addReplies ts CommandResult)
    \<and> set (map replyFd ts) = {4}"
proof -
  have "fd_of shared_state 1 = 4" by (simp add: fd_of_def sample_client_def)
  then show ?thesis
    using privmsg_channel_once [OF state_ok_shared, of 2 "sample_client 5 ''bob''" "''#lobby''" shared_channel 5
        "''hi''" CommandResult]
    by (auto simp: insert_Diff_if)
qed

subsection \<open>Properties of TOPIC and INVITE\<close>

text \<open>
  C32. Topic authority. A \<open>TOPIC\<close> command returns and changes the state exactly when it names an
  existing channel and a text, its issuer is a member, and the issuer is an operator if the topic
  is restricted. Then that channel's topic is the text, nothing else changes, and every member
  (the issuer included) is sent the \<open>TOPIC\<close> line; otherwise the issuer gets exactly one reply.
\<close>

theorem topic_effect:
  assumes "state_ok s" and "message_lf_free m" and "getClientByFd fd s = p" and "p \<noteq> NULL"
    and "deref s p = Some c"
  shows "\<exists>r s'. handleTopic fd m s = Some (r, s') \<and> state_ok s' \<and>
    (case topic_change p (params m) s of
       None \<Rightarrow> s' = s \<and> map replyFd (replies r) = [fd]
     | Some (ch, t) \<Rightarrow>
         findChannel (params m ! 0) s' = Some (ch\<lparr>chTopic := t\<rparr>)
         \<and> (\<forall>n. n \<noteq> params m ! 0 \<longrightarrow> findChannel n s' = findChannel n s)
         \<and> heap s' = heap s \<and> clientsByNick s' = clientsByNick s
         \<and> replies r = to_all s ch (reply_topic c (params m ! 0) t))"
proof -
  obtain r s' where run: "handleTopic fd m s = Some (r, s')" "state_ok s'"
    using topic_cmd.returns [OF assms(1,2)] by blast
  with handleTopic_result [OF assms(1,3-5), of m] show ?thesis
    by (auto simp: setChannelTopic_def split: option.splits)
qed

text \<open>
  C33. Invite authority. An \<open>INVITE\<close> returns and changes the state exactly when its issuer is a
  member and operator of the named channel and the named client exists, is not a member and has
  not been invited yet. Then that client is recorded as invited, nothing else changes, the issuer
  gets the 341 numeric and the invited client the \<open>INVITE\<close> line. A repeated invitation is silent;
  any other refusal sends one reply to the issuer.
\<close>

theorem invite_effect:
  assumes "state_ok s" and "message_lf_free m" and "getClientByFd fd s = p" and "p \<noteq> NULL"
    and "deref s p = Some c"
  shows "\<exists>r s'. handleInvite fd m s = Some (r, s') \<and> state_ok s' \<and>
    (case invite_change p (params m) s of
       None \<Rightarrow> s' = s \<and> map replyFd (replies r) = [fd]
     | Some (ch, q) \<Rightarrow>
         if q \<in> set (invited ch) then s' = s \<and> replies r = []
         else findChannel (params m ! 1) s' = Some (invite_in q ch)
           \<and> (\<forall>n. n \<noteq> params m ! 1 \<longrightarrow> findChannel n s' = findChannel n s)
           \<and> heap s' = heap s \<and> clientsByNick s' = clientsByNick s
           \<and> map replyFd (replies r) = [fd, fd_of s q])"
proof -
  obtain r s' where run: "handleInvite fd m s = Some (r, s')" "state_ok s'"
    using invite_cmd.returns [OF assms(1,2)] by blast
  show ?thesis
  proof (cases "invite_change p (params m) s")
    case None
    with run handleInvite_refused [OF assms(3-5)] show ?thesis by auto
  next
    case (Some x)
    then obtain ch q where x: "invite_change p (params m) s = Some (ch, q)" by (cases x) simp
    then obtain t where t: "deref s q = Some t"
      using invite_changeD dirs.by_nick_live [OF state_ok_dir [OF assms(1)]] by blast
    with run x handleInvite_accepted [OF assms(1,3-5) x t] show ?thesis
      by (auto simp: invite_replies_def reply_to_def fd_of_Some)
  qed
qed

lemma sample_msg: "message_lf_free \<lparr>command = ''X'', params = [''#lobby'', ''bob'']\<rparr>"
  "message_lf_free \<lparr>command = ''X'', params = [''bob'', ''#lobby'']\<rparr>"
  by (simp_all add: message_lf_free_def lf_simps)

theorem topic_effect_witness:
  "\<exists>r s'. handleTopic 5 \<lparr>command = ''X'', params = [''#lobby'', ''bob'']\<rparr> shared_state = Some (r, s')
    \<and> map_option chTopic (findChannel ''#lobby'' s') = Some ''bob'' \<and> map replyFd (replies r) = [4, 5]"
proof -
  have "topic_change 2 [''#lobby'', ''bob''] shared_state = Some (shared_channel, ''bob'')"
    by (simp add: topic_change_def ChannelModes_def)
  moreover have "to_all shared_state shared_channel t = [reply_to t 4, reply_to t 5]" for t
    by (simp add: to_all_def fd_of_def sample_client_def)
  moreover have "deref shared_state 2 = Some (sample_client 5 ''bob'')" by simp
  ultimately show ?thesis
    using topic_effect [OF state_ok_shared sample_msg(1), of 5 2 "sample_client 5 ''bob''"]
    by (auto simp: reply_to_def)
qed

theorem invite_effect_witness:
  "\<exists>r s'. handleInvite 4 \<lparr>command = ''X'', params = [''bob'', ''#lobby'']\<rparr> sample_state = Some (r, s')
    \<and> map_option invited (findChannel ''#lobby'' s') = Some [2] \<and> map replyFd (replies r) = [4, 5]"
proof -
  have "invite_change 1 [''bob'', ''#lobby''] sample_state = Some (sample_channel, 2)"
    by (simp add: invite_change_def sample_channel_def)
  moreover have "invited sample_channel = []" by (simp add: sample_channel_def Channel_def)
  moreover have "fd_of sample_state 2 = 5" by (simp add: fd_of_def sample_client_def)
  moreover have "deref sample_state 1 = Some (sample_client 4 ''ada'')" by simp
  ultimately show ?thesis
    using invite_effect [OF state_ok_sample sample_msg(2), of 4 1 "sample_client 4 ''ada''"]
    by (auto simp: invite_in_def)
qed

end
