(* ===== verification/Handlers_Kick.thy ===== *)
theory Handlers_Kick
  imports Handlers_Channel
begin

section \<open>KICK\<close>

text \<open>
  \<open>handleKick.cpp\<close>: one target after the other, each looked up again in a state that earlier
  targets (the issuer among them, or the whole channel) may have left.
\<close>

definition kickSingleTarget ::
  "int \<Rightarrow> ptr \<Rightarrow> string \<Rightarrow> string \<Rightarrow> string \<Rightarrow> command_result \<times> server_state
    \<Rightarrow> (command_result \<times> server_state) option" where
  "kickSingleTarget fd client channelName reason nick acc =
     (let (result, s) = acc in do {
        c \<leftarrow> deref s client;
        if nick = '''' then Some (addReply fd (numeric c ''411'' ''KICK'') result, s)
        else
          (case findChannel channelName s of
             None \<Rightarrow> Some (addReply fd (numeric c ''403'' channelName) result, s)
           | Some channel \<Rightarrow>
               (let target = getClientByNick nick s in
                if target = NULL then Some (addReply fd (numeric c ''401'' nick) result, s)
                else if getNickName c = '''' then Some (addReply fd (numeric c ''401'' '''') result, s)
                else if \<not> isChannelMember client channel
                then Some (addReply fd (numeric c ''442'' channelName) result, s)
                else if \<not> isOperator client channel
                then Some (addReply fd (numeric c ''482'' channelName) result, s)
                else if \<not> isChannelMember target channel
                then Some (addReply fd (numeric c ''441'' (nick @ '' '' @ channelName)) result, s)
                else do {
                  t \<leftarrow> deref s target;
                  result \<leftarrow>
                    broadcastToChannel result channel (reply_kick c t channelName reason) NULL s;
                  let (removed, channel) = removeFromChannel target channel;
                  let s = putChannel channelName channel s;
                  if \<not> removed
                  then Some (addReply fd (numeric c ''441'' (nick @ '' '' @ channelName)) result, s)
                  else Some (result, snd (removeChannelIfEmpty channelName s))
                }))
      })"

definition handleKick :: handler_fun where
  "handleKick fd msg s =
     (let result = CommandResult; client = getClientByFd fd s in
      if client = NULL then Some (result, s)
      else do {
        c \<leftarrow> deref s client;
        if getParamCount msg < 2 then Some (addReply fd (numeric c ''461'' ''KICK'') result, s)
        else do {
          channelName \<leftarrow> getSingleParam msg 0;
          if findChannel channelName s = None
          then Some (addReply fd (numeric c ''403'' channelName) result, s)
          else do {
            p1 \<leftarrow> getSingleParam msg 1;
            nicks \<leftarrow> splitByComma p1;
            reason \<leftarrow> (if hasParam msg 2 then getSingleParam msg 2 else Some '''');
            let reason = (if reason = '''' then getNickName c else reason);
            for_each (kickSingleTarget fd client channelName reason) nicks (result, s)
          }
        }
      })"

subsection \<open>One target\<close>

text \<open>Replies and state after one target; a channel whose last member leaves is removed.\<close>

definition leave_channel :: "string \<Rightarrow> ptr \<Rightarrow> channel \<Rightarrow> server_state \<Rightarrow> server_state" where
  "leave_channel n q ch s =
     (if members (drop_client q ch) = [] then s\<lparr>channels := map_erase n (channels s)\<rparr>
      else putChannel n (drop_client q ch) s)"

definition kick_spec ::
  "int \<Rightarrow> ptr \<Rightarrow> client \<Rightarrow> string \<Rightarrow> string \<Rightarrow> string \<Rightarrow> server_state \<Rightarrow> t_reply list \<times> server_state" where
  "kick_spec fd p c n reason nick s =
     (let q = getClientByNick nick s; err = (\<lambda>code msg. ([reply_to (numeric c code msg) fd], s)) in
      if nick = '''' then err ''411'' ''KICK''
      else
        (case findChannel n s of
           None \<Rightarrow> err ''403'' n
         | Some ch \<Rightarrow>
             if q = NULL then err ''401'' nick
             else if nickname c = '''' then err ''401'' ''''
             else if p \<notin> set (members ch) then err ''442'' n
             else if p \<notin> set (operators ch) then err ''482'' n
             else if q \<notin> set (members ch) then err ''441'' (nick @ '' '' @ n)
             else
               (case deref s q of
                  None \<Rightarrow> ([], s)
                | Some t \<Rightarrow> (to_all s ch (reply_kick c t n reason), leave_channel n q ch s))))"

lemma map_erase_put: "map_ok m \<Longrightarrow> map_erase k (map_put k v m) = map_erase k m"
  by (rule map_find_ext) (auto simp: map_find_simps intro: ok_intro)

lemma put_then_remove:
  assumes "maps_ok s"
  shows "snd (removeChannelIfEmpty n (putChannel n (drop_client q ch) s)) = leave_channel n q ch s"
proof -
  have "map_erase n (channels (putChannel n ch' s)) = map_erase n (channels s)" for ch'
    using assms by (simp add: putChannel_def maps_ok_def map_erase_put)
  then have "(putChannel n ch' s)\<lparr>channels := map_erase n (channels (putChannel n ch' s))\<rparr>
      = s\<lparr>channels := map_erase n (channels s)\<rparr>" for ch'
    by (simp add: putChannel_def)
  then show ?thesis by (simp add: removeChannelIfEmpty_result leave_channel_def)
qed

lemma kickSingle_result:
  assumes ok: "state_ok s" and c: "deref s p = Some c"
  shows "kickSingleTarget fd p n reason nick (r, s) =
    Some (addReplies (fst (kick_spec fd p c n reason nick s)) r, snd (kick_spec fd p c n reason nick s))"
proof -
  note d = state_ok_dir [OF ok]
  have bc: "broadcastToChannel r ch x NULL s = Some (addReplies (to_all s ch x) r)"
    if "findChannel n s = Some ch" for ch x
    using findChannel_entry [OF ok that] entry_ok_live by (intro broadcast_all [OF d]) blast
  have rm: "removeFromChannel q ch = (True, drop_client q ch)" if "q \<in> set (members ch)" for q ch
    using that by (simp add: drop_client_def removeFromChannel_result)
  show ?thesis
    using ok
  proof (cases rule: nick_cases [where n = nick])
    case absent
    with c show ?thesis
      by (auto simp: kickSingleTarget_def kick_spec_def addReply_addReplies Let_def split: option.split)
  next
    case (present t)
    with c show ?thesis
      by (cases "findChannel n s")
        (simp_all add: kickSingleTarget_def kick_spec_def addReply_addReplies member_tests bc rm
          put_then_remove [OF dir_ok_maps [OF d]] getNickName_def Let_def)
  qed
qed

lemma leave_channel_fields [simp]:
  "clientsByFd (leave_channel n q ch s) = clientsByFd s" "heap (leave_channel n q ch s) = heap s"
  "clientsByNick (leave_channel n q ch s) = clientsByNick s" "password (leave_channel n q ch s) = password s"
  by (simp_all add: leave_channel_def)

lemma findChannel_leave:
  "findChannel k (leave_channel n q ch s) =
    (if k = n then (if members (drop_client q ch) = [] then None else Some (drop_client q ch))
     else findChannel k s)"
  by (auto simp: leave_channel_def findChannel_def putChannel_def map_find_simps)

lemma state_ok_leave:
  assumes ok: "state_ok s" and ch: "findChannel n s = Some ch"
  shows "state_ok (leave_channel n q ch s)"
proof -
  have e: "entry_ok s n ch" using findChannel_entry [OF ok ch] by simp
  then have "entry_ok s n (drop_client q ch)"
    using channel_ok_removeClient [of ch q] unfolding entry_ok_def
    by (auto simp: std_set_simps drop_client_def [symmetric])
  from state_ok_put_remove [OF ok this] show ?thesis
    using put_then_remove [OF dir_ok_maps [OF state_ok_dir [OF ok]], of n q ch] by simp
qed

lemma kick_spec_fields [simp]:
  "clientsByFd (snd (kick_spec fd p c n reason nick s)) = clientsByFd s"
  "clientsByNick (snd (kick_spec fd p c n reason nick s)) = clientsByNick s"
  "password (snd (kick_spec fd p c n reason nick s)) = password s"
  "heap (snd (kick_spec fd p c n reason nick s)) = heap s"
  by (auto simp: kick_spec_def Let_def split: option.split)

lemma state_ok_kick: "state_ok s \<Longrightarrow> state_ok (snd (kick_spec fd p c n reason nick s))"
  by (auto simp: kick_spec_def state_ok_leave Let_def split: option.split)

lemma kick_spec_replies:
  assumes ok: "state_ok s" and c: "client_ok c" and fd: "getClientByFd fd s \<noteq> NULL"
    and lf: "lf_free n" "lf_free reason" "lf_free nick" and r: "replies_ok s r"
  shows "replies_ok s (addReplies (fst (kick_spec fd p c n reason nick s)) r)"
proof -
  note d = state_ok_dir [OF ok]
  have num: "replies_ok s (addReplies [reply_to (numeric c code m) fd] r)"
    if "code \<in> set known_codes" "lf_free m" for code m
    using that fd r c numeric_line [of code c m] by (simp add: replies_ok_def)
  have all: "replies_ok s (addReplies (to_all s ch (reply_kick c t n reason)) r)"
    if "findChannel n s = Some ch" "deref s q = Some t" for ch t q
    using findChannel_entry [OF ok that(1)] live_client_ok [OF d that(2)] c lf
    by (intro to_all_ok [OF d r] reply_lines) auto
  show ?thesis
    using num lf all r by (auto simp: kick_spec_def Let_def lf_simps split: option.split)
qed

subsection \<open>All targets\<close>

text \<open>The effect of one target on the channel, then of a list of targets in closed form.\<close>

definition kick_one :: "ptr \<Rightarrow> ptr \<Rightarrow> channel option \<Rightarrow> channel option" where
  "kick_one p q cho =
     (case cho of
        None \<Rightarrow> None
      | Some ch \<Rightarrow>
          if p \<in> set (operators ch) \<and> q \<in> set (members ch)
          then (if members (drop_client q ch) = [] then None else Some (drop_client q ch))
          else Some ch)"

primrec kicked :: "ptr \<Rightarrow> ptr list \<Rightarrow> ptr list" where
  "kicked p [] = []"
| "kicked p (q # qs) = q # (if q = p then [] else kicked p qs)"

lemma kicked_subset: "set (kicked p qs) \<subseteq> set qs"
  by (induction qs) auto

definition drop_all :: "ptr set \<Rightarrow> channel \<Rightarrow> channel" where
  "drop_all K ch = ch\<lparr>members := filter (\<lambda>q. q \<notin> K) (members ch),
     operators := filter (\<lambda>q. q \<notin> K) (operators ch), invited := filter (\<lambda>q. q \<notin> K) (invited ch)\<rparr>"

lemma drop_client_all: "drop_client q ch = drop_all {q} ch"
  by (simp add: drop_client_def removeFromChannel_result drop_all_def set_erase_def)

lemma drop_all_all: "drop_all K (drop_all L ch) = drop_all (K \<union> L) ch"
  by (simp add: drop_all_def conj_commute)

lemma drop_all_empty [simp]: "drop_all {} ch = ch"
  by (simp add: drop_all_def)

lemma kick_none: "fold (kick_one p) qs None = None"
  by (induction qs) (simp_all add: kick_one_def)

lemma kick_not_operator:
  "p \<notin> set (operators ch) \<Longrightarrow> fold (kick_one p) qs (Some ch) = Some ch"
  by (induction qs) (simp_all add: kick_one_def)

definition unless_empty :: "channel \<Rightarrow> channel option" where
  "unless_empty ch = (if members ch = [] then None else Some ch)"

lemma kick_closed_form:
  assumes "p \<in> set (operators ch)" and "set (operators ch) \<subseteq> set (members ch)"
  shows "fold (kick_one p) qs (Some ch)
    = unless_empty (drop_all (set (kicked p qs) \<inter> set (members ch)) ch)"
  using assms
proof (induction qs arbitrary: ch)
  case Nil
  then show ?case by (auto simp: unless_empty_def)
next
  case (Cons q qs)
  show ?case
  proof (cases "q \<in> set (members ch)")
    case False
    with Cons show ?thesis by (auto simp: kick_one_def)
  next
    case True
    let ?ch = "drop_all {q} ch"
    have one: "kick_one p q (Some ch) = unless_empty ?ch"
      using True Cons.prems by (simp add: kick_one_def drop_client_all unless_empty_def)
    show ?thesis
    proof (cases "q = p")
      case qp: True
      have "p \<notin> set (operators ?ch)" by (simp add: drop_all_def qp)
      then have "fold (kick_one p) qs (unless_empty ?ch) = unless_empty ?ch"
        by (simp add: unless_empty_def kick_none kick_not_operator)
      with one True qp show ?thesis by simp
    next
      case False
      with Cons.prems have p: "p \<in> set (operators ?ch)" "set (operators ?ch) \<subseteq> set (members ?ch)"
        by (auto simp: drop_all_def)
      then have "members ?ch \<noteq> []" by auto
      then have "unless_empty ?ch = Some ?ch" by (simp add: unless_empty_def)
      moreover have "insert q (set (kicked p qs) \<inter> set (members ch))
          = set (kicked p qs) \<inter> set (members ?ch) \<union> {q}"
        by (auto simp: drop_all_def)
      ultimately show ?thesis
        using one Cons.IH [OF p] False True by (simp add: drop_all_all Int_insert_left)
    qed
  qed
qed

lemma kick_spec_channel:
  assumes ok: "state_ok s" and c: "deref s p = Some c"
  shows "findChannel k (snd (kick_spec fd p c n reason nick s)) =
    (if k = n then kick_one p (getClientByNick nick s) (findChannel n s) else findChannel k s)"
proof (cases "findChannel n s")
  case None
  then show ?thesis by (simp add: kick_spec_def kick_one_def Let_def)
next
  case (Some ch)
  note d = state_ok_dir [OF ok]
  have e: "entry_ok s n ch" using findChannel_entry [OF ok Some] by simp
  have ops: "set (operators ch) \<subseteq> set (members ch)" using e by (simp add: entry_ok_def channel_ok_def)
  have live: "deref s q \<noteq> None" if "q \<in> set (members ch)" for q using entry_ok_live [OF e that] .
  have null: "NULL \<notin> set (members ch)" using live dir_ok_null [OF d] by metis
  have nick: "nickname c \<noteq> ''''" if "p \<in> set (members ch)"
    using e that c live_client_ok [OF d c] unfolding entry_ok_def client_ok_def complete_def by force
  have "nick \<noteq> ''''" if "getClientByNick nick s \<in> set (members ch)"
    using that null dirs.by_nick_Nil [OF d] by metis
  let ?q = "getClientByNick nick s"
  show ?thesis
  proof (cases "?q \<in> set (members ch) \<and> p \<in> set (operators ch)")
    case False
    with Some show ?thesis
      by (auto simp: kick_spec_def kick_one_def Let_def split: option.split)
  next
    case True
    then obtain t where t: "deref s ?q = Some t" using live by blast
    have "?q \<noteq> NULL" using True null by metis
    moreover have "p \<in> set (members ch)" using True ops by blast
    moreover note nick [OF this] \<open>?q \<in> set (members ch) \<Longrightarrow> nick \<noteq> []\<close>
    ultimately show ?thesis
      using Some True t by (simp add: kick_spec_def kick_one_def findChannel_leave)
  qed
qed

lemma kick_loop:
  assumes "acc_ok fd s0 (r, s)" and "deref s p = Some c" and "getClientByFd fd s0 \<noteq> NULL"
    and "lf_free n" and "lf_free reason" and "list_all lf_free nicks"
  shows "\<exists>r' s'. for_each (kickSingleTarget fd p n reason) nicks (r, s) = Some (r', s')
    \<and> acc_ok fd s0 (r', s') \<and> heap s' = heap s \<and> clientsByNick s' = clientsByNick s
    \<and> (\<forall>k. findChannel k s' = (if k = n
          then fold (kick_one p) (map (\<lambda>x. getClientByNick x s) nicks) (findChannel n s)
          else findChannel k s))"
  using assms
proof (induction nicks arbitrary: r s)
  case Nil
  then show ?case by auto
next
  case (Cons x nicks)
  from Cons.prems have ok: "state_ok s" and fr: "frame fd s0 s" and r: "replies_ok s0 r" "\<not> disconnect r"
    by (simp_all add: acc_ok_def)
  let ?k = "kick_spec fd p c n reason x s"
  have "client_ok c" using live_client_ok [OF state_ok_dir [OF ok] Cons.prems(2)] .
  then have "replies_ok s (addReplies (fst ?k) r)"
    using Cons.prems ok r replies_ok_frame [OF fr] frame_fd [OF fr] by (intro kick_spec_replies) auto
  moreover have "frame fd s (snd ?k)" by (rule frame_channels) simp_all
  ultimately have "acc_ok fd s0 (addReplies (fst ?k) r, snd ?k)"
    using state_ok_kick [OF ok] frame_trans [OF fr] r replies_ok_frame [OF fr]
    by (simp add: acc_ok_def)
  moreover have "deref (snd ?k) p = Some c" using Cons.prems(2) by (simp add: deref_def)
  moreover have "getClientByNick y (snd ?k) = getClientByNick y s" for y
    by (simp add: getClientByNick_def)
  ultimately show ?case
    using Cons.IH [of "addReplies (fst ?k) r" "snd ?k"] Cons.prems(3-6)
    by (auto simp: kickSingle_result [OF ok Cons.prems(2)] kick_spec_channel [OF ok Cons.prems(2)])
qed

lemma handleKick_loop:
  assumes "getClientByFd fd s \<noteq> NULL" and "deref s (getClientByFd fd s) = Some c"
    and "2 \<le> length (params m)" and "findChannel (params m ! 0) s = Some ch"
  shows "\<exists>reason. handleKick fd m s =
      for_each (kickSingleTarget fd (getClientByFd fd s) (params m ! 0) reason)
        (comma_split (params m ! 1)) (CommandResult, s)
    \<and> (message_lf_free m \<longrightarrow> client_ok c \<longrightarrow> lf_free reason)"
proof -
  let ?given = "if 2 < length (params m) then params m ! 2 else ''''"
  let ?reason = "if ?given = '''' then nickname c else ?given"
  have len: "0 < length (params m)" "1 < length (params m)" "\<not> length (params m) < 2"
    using assms(3) by linarith+
  have "handleKick fd m s =
      for_each (kickSingleTarget fd (getClientByFd fd s) (params m ! 0) ?reason)
        (comma_split (params m ! 1)) (CommandResult, s)"
    using assms len
    by (simp add: handleKick_def getParamCount_def getSingleParam_def hasParam_def splitByComma_eq
        getNickName_def Let_def)
  moreover have "lf_free ?reason" if "message_lf_free m" "client_ok c"
    using param_lf_free [OF that(1), of 2] client_ok_nick_lf_free [OF that(2)] by auto
  ultimately show ?thesis by blast
qed

lemma handleKick_contract:
  assumes ok: "state_ok s" and m: "message_lf_free m"
  shows "outcome_ok fd s (handleKick fd m s)"
  using ok
proof (cases rule: fd_cases [where fd = fd])
  case absent
  with ok show ?thesis by (simp add: handleKick_def acc_ok_init)
next
  case (present c)
  consider (short) "length (params m) < 2" | (none) "2 \<le> length (params m)" "findChannel (params m ! 0) s = None"
    | (some) ch where "2 \<le> length (params m)" "findChannel (params m ! 0) s = Some ch"
    by (meson not_le option.exhaust)
  then show ?thesis
  proof cases
    case short
    with present(1,2,4) ok show ?thesis
      by (auto simp: handleKick_def getParamCount_def lf_simps intro!: acc_ok_numeric acc_ok_init)
  next
    case none
    then have "0 < length (params m)" "\<not> length (params m) < 2" by linarith+
    with none present(1,2,4) ok params2_lf_free [OF m none(1)] show ?thesis
      by (auto simp: handleKick_def getParamCount_def getSingleParam_def intro!: acc_ok_numeric acc_ok_init)
  next
    case some
    obtain reason where run: "handleKick fd m s =
        for_each (kickSingleTarget fd (getClientByFd fd s) (params m ! 0) reason)
          (comma_split (params m ! 1)) (CommandResult, s)" and lf: "lf_free reason"
      using handleKick_loop [OF present(1,2) some] m present(4) by blast
    note p = params2_lf_free [OF m some(1)]
    have "list_all lf_free (comma_split (params m ! 1))"
      using comma_split_lf_free p by (auto simp: list_all_iff)
    from kick_loop [OF acc_ok_init [OF ok] present(2,1) conjunct1 [OF p] lf this] run show ?thesis
      by (auto simp: outcome_ok_def)
  qed
qed

interpretation kick_cmd: total_handler handleKick
  by unfold_locales (rule handleKick_contract)

subsection \<open>Properties of KICK\<close>

text \<open>
  C34. Kicking one target, on every branch: the code does exactly what \<open>kick_spec\<close> says. Only
  the last branch changes anything: when the issuer is a member and an operator and the target a
  member, every member (the target included) is sent the \<open>KICK\<close> line, the target loses its
  membership, its operator status and its invitation, and the channel is removed if it is empty.
\<close>

theorem kick_refines_spec:
  assumes "state_ok s" and "deref s p = Some c"
  shows "kickSingleTarget fd p n reason nick (r, s) =
      Some (addReplies (fst (kick_spec fd p c n reason nick s)) r, snd (kick_spec fd p c n reason nick s))
    \<and> state_ok (snd (kick_spec fd p c n reason nick s))"
  using kickSingle_result [OF assms] state_ok_kick [OF assms(1)] by simp

lemma handleKick_effect:
  assumes ok: "state_ok s" and m: "message_lf_free m"
    and p: "getClientByFd fd s \<noteq> NULL" and len: "2 \<le> length (params m)"
    and ch: "findChannel (params m ! 0) s = Some ch"
  shows "\<exists>r s'. handleKick fd m s = Some (r, s') \<and> state_ok s'
    \<and> heap s' = heap s \<and> clientsByNick s' = clientsByNick s \<and> clientsByFd s' = clientsByFd s
    \<and> (\<forall>k. k \<noteq> params m ! 0 \<longrightarrow> findChannel k s' = findChannel k s)
    \<and> findChannel (params m ! 0) s' =
        (if getClientByFd fd s \<notin> set (operators ch) then Some ch
         else unless_empty (drop_all
           (set (kicked (getClientByFd fd s)
              (map (\<lambda>x. getClientByNick x s) (comma_split (params m ! 1)))) \<inter> set (members ch)) ch))"
proof -
  let ?p = "getClientByFd fd s"
  obtain c where c: "deref s ?p = Some c" "client_ok c"
    using ok by (cases rule: fd_cases [where fd = fd]) (use p in auto)
  obtain reason where run: "handleKick fd m s =
      for_each (kickSingleTarget fd ?p (params m ! 0) reason)
        (comma_split (params m ! 1)) (CommandResult, s)" and lf: "lf_free reason"
    using handleKick_loop [OF p c(1) len ch] m c(2) by blast
  note lfs = params2_lf_free [OF m len]
  have "list_all lf_free (comma_split (params m ! 1))"
    using comma_split_lf_free lfs by (auto simp: list_all_iff)
  from kick_loop [OF acc_ok_init [OF ok] c(1) p conjunct1 [OF lfs] lf this]
  obtain r s' where s': "handleKick fd m s = Some (r, s')" "acc_ok fd s (r, s')" "heap s' = heap s"
      "clientsByNick s' = clientsByNick s"
    and chan: "\<forall>k. findChannel k s' = (if k = params m ! 0
      then fold (kick_one ?p) (map (\<lambda>x. getClientByNick x s) (comma_split (params m ! 1)))
        (findChannel (params m ! 0) s) else findChannel k s)"
    unfolding run by blast
  have ops: "set (operators ch) \<subseteq> set (members ch)"
    using findChannel_entry [OF ok ch] by (simp add: entry_ok_def channel_ok_def)
  from s'(2) have "state_ok s'" "clientsByFd s' = clientsByFd s" by (simp_all add: acc_ok_def frame_def)
  moreover have "fold (kick_one ?p) qs (Some ch) =
      (if ?p \<notin> set (operators ch) then Some ch
       else unless_empty (drop_all (set (kicked ?p qs) \<inter> set (members ch)) ch))" for qs
    using kick_not_operator kick_closed_form [OF _ ops] by simp
  ultimately show ?thesis using s' chan ch by auto
qed

text \<open>
  C29. The effect of a whole \<open>KICK\<close> command. On an existing channel it changes nothing if the
  issuer is not an operator; otherwise exactly the members named in the target list, up to and
  including the issuer itself (after which it has no authority left), are dropped, and the channel
  is removed when nobody is left. No other channel, client or lookup changes.
\<close>

theorem kick_effect:
  assumes ok: "state_ok s" and m: "message_lf_free m"
    and p: "getClientByFd fd s \<noteq> NULL" and len: "2 \<le> length (params m)"
    and ch: "findChannel (params m ! 0) s = Some ch"
  shows "\<exists>r s'. handleKick fd m s = Some (r, s') \<and> state_ok s'
    \<and> heap s' = heap s \<and> clientsByNick s' = clientsByNick s \<and> clientsByFd s' = clientsByFd s
    \<and> (\<forall>k. k \<noteq> params m ! 0 \<longrightarrow> findChannel k s' = findChannel k s)
    \<and> findChannel (params m ! 0) s' =
        (if getClientByFd fd s \<notin> set (operators ch) then Some ch
         else unless_empty (drop_all
           (set (kicked (getClientByFd fd s)
              (map (\<lambda>x. getClientByNick x s) (comma_split (params m ! 1)))) \<inter> set (members ch)) ch))"
  using assms by (rule handleKick_effect)

theorem kick_refines_spec_witness:
  "\<exists>r s'. kickSingleTarget 4 1 ''#lobby'' ''bye'' ''bob'' (CommandResult, shared_state) = Some (r, s')
    \<and> map replyFd (replies r) = [4, 5] \<and> map_option members (findChannel ''#lobby'' s') = Some [1]"
proof -
  have c: "deref shared_state 1 = Some (sample_client 4 ''ada'')" by simp
  have "kick_spec 4 1 (sample_client 4 ''ada'') ''#lobby'' ''bye'' ''bob'' shared_state
      = (to_all shared_state shared_channel
          (reply_kick (sample_client 4 ''ada'') (sample_client 5 ''bob'') ''#lobby'' ''bye''),
         leave_channel ''#lobby'' 2 shared_channel shared_state)"
    by (simp add: kick_spec_def sample_client_def [of 4])
  moreover have "to_all shared_state shared_channel t = [reply_to t 4, reply_to t 5]" for t
    by (simp add: to_all_def fd_of_def sample_client_def)
  moreover have "map_option members (findChannel ''#lobby'' (leave_channel ''#lobby'' 2 shared_channel shared_state))
      = Some [1]"
    by (simp add: findChannel_leave set_erase_def)
  ultimately show ?thesis
    using kick_refines_spec [OF state_ok_shared c, of 4 "''#lobby''" "''bye''" "''bob''" CommandResult] by simp
qed

theorem kick_effect_witness:
  "\<exists>r s'. handleKick 4 \<lparr>command = ''KICK'', params = [''#lobby'', ''bob,ada'']\<rparr> shared_state = Some (r, s')
    \<and> state_ok s' \<and> findChannel ''#lobby'' s' = None"
proof -
  have "message_lf_free \<lparr>command = ''KICK'', params = [''#lobby'', ''bob,ada'']\<rparr>"
    by (simp add: message_lf_free_def lf_simps)
  from kick_effect [OF state_ok_shared this, of 4 shared_channel]
  show ?thesis by (auto simp: unless_empty_def drop_all_def)
qed

end
