(* ===== verification/Handlers_Mode.thy ===== *)
theory Handlers_Mode
  imports Handlers_Kick
begin

section \<open>MODE\<close>

text \<open>
  \<open>handleMode.cpp\<close>: the mode query, and the loop that applies a mode string character by
  character, taking parameters as it goes, and announces what it changed. The loop's local
  variables are the record \<open>mode_run\<close>; the channel it works on is threaded through the record
  and is the entry of \<open>_channels\<close> again when the loop ends (nothing the loop reads in between
  looks at that entry).
\<close>

subsection \<open>\<open>std::atoi\<close>\<close>

text \<open>
  White space, an optional sign, digits, up to the first other character. Like the C libraries of
  the two supported platforms, \<open>atoi\<close> is \<open>(int) strtol (s, NULL, 10)\<close>: the value is clamped to the
  64-bit \<open>long\<close> and then truncated to 32 bits.
\<close>

definition digit_value :: "char \<Rightarrow> int" where
  "digit_value c = int (byte c) - 48"

primrec digits_value :: "int \<Rightarrow> string \<Rightarrow> int" where
  "digits_value acc [] = acc"
| "digits_value acc (c # cs) = (if isdigit c then digits_value (acc * 10 + digit_value c) cs else acc)"

definition strtol :: "string \<Rightarrow> int" where
  "strtol s =
     (let s = dropWhile isspace s;
          v = (if s \<noteq> '''' \<and> hd s = CHR ''-'' then - digits_value 0 (tl s)
               else if s \<noteq> '''' \<and> hd s = CHR ''+'' then digits_value 0 (tl s)
               else digits_value 0 s)
      in max (- (2 ^ 63)) (min (2 ^ 63 - 1) v))"

definition atoi :: "string \<Rightarrow> c_int" where
  "atoi s = word_of_int (strtol s)"

subsection \<open>The loop\<close>

record mode_run =
  runChannel :: channel
  adding :: bool
  paramIndex :: nat
  finalModes :: string
  finalParams :: string
  lastSign :: char
  runResult :: command_result

text \<open>One pass through the \<open>switch\<close>: \<open>modeChanged\<close>, \<open>modeParam\<close> and the new variables.\<close>

definition run_modes :: "(channel_modes \<Rightarrow> channel_modes) \<Rightarrow> mode_run \<Rightarrow> mode_run" where
  "run_modes f run =
     run\<lparr>runChannel := (runChannel run)\<lparr>chModes := f (chModes (runChannel run))\<rparr>\<rparr>"

definition mode_i :: "mode_run \<Rightarrow> bool \<times> string \<times> mode_run" where
  "mode_i run =
     (let modes = getModes (runChannel run) in
      if adding run \<and> \<not> isInviteOnly modes then (True, '''', run_modes setInviteOnly run)
      else if \<not> adding run \<and> isInviteOnly modes then (True, '''', run_modes unsetInviteOnly run)
      else (False, '''', run))"

definition mode_t :: "mode_run \<Rightarrow> bool \<times> string \<times> mode_run" where
  "mode_t run =
     (let modes = getModes (runChannel run) in
      if adding run \<and> \<not> isTopicRestricted modes then (True, '''', run_modes setTopicRestricted run)
      else if \<not> adding run \<and> isTopicRestricted modes then (True, '''', run_modes unsetTopicRestricted run)
      else (False, '''', run))"

text \<open>\<open>msg.getSingleParam (paramIndex++)\<close>.\<close>

definition next_param :: "message \<Rightarrow> mode_run \<Rightarrow> (string \<times> mode_run) option" where
  "next_param msg run =
     do {
       modeParam \<leftarrow> getSingleParam msg (paramIndex run);
       Some (modeParam, run\<lparr>paramIndex := paramIndex run + 1\<rparr>)
     }"

definition mode_k :: "message \<Rightarrow> mode_run \<Rightarrow> (bool \<times> string \<times> mode_run) option" where
  "mode_k msg run =
     (if adding run then
        (if paramIndex run < getParamCount msg then do {
           (modeParam, run) \<leftarrow> next_param msg run;
           Some (True, modeParam, run_modes (setChannelProtected modeParam) run)
         }
         else Some (False, '''', run))
      else if isChannelProtected (getModes (runChannel run)) then
        (let run = run_modes unsetChannelProtected run in
         Some (True, '''',
           if paramIndex run < getParamCount msg then run\<lparr>paramIndex := paramIndex run + 1\<rparr> else run))
      else Some (False, '''', run))"

definition mode_l :: "message \<Rightarrow> mode_run \<Rightarrow> (bool \<times> string \<times> mode_run) option" where
  "mode_l msg run =
     (if adding run then
        (if paramIndex run < getParamCount msg then do {
           (modeParam, run) \<leftarrow> next_param msg run;
           let limit = atoi modeParam;
           Some (if 0 <s limit then (True, modeParam, run_modes (setMemberLimit limit) run)
                 else (False, modeParam, run))
         }
         else Some (False, '''', run))
      else if isMemberLimited (getModes (runChannel run))
      then Some (True, '''', run_modes unsetMemberLimit run)
      else Some (False, '''', run))"

definition mode_o ::
  "int \<Rightarrow> client \<Rightarrow> string \<Rightarrow> message \<Rightarrow> server_state \<Rightarrow> mode_run \<Rightarrow> (bool \<times> string \<times> mode_run) option" where
  "mode_o fd c target msg s run =
     (if paramIndex run < getParamCount msg then do {
        (modeParam, run) \<leftarrow> next_param msg run;
        let targetClient = getClientByNick modeParam s;
        if targetClient = NULL
        then Some (False, modeParam,
               run\<lparr>runResult := addReply fd (numeric c ''401'' modeParam) (runResult run)\<rparr>)
        else if isChannelMember targetClient (runChannel run) then
          (let (changed, channel) =
             (if adding run then addOperator targetClient (runChannel run)
              else removeOperator targetClient (runChannel run))
           in Some (changed, modeParam, run\<lparr>runChannel := channel\<rparr>))
        else Some (False, modeParam,
               run\<lparr>runResult := addReply fd (numeric c ''441'' (modeParam @ '' '' @ target)) (runResult run)\<rparr>)
      }
      else Some (False, '''', run))"

definition mode_switch ::
  "int \<Rightarrow> client \<Rightarrow> string \<Rightarrow> message \<Rightarrow> server_state \<Rightarrow> char \<Rightarrow> mode_run
    \<Rightarrow> (bool \<times> string \<times> mode_run) option" where
  "mode_switch fd c target msg s x run =
     (if x = CHR ''i'' then Some (mode_i run)
      else if x = CHR ''t'' then Some (mode_t run)
      else if x = CHR ''k'' then mode_k msg run
      else if x = CHR ''l'' then mode_l msg run
      else if x = CHR ''o'' then mode_o fd c target msg s run
      else Some (False, '''', run\<lparr>runResult := addReply fd (numeric c ''472'' [x]) (runResult run)\<rparr>))"

text \<open>\<open>if (modeChanged) { ... }\<close>.\<close>

definition note_change :: "char \<Rightarrow> string \<Rightarrow> mode_run \<Rightarrow> mode_run" where
  "note_change x modeParam run =
     (let currentSign = (if adding run then CHR ''+'' else CHR ''-'');
          run = (if currentSign \<noteq> lastSign run
                 then run\<lparr>finalModes := finalModes run @ [currentSign], lastSign := currentSign\<rparr> else run);
          run = run\<lparr>finalModes := finalModes run @ [x]\<rparr>
      in if modeParam \<noteq> '''' then run\<lparr>finalParams := finalParams run @ '' '' @ modeParam\<rparr> else run)"

definition mode_step ::
  "int \<Rightarrow> client \<Rightarrow> string \<Rightarrow> message \<Rightarrow> server_state \<Rightarrow> char \<Rightarrow> mode_run \<Rightarrow> mode_run option" where
  "mode_step fd c target msg s x run =
     (if x = CHR ''+'' then Some (run\<lparr>adding := True\<rparr>)
      else if x = CHR ''-'' then Some (run\<lparr>adding := False\<rparr>)
      else do {
        (modeChanged, modeParam, run) \<leftarrow> mode_switch fd c target msg s x run;
        Some (if modeChanged then note_change x modeParam run else run)
      })"

definition mode_init :: "channel \<Rightarrow> command_result \<Rightarrow> mode_run" where
  "mode_init channel result =
     \<lparr>runChannel = channel, adding = True, paramIndex = 2, finalModes = '''', finalParams = '''',
      lastSign = CHR 0x00, runResult = result\<rparr>"

subsection \<open>The handler\<close>

definition current_modes :: "channel_modes \<Rightarrow> string" where
  "current_modes modes =
     ''+'' @ (if isInviteOnly modes then ''i'' else '''') @ (if isTopicRestricted modes then ''t'' else '''')
       @ (if isChannelProtected modes then ''k'' else '''') @ (if isMemberLimited modes then ''l'' else '''')"

text \<open>\<open>if (!finalModes.empty ()) { ... }\<close>.\<close>

definition announce_modes ::
  "client \<Rightarrow> string \<Rightarrow> server_state \<Rightarrow> mode_run \<Rightarrow> command_result option" where
  "announce_modes c target s run =
     (if finalModes run \<noteq> []
      then
        (let fullModeStr = finalModes run @ finalParams run;
             broadcastMsg = reply_mode c target fullModeStr
         in broadcastToChannel (runResult run) (runChannel run) broadcastMsg NULL s)
      else Some (runResult run))"

definition handleMode :: handler_fun where
  "handleMode fd msg s =
     (let result = CommandResult; client = getClientByFd fd s in
      if client = NULL then Some (result, s)
      else do {
        c \<leftarrow> deref s client;
        if getParamCount msg < 1 then Some (addReply fd (numeric c ''461'' ''MODE'') result, s)
        else do {
          target \<leftarrow> getSingleParam msg 0;
          (case findChannel target s of
             None \<Rightarrow> Some (addReply fd (numeric c ''403'' target) result, s)
           | Some channel \<Rightarrow>
               if getParamCount msg = 1
               then Some (addReply fd
                      (numeric c ''324'' (target @ '' '' @ current_modes (getModes channel))) result, s)
               else if \<not> isChannelMember client channel
               then Some (addReply fd (numeric c ''442'' target) result, s)
               else if \<not> isOperator client channel
               then Some (addReply fd (numeric c ''482'' target) result, s)
               else do {
                 modeString \<leftarrow> getSingleParam msg 1;
                 run \<leftarrow> for_each (mode_step fd c target msg s) modeString (mode_init channel result);
                 let s = putChannel target (runChannel run) s;
                 result \<leftarrow> announce_modes c target s run;
                 Some (result, s)
               })
        }
      })"

subsection \<open>What the loop keeps\<close>

text \<open>
  Only the modes and the operators of the channel change, every reply is acceptable, and as long
  as nothing is announced nothing has changed.
\<close>

definition same_room :: "channel \<Rightarrow> channel \<Rightarrow> bool" where
  "same_room ch ch' \<longleftrightarrow>
     chName ch' = chName ch \<and> chTopic ch' = chTopic ch \<and> members ch' = members ch
     \<and> invited ch' = invited ch"

definition mode_core :: "int \<Rightarrow> server_state \<Rightarrow> channel \<Rightarrow> mode_run \<Rightarrow> bool" where
  "mode_core fd s ch run \<longleftrightarrow>
     channel_ok (runChannel run) \<and> same_room ch (runChannel run)
     \<and> lf_free (finalModes run) \<and> lf_free (finalParams run) \<and> acc_ok fd s (runResult run, s)"

definition mode_inv :: "int \<Rightarrow> server_state \<Rightarrow> channel \<Rightarrow> mode_run \<Rightarrow> bool" where
  "mode_inv fd s ch run \<longleftrightarrow>
     mode_core fd s ch run \<and> (finalModes run = '''' \<longrightarrow> runChannel run = ch)"

text \<open>What one \<open>switch\<close> leaves alone.\<close>

definition switch_frame :: "mode_run \<Rightarrow> bool \<times> string \<times> mode_run \<Rightarrow> bool" where
  "switch_frame run out \<longleftrightarrow>
     (case out of (changed, prm, run') \<Rightarrow>
        finalModes run' = finalModes run \<and> finalParams run' = finalParams run
        \<and> adding run' = adding run \<and> lastSign run' = lastSign run
        \<and> (\<not> changed \<longrightarrow> runChannel run' = runChannel run) \<and> lf_free prm)"

lemma next_param_result:
  "paramIndex run < getParamCount m \<Longrightarrow>
    next_param m run = Some (params m ! paramIndex run, run\<lparr>paramIndex := paramIndex run + 1\<rparr>)"
  by (simp add: next_param_def getSingleParam_def getParamCount_def)

lemma mode_core_modes:
  "mode_core fd s ch run \<Longrightarrow> modes_ok (f (chModes (runChannel run))) \<Longrightarrow> mode_core fd s ch (run_modes f run)"
  by (simp add: mode_core_def run_modes_def channel_ok_modes same_room_def)

lemma mode_core_index [simp]: "mode_core fd s ch (run\<lparr>paramIndex := i\<rparr>) = mode_core fd s ch run"
  by (simp add: mode_core_def)

lemma mode_core_reply:
  "mode_core fd s ch run \<Longrightarrow> getClientByFd fd s \<noteq> NULL \<Longrightarrow> client_ok c \<Longrightarrow> code \<in> set known_codes \<Longrightarrow>
    lf_free t \<Longrightarrow> mode_core fd s ch (run\<lparr>runResult := addReply fd (numeric c code t) (runResult run)\<rparr>)"
  unfolding mode_core_def using acc_ok_numeric [of fd s "runResult run" s fd c code t] by simp

lemma core_modes_ok: "mode_core fd s ch run \<Longrightarrow> modes_ok (chModes (runChannel run))"
  by (simp add: mode_core_def channel_ok_def)

lemma core_channel:
  "mode_core fd s ch run \<Longrightarrow> channel_ok ch' \<Longrightarrow> same_room (runChannel run) ch' \<Longrightarrow>
    mode_core fd s ch (run\<lparr>runChannel := ch'\<rparr>)"
  by (auto simp: mode_core_def same_room_def)

lemma run_modes_simps [simp]:
  "finalModes (run_modes f run) = finalModes run" "finalParams (run_modes f run) = finalParams run"
  "adding (run_modes f run) = adding run" "lastSign (run_modes f run) = lastSign run"
  "runResult (run_modes f run) = runResult run" "paramIndex (run_modes f run) = paramIndex run"
  "runChannel (run_modes f run) = (runChannel run)\<lparr>chModes := f (chModes (runChannel run))\<rparr>"
  by (simp_all add: run_modes_def)

definition switch_ok :: "int \<Rightarrow> server_state \<Rightarrow> channel \<Rightarrow> mode_run \<Rightarrow> (bool \<times> string \<times> mode_run) option \<Rightarrow> bool" where
  "switch_ok fd s ch run out =
     (case out of None \<Rightarrow> False
      | Some (b, prm, run') \<Rightarrow> mode_core fd s ch run' \<and> switch_frame run (b, prm, run'))"

lemma mode_i_ok: "mode_core fd s ch run \<Longrightarrow> switch_ok fd s ch run (Some (mode_i run))"
  by (auto simp: switch_ok_def mode_i_def switch_frame_def lf_simps Let_def
      intro!: mode_core_modes modes_ok_intros dest: core_modes_ok)

lemma mode_t_ok: "mode_core fd s ch run \<Longrightarrow> switch_ok fd s ch run (Some (mode_t run))"
  by (auto simp: switch_ok_def mode_t_def switch_frame_def lf_simps Let_def
      intro!: mode_core_modes modes_ok_intros dest: core_modes_ok)

lemma next_lf_free:
  "message_lf_free m \<Longrightarrow> paramIndex run < getParamCount m \<Longrightarrow> lf_free (params m ! paramIndex run)"
  by (simp add: param_lf_free getParamCount_def)

lemma mode_k_ok:
  "mode_core fd s ch run \<Longrightarrow> message_lf_free m \<Longrightarrow> switch_ok fd s ch run (mode_k m run)"
  using core_modes_ok [of fd s ch run]
  by (simp add: switch_ok_def mode_k_def switch_frame_def next_param_result next_lf_free lf_simps
      mode_core_modes modes_ok_intros Let_def)

lemma mode_l_ok:
  "mode_core fd s ch run \<Longrightarrow> message_lf_free m \<Longrightarrow> switch_ok fd s ch run (mode_l m run)"
  using core_modes_ok [of fd s ch run]
  by (simp add: switch_ok_def mode_l_def switch_frame_def next_param_result next_lf_free lf_simps
      mode_core_modes modes_ok_intros Let_def)

lemma mode_o_ok:
  assumes core: "mode_core fd s ch run" and m: "message_lf_free m" and fd: "getClientByFd fd s \<noteq> NULL"
    and c: "client_ok c" and t: "lf_free target"
  shows "switch_ok fd s ch run (mode_o fd c target m s run)"
proof (cases "paramIndex run < getParamCount m")
  case False
  with core show ?thesis by (simp add: mode_o_def switch_ok_def switch_frame_def lf_simps)
next
  case True
  let ?prm = "params m ! paramIndex run" and ?run = "run\<lparr>paramIndex := paramIndex run + 1\<rparr>"
  note lf = next_lf_free [OF m True]
  have core': "mode_core fd s ch ?run" using core by simp
  have ok: "channel_ok (runChannel run)" using core by (simp add: mode_core_def)
  let ?q = "getClientByNick ?prm s"
  have add: "channel_ok (snd (addOperator ?q (runChannel run)))" if "?q \<in> set (members (runChannel run))"
    using channel_ok_addOperator [OF ok that] .
  have rem: "channel_ok (snd (removeOperator ?q (runChannel run)))"
    using channel_ok_removeOperator [OF ok] .
  have erase: "set_erase q xs = xs" if "q \<notin> set xs" for q and xs :: "ptr std_set"
    using that by (auto simp: set_erase_def filter_id_conv)
  have room: "same_room (runChannel run) (snd (addOperator ?q (runChannel run)))"
    "same_room (runChannel run) (snd (removeOperator ?q (runChannel run)))"
    by (simp_all add: same_room_def add_results remove_results)
  show ?thesis
    using True lf core add rem room erase
      mode_core_reply [OF core' fd c, of "''401''" ?prm]
      mode_core_reply [OF core' fd c, of "''441''" "?prm @ '' '' @ target"] t
      core_channel [OF core', of "snd (addOperator ?q (runChannel run))"]
      core_channel [OF core', of "snd (removeOperator ?q (runChannel run))"]
    by (simp add: mode_o_def switch_ok_def switch_frame_def next_param_result member_tests
        add_results remove_results lf_simps Let_def)
qed

lemma mode_switch_ok:
  assumes core: "mode_core fd s ch run" and m: "message_lf_free m" and fd: "getClientByFd fd s \<noteq> NULL"
    and c: "client_ok c" and t: "lf_free target" and x: "x \<noteq> LF"
  shows "switch_ok fd s ch run (mode_switch fd c target m s x run)"
proof -
  have "mode_core fd s ch (run\<lparr>runResult := addReply fd (numeric c ''472'' [x]) (runResult run)\<rparr>)"
    using mode_core_reply [OF core fd c, of "''472''" "[x]"] x by (simp add: lf_simps)
  then have "switch_ok fd s ch run
      (Some (False, '''', run\<lparr>runResult := addReply fd (numeric c ''472'' [x]) (runResult run)\<rparr>))"
    by (simp add: switch_ok_def switch_frame_def lf_simps)
  with core show ?thesis
    by (simp add: mode_switch_def mode_i_ok mode_t_ok mode_k_ok mode_l_ok mode_o_ok m fd c t)
qed

lemma note_change_fields [simp]:
  "runChannel (note_change x prm run) = runChannel run" "adding (note_change x prm run) = adding run"
  "runResult (note_change x prm run) = runResult run" "finalModes (note_change x prm run) \<noteq> ''''"
  by (simp_all add: note_change_def Let_def)

lemma note_change_core:
  "mode_core fd s ch run \<Longrightarrow> x \<noteq> LF \<Longrightarrow> lf_free prm \<Longrightarrow> mode_core fd s ch (note_change x prm run)"
  by (auto simp: mode_core_def note_change_def lf_simps Let_def)

lemma mode_step_ok:
  assumes inv: "mode_inv fd s ch run" and rest: "message_lf_free m" "getClientByFd fd s \<noteq> NULL"
    "client_ok c" "lf_free target" "x \<noteq> LF"
  shows "\<exists>run'. mode_step fd c target m s x run = Some run' \<and> mode_inv fd s ch run'"
proof (cases "x \<in> {CHR ''+'', CHR ''-''}")
  case True
  with inv show ?thesis by (auto simp: mode_step_def mode_inv_def mode_core_def)
next
  case False
  have core: "mode_core fd s ch run" using inv by (simp add: mode_inv_def)
  obtain b prm run' where sw: "mode_switch fd c target m s x run = Some (b, prm, run')"
      "mode_core fd s ch run'" "switch_frame run (b, prm, run')"
    using mode_switch_ok [OF core rest] by (auto simp: switch_ok_def split: option.splits)
  then have "mode_core fd s ch (note_change x prm run')"
    using rest(5) by (intro note_change_core) (auto simp: switch_frame_def)
  with False sw inv show ?thesis
    by (cases b) (simp_all add: mode_step_def mode_inv_def switch_frame_def)
qed

lemma mode_loop:
  assumes "mode_inv fd s ch run" and "message_lf_free m" "getClientByFd fd s \<noteq> NULL"
    "client_ok c" "lf_free target" "lf_free cs"
  shows "\<exists>run'. for_each (mode_step fd c target m s) cs run = Some run' \<and> mode_inv fd s ch run'"
proof (rule for_each_rule [where I = "mode_inv fd s ch"])
  fix x r
  assume x: "x \<in> set cs" and inv: "mode_inv fd s ch r"
  from x assms(6) have "x \<noteq> LF" by (auto simp: lf_free_def)
  with inv assms(2-5) show "\<exists>r'. mode_step fd c target m s x r = Some r' \<and> mode_inv fd s ch r'"
    by (rule mode_step_ok)
qed (rule assms(1))

subsection \<open>The whole command\<close>

text \<open>The channel a \<open>MODE\<close> command may change: it exists, and the issuer is an operator of it.\<close>

definition mode_target :: "ptr \<Rightarrow> string list \<Rightarrow> server_state \<Rightarrow> channel option" where
  "mode_target p ps s =
     (if length ps < 2 then None
      else
        (case findChannel (ps ! 0) s of
           None \<Rightarrow> None
         | Some ch \<Rightarrow> if p \<in> set (operators ch) then Some ch else None))"

definition mode_answer :: "ptr \<Rightarrow> client \<Rightarrow> string list \<Rightarrow> server_state \<Rightarrow> string" where
  "mode_answer p c ps s =
     (if ps = [] then numeric c ''461'' ''MODE''
      else
        (case findChannel (ps ! 0) s of
           None \<Rightarrow> numeric c ''403'' (ps ! 0)
         | Some ch \<Rightarrow>
             if length ps = 1 then numeric c ''324'' (ps ! 0 @ '' '' @ current_modes (chModes ch))
             else if p \<notin> set (members ch) then numeric c ''442'' (ps ! 0)
             else numeric c ''482'' (ps ! 0)))"

lemma mode_targetD:
  "mode_target p ps s = Some ch \<Longrightarrow> 2 \<le> length ps \<and> findChannel (ps ! 0) s = Some ch \<and> p \<in> set (operators ch)"
  by (auto simp: mode_target_def split: if_splits option.splits)

lemma handleMode_refused:
  assumes "getClientByFd fd s = p" "p \<noteq> NULL" "deref s p = Some c" "mode_target p (params m) s = None"
  shows "handleMode fd m s = Some (addReply fd (mode_answer p c (params m) s) CommandResult, s)"
proof (cases "length (params m) < 2")
  case True
  with assms show ?thesis
    by (auto simp: handleMode_def getParamCount_def getSingleParam_def mode_answer_def member_tests
        less_2_cases_iff Let_def split: option.split)
next
  case False
  then have "params m \<noteq> []" "length (params m) \<noteq> 1" by auto
  with False assms show ?thesis
    by (auto simp: handleMode_def getParamCount_def getSingleParam_def mode_answer_def mode_target_def
        member_tests Let_def split: option.split if_splits)
qed

lemma current_modes_lf_free: "lf_free (current_modes m)"
  by (simp add: current_modes_def lf_simps)

lemma mode_answer_ok:
  assumes "acc_ok fd s (r, s)" "getClientByFd fd s \<noteq> NULL" "client_ok c" "message_lf_free m"
  shows "acc_ok fd s (addReply fd (mode_answer p c (params m) s) r, s)"
  using assms param_lf_free [OF assms(4), of 0]
  by (auto simp: mode_answer_def lf_simps current_modes_lf_free split: option.split intro!: acc_ok_numeric)

lemma mode_inv_init:
  "channel_ok ch \<Longrightarrow> acc_ok fd s (r, s) \<Longrightarrow> mode_inv fd s ch (mode_init ch r)"
  by (simp add: mode_inv_def mode_core_def mode_init_def same_room_def lf_simps)

lemma same_room_entry:
  "entry_ok s n ch \<Longrightarrow> same_room ch ch' \<Longrightarrow> channel_ok ch' \<Longrightarrow> entry_ok s n ch'"
  by (simp add: entry_ok_def same_room_def)

definition mode_outcome :: "message \<Rightarrow> client \<Rightarrow> server_state \<Rightarrow> channel \<Rightarrow> mode_run \<Rightarrow> command_result" where
  "mode_outcome m c s ch run =
     (if finalModes run = '''' then runResult run
      else addReplies (to_all s ch (reply_mode c (params m ! 0) (finalModes run @ finalParams run)))
        (runResult run))"

lemma handleMode_run:
  assumes ok: "state_ok s" and m: "message_lf_free m"
    and p: "getClientByFd fd s = p" "p \<noteq> NULL" and c: "deref s p = Some c"
    and t: "mode_target p (params m) s = Some ch"
  obtains run where
    "for_each (mode_step fd c (params m ! 0) m s) (params m ! 1) (mode_init ch CommandResult) = Some run"
    "mode_inv fd s ch run"
    "handleMode fd m s = Some (mode_outcome m c s ch run, putChannel (params m ! 0) (runChannel run) s)"
    "state_ok (putChannel (params m ! 0) (runChannel run) s)"
proof -
  note d = state_ok_dir [OF ok]
  note t' = mode_targetD [OF t]
  have e: "entry_ok s (params m ! 0) ch" "members ch \<noteq> []" using findChannel_entry [OF ok] t' by blast+
  have chok: "channel_ok ch" and ops: "p \<in> set (members ch)" "p \<in> set (operators ch)"
    using e(1) t' by (auto simp: entry_ok_def channel_ok_def)
  note lf = params2_lf_free [OF m] t'
  have cok: "client_ok c" using live_client_ok [OF d c] .
  have "getClientByFd fd s \<noteq> NULL" using p by simp
  from mode_loop [OF mode_inv_init [OF chok acc_ok_init [OF ok]] m this cok]
  obtain run where run: "for_each (mode_step fd c (params m ! 0) m s) (params m ! 1)
      (mode_init ch CommandResult) = Some run" "mode_inv fd s ch run"
    using params2_lf_free [OF m] t' by blast
  then have room: "same_room ch (runChannel run)" "channel_ok (runChannel run)"
    by (simp_all add: mode_inv_def mode_core_def)
  have e': "entry_ok s (params m ! 0) (runChannel run)" using same_room_entry [OF e(1) room] .
  have ok': "state_ok (putChannel (params m ! 0) (runChannel run) s)"
    using ok e' e(2) room(1) by (intro state_ok_putChannel) (simp_all add: same_room_def)
  have bc: "broadcastToChannel r (runChannel run) x NULL (putChannel (params m ! 0) (runChannel run) s)
      = Some (addReplies (to_all s ch x) r)" for r x
  proof -
    have "to_all (putChannel (params m ! 0) (runChannel run) s) (runChannel run) x = to_all s ch x"
      using room(1) by (intro to_all_cong) (simp_all add: same_room_def)
    then show ?thesis
      using broadcast_all [OF state_ok_dir [OF ok'], of "runChannel run" r x] entry_ok_live [OF e'] by simp
  qed
  have len: "params m \<noteq> []" "length (params m) \<noteq> 1" "1 < length (params m)" "0 < length (params m)"
    using t' by auto
  have "handleMode fd m s = Some (mode_outcome m c s ch run, putChannel (params m ! 0) (runChannel run) s)"
    using p c t' len ops run(1) bc
    by (simp add: handleMode_def announce_modes_def getParamCount_def getSingleParam_def member_tests mode_outcome_def Let_def)
  with run ok' that show ?thesis by blast
qed

lemma mode_outcome_ok:
  assumes inv: "mode_inv fd s ch run" and e: "entry_ok s n ch" and ok: "state_ok s"
    and c: "client_ok c" and lf: "lf_free (params m ! 0)"
  shows "replies_ok s (mode_outcome m c s ch run)" "\<not> disconnect (mode_outcome m c s ch run)"
proof -
  have core: "acc_ok fd s (runResult run, s)" "lf_free (finalModes run)" "lf_free (finalParams run)"
    using inv by (simp_all add: mode_inv_def mode_core_def)
  have "one_line (reply_mode c (params m ! 0) (finalModes run @ finalParams run))"
    using reply_lines(6) [OF c c lf] core by (simp add: lf_simps)
  with core show "replies_ok s (mode_outcome m c s ch run)"
    using to_all_ok [OF state_ok_dir [OF ok] _ _ e] by (simp add: mode_outcome_def acc_ok_def)
  show "\<not> disconnect (mode_outcome m c s ch run)"
    using core by (simp add: mode_outcome_def acc_ok_def)
qed

lemma handleMode_contract:
  assumes ok: "state_ok s" and m: "message_lf_free m"
  shows "outcome_ok fd s (handleMode fd m s)"
  using ok
proof (cases rule: fd_cases [where fd = fd])
  case absent
  with ok show ?thesis by (simp add: handleMode_def acc_ok_init)
next
  case (present c)
  show ?thesis
  proof (cases "mode_target (getClientByFd fd s) (params m) s")
    case None
    with handleMode_refused [OF refl present(1,2) None]
      mode_answer_ok [OF acc_ok_init [OF ok] present(1,4) m] show ?thesis by simp
  next
    case (Some ch)
    obtain run where run: "mode_inv fd s ch run"
        "handleMode fd m s = Some (mode_outcome m c s ch run, putChannel (params m ! 0) (runChannel run) s)"
        "state_ok (putChannel (params m ! 0) (runChannel run) s)"
      by (rule handleMode_run [OF ok m refl present(1,2) Some])
    have "entry_ok s (params m ! 0) ch" "lf_free (params m ! 0)"
      using mode_targetD [OF Some] findChannel_entry [OF ok] params2_lf_free [OF m] by blast+
    with mode_outcome_ok [OF run(1) _ ok present(4)] run(2,3) show ?thesis
      by (simp add: acc_ok_def)
  qed
qed

interpretation mode_cmd: total_handler handleMode
  by unfold_locales (rule handleMode_contract)

subsection \<open>The final flags\<close>

text \<open>
  What a mode string says about the flag \<open>x\<close>: the sign in force at its last occurrence (\<open>+\<close> at
  the start), and the old value if it does not occur.
\<close>

fun flag_spec :: "char \<Rightarrow> string \<Rightarrow> bool \<Rightarrow> bool \<Rightarrow> bool" where
  "flag_spec x [] add old = old"
| "flag_spec x (y # ys) add old =
     (if y = CHR ''+'' then flag_spec x ys True old
      else if y = CHR ''-'' then flag_spec x ys False old
      else flag_spec x ys add (if y = x then add else old))"

abbreviation (input) run_i :: "mode_run \<Rightarrow> bool" where
  "run_i run \<equiv> inviteOnly (chModes (runChannel run))"

abbreviation (input) run_t :: "mode_run \<Rightarrow> bool" where
  "run_t run \<equiv> topicRestricted (chModes (runChannel run))"

lemma operator_modes [simp]:
  "chModes (snd (addOperator p ch)) = chModes ch" "chModes (snd (removeOperator p ch)) = chModes ch"
  by (simp_all add: add_results remove_results)

lemma mode_l_flags:
  "mode_l m run = Some (b, prm, run') \<Longrightarrow> run_i run' = run_i run \<and> run_t run' = run_t run \<and> adding run' = adding run"
  by (auto simp: mode_l_def next_param_result mode_defs Let_def split: if_splits)

lemma mode_k_flags:
  "mode_k m run = Some (b, prm, run') \<Longrightarrow> run_i run' = run_i run \<and> run_t run' = run_t run \<and> adding run' = adding run"
  by (auto simp: mode_k_def next_param_result mode_defs Let_def split: if_splits)

lemma mode_o_flags:
  "mode_o fd c t m s run = Some (b, prm, run') \<Longrightarrow>
    run_i run' = run_i run \<and> run_t run' = run_t run \<and> adding run' = adding run"
  by (auto simp: mode_o_def next_param_result add_results remove_results Let_def split: if_splits)

lemma mode_it_flags:
  "mode_i run = (b, prm, run') \<Longrightarrow> run_i run' = adding run \<and> run_t run' = run_t run \<and> adding run' = adding run"
  "mode_t run = (b, prm, run') \<Longrightarrow> run_i run' = run_i run \<and> run_t run' = adding run \<and> adding run' = adding run"
  by (auto simp: mode_i_def mode_t_def mode_defs Let_def split: if_splits)

lemma mode_switch_flags:
  assumes "mode_switch fd c t m s x run = Some (b, prm, run')"
  shows "run_i run' = (if x = CHR ''i'' then adding run else run_i run)
    \<and> run_t run' = (if x = CHR ''t'' then adding run else run_t run) \<and> adding run' = adding run"
  using assms mode_k_flags [of m run b prm run'] mode_l_flags [of m run b prm run']
    mode_o_flags [of fd c t m s run b prm run'] mode_it_flags [of run b prm run']
  by (auto simp: mode_switch_def split: if_splits)

lemma mode_step_flags:
  assumes "mode_step fd c t m s x run = Some run'"
  shows "adding run' = (if x = CHR ''+'' then True else if x = CHR ''-'' then False else adding run)"
    "run_i run' = (if x = CHR ''i'' then adding run else run_i run)"
    "run_t run' = (if x = CHR ''t'' then adding run else run_t run)"
proof -
  consider "x = CHR ''+''" | "x = CHR ''-''"
    | (other) "x \<noteq> CHR ''+''" "x \<noteq> CHR ''-''" by blast
  then have "adding run' = (if x = CHR ''+'' then True else if x = CHR ''-'' then False else adding run)
    \<and> run_i run' = (if x = CHR ''i'' then adding run else run_i run)
    \<and> run_t run' = (if x = CHR ''t'' then adding run else run_t run)"
  proof cases
    case other
    with assms obtain b prm r1 where sw: "mode_switch fd c t m s x run = Some (b, prm, r1)"
        "run' = (if b then note_change x prm r1 else r1)"
      by (auto simp: mode_step_def split: Option.bind_splits)
    with mode_switch_flags [OF sw(1)] other show ?thesis by simp
  qed (use assms in \<open>auto simp: mode_step_def\<close>)
  then show "adding run' = (if x = CHR ''+'' then True else if x = CHR ''-'' then False else adding run)"
    "run_i run' = (if x = CHR ''i'' then adding run else run_i run)"
    "run_t run' = (if x = CHR ''t'' then adding run else run_t run)" by blast+
qed

lemma mode_loop_flags:
  "for_each (mode_step fd c t m s) cs run = Some run' \<Longrightarrow>
    run_i run' = flag_spec CHR ''i'' cs (adding run) (run_i run)
    \<and> run_t run' = flag_spec CHR ''t'' cs (adding run) (run_t run)"
proof (induction cs arbitrary: run)
  case Nil
  then show ?case by simp
next
  case (Cons x cs)
  then obtain r1 where r1: "mode_step fd c t m s x run = Some r1" "for_each (mode_step fd c t m s) cs r1 = Some run'"
    by (auto split: Option.bind_splits)
  with Cons.IH [OF r1(2)] mode_step_flags [OF r1(1)] show ?case by simp
qed

subsection \<open>Decimal numbers\<close>

definition digit :: "nat \<Rightarrow> char" where
  "digit n = char_of (48 + n)"

fun decimal :: "nat \<Rightarrow> string" where
  "decimal n = (if n < 10 then [digit n] else decimal (n div 10) @ [digit (n mod 10)])"

declare decimal.simps [simp del]

lemma digit_simps [simp]:
  "n < 10 \<Longrightarrow> isdigit (digit n)" "n < 10 \<Longrightarrow> digit_value (digit n) = int n"
  by (simp_all add: digit_def isdigit_def digit_value_def byte_def)

lemma decimal_digits: "list_all isdigit (decimal n)"
  by (induction n rule: decimal.induct) (subst decimal.simps, auto)

lemma digits_value_append:
  "list_all isdigit xs \<Longrightarrow> digits_value acc (xs @ ys) = digits_value (digits_value acc xs) ys"
  by (induction xs arbitrary: acc) simp_all

lemma digits_value_stop: "ys = [] \<or> \<not> isdigit (hd ys) \<Longrightarrow> digits_value acc ys = acc"
  by (cases ys) auto

lemma digits_value_decimal: "digits_value 0 (decimal n) = int n"
proof (induction n rule: decimal.induct)
  case (1 n)
  show ?case
  proof (cases "n < 10")
    case True
    then show ?thesis by (simp add: decimal.simps [of n])
  next
    case False
    have "int (n div 10) * 10 + int (n mod 10) = int n"
      by (metis div_mult_mod_eq mult.commute of_nat_add of_nat_mult of_nat_numeral)
    with False "1.IH" show ?thesis
      by (simp add: decimal.simps [of n] digits_value_append decimal_digits)
  qed
qed

lemma hd_decimal: "decimal n \<noteq> '''' \<and> isdigit (hd (decimal n))"
  by (metis decimal.simps decimal_digits list.distinct(1) append_is_Nil_conv list.exhaust_sel
      list.pred_inject(2))

lemma digit_not_special: "isdigit c \<Longrightarrow> \<not> isspace c \<and> c \<noteq> CHR ''-'' \<and> c \<noteq> CHR ''+''"
  by (auto simp: isdigit_def isspace_def byte_def)

lemma strtol_decimal:
  assumes "int n < 2 ^ 63" and rest: "rest = [] \<or> \<not> isdigit (hd rest)"
  shows "strtol (decimal n @ rest) = int n"
proof -
  obtain x xs where d: "decimal n = x # xs" "isdigit x"
    using hd_decimal [of n] by (cases "decimal n") auto
  then have "digits_value 0 (x # xs @ rest) = int n"
    using digits_value_append [OF decimal_digits, of 0 n rest] digits_value_stop [OF rest, of "int n"]
      digits_value_decimal [of n] by simp
  with d digit_not_special [OF d(2)] assms(1) show ?thesis
    by (simp add: strtol_def Let_def)
qed

lemma sint_of_small: "0 \<le> k \<Longrightarrow> k < 2 ^ 31 \<Longrightarrow> sint (word_of_int k :: c_int) = k"
  by (simp add: sint_word_ariths signed_take_bit_int_eq_self word_of_int_inverse sint_sbintrunc')

subsection \<open>Flags\<close>

text \<open>
  Mode flags. When an operator applies a mode string, the invite-only flag of the channel ends
  as the sign in force at the last \<open>i\<close> of the string says (and is unchanged without one), and the
  same holds for topic restriction and \<open>t\<close>, whatever other letters and parameters surround them.
\<close>

theorem mode_flags:
  assumes ok: "state_ok s" and m: "message_lf_free m" and p: "getClientByFd fd s = p" "p \<noteq> NULL"
    and t: "mode_target p (params m) s = Some ch"
  shows "\<exists>r s' ch'. handleMode fd m s = Some (r, s') \<and> findChannel (params m ! 0) s' = Some ch'
    \<and> inviteOnly (chModes ch') = flag_spec CHR ''i'' (params m ! 1) True (inviteOnly (chModes ch))
    \<and> topicRestricted (chModes ch') = flag_spec CHR ''t'' (params m ! 1) True (topicRestricted (chModes ch))"
proof -
  obtain c where c: "deref s p = Some c"
    using ok by (cases rule: fd_cases [where fd = fd]) (use p in auto)
  obtain run where run: "for_each (mode_step fd c (params m ! 0) m s) (params m ! 1)
        (mode_init ch CommandResult) = Some run"
      "handleMode fd m s = Some (mode_outcome m c s ch run, putChannel (params m ! 0) (runChannel run) s)"
    by (rule handleMode_run [OF ok m p c t])
  from mode_loop_flags [OF run(1)] run(2) show ?thesis by (simp add: mode_init_def)
qed

theorem mode_flags_witness:
  "\<exists>r s' ch'. handleMode 4 \<lparr>command = ''MODE'', params = [''#lobby'', ''+it-i'']\<rparr> shared_state = Some (r, s')
    \<and> findChannel ''#lobby'' s' = Some ch' \<and> \<not> inviteOnly (chModes ch') \<and> topicRestricted (chModes ch')"
proof -
  have m: "message_lf_free \<lparr>command = ''MODE'', params = [''#lobby'', ''+it-i'']\<rparr>"
    by (simp add: message_lf_free_def lf_simps)
  have "mode_target 1 [''#lobby'', ''+it-i''] shared_state = Some shared_channel"
    by (simp add: mode_target_def)
  then show ?thesis
    using mode_flags [OF state_ok_shared m, of 4 1 shared_channel] by auto
qed

end
