(* ===== verification/Dispatcher.thy ===== *)
theory Dispatcher
  imports Handlers_Registration Handlers_Mode
begin

section \<open>CommandDispatcher\<close>

text \<open>
  \<open>CommandDispatcher::dispatch\<close>: the command table, the registration gate and the call of the
  handler, with the properties that hold whatever the command: nothing fails, the state stays
  well formed, and who may change what.
\<close>

subsection \<open>The command table\<close>

text \<open>\<open>e_command\<close>: the enumerators, and the \<open>int\<close> each of them is.\<close>

datatype e_command =
  CMD_INVALID | CMD_PASS | CMD_NICK | CMD_USER | CMD_JOIN | CMD_PRIVMSG | CMD_KICK | CMD_INVITE
  | CMD_TOPIC | CMD_MODE | CMD_PING | CMD_CAP | CMD_COUNT

primrec command_number :: "e_command \<Rightarrow> nat" where
  "command_number CMD_INVALID = 0"
| "command_number CMD_PASS = 1"
| "command_number CMD_NICK = 2"
| "command_number CMD_USER = 3"
| "command_number CMD_JOIN = 4"
| "command_number CMD_PRIVMSG = 5"
| "command_number CMD_KICK = 6"
| "command_number CMD_INVITE = 7"
| "command_number CMD_TOPIC = 8"
| "command_number CMD_MODE = 9"
| "command_number CMD_PING = 10"
| "command_number CMD_CAP = 11"
| "command_number CMD_COUNT = 12"

text \<open>Enumerators compare as the integers they are.\<close>

instantiation e_command :: linorder
begin

definition less_eq_e_command :: "e_command \<Rightarrow> e_command \<Rightarrow> bool" where
  "less_eq_e_command a b \<longleftrightarrow> command_number a \<le> command_number b"

definition less_e_command :: "e_command \<Rightarrow> e_command \<Rightarrow> bool" where
  "less_e_command a b \<longleftrightarrow> command_number a < command_number b"

instance
proof
  fix a b :: e_command
  assume "a \<le> b" "b \<le> a"
  then show "a = b" by (cases a; cases b) (simp_all add: less_eq_e_command_def)
qed (auto simp: less_eq_e_command_def less_e_command_def)

end

definition cmds :: "string list" where
  "cmds = [''INVALID'', ''PASS'', ''NICK'', ''USER'', ''JOIN'', ''PRIVMSG'',
     ''KICK'', ''INVITE'', ''TOPIC'', ''MODE'', ''PING'', ''CAP'']"

text \<open>\<open>for (int i = 0; i < CMD_COUNT; ++i) if (cmds[i] == cmd) return i;\<close>\<close>

function name_search :: "string list \<Rightarrow> string \<Rightarrow> nat \<Rightarrow> nat" where
  "name_search table cmd i =
     (if i < command_number CMD_COUNT
      then (if table ! i = cmd then i else name_search table cmd (i + 1))
      else command_number CMD_INVALID)"
  by pat_completeness auto
termination
  by (relation "measure (\<lambda>(table, cmd, i). command_number CMD_COUNT - i)") auto

declare name_search.simps [simp del]

definition cmdNameToNumber :: "string list \<Rightarrow> string \<Rightarrow> nat" where
  "cmdNameToNumber table cmd = name_search table cmd 0"

subsection \<open>dispatch\<close>

definition gated :: "nat \<Rightarrow> bool" where
  "gated cmdNumber \<longleftrightarrow>
     cmdNumber \<noteq> command_number CMD_PASS \<and> cmdNumber \<noteq> command_number CMD_NICK
     \<and> cmdNumber \<noteq> command_number CMD_USER \<and> cmdNumber \<noteq> command_number CMD_CAP
     \<and> cmdNumber \<noteq> command_number CMD_INVALID"

definition dispatch_switch :: "(nat \<Rightarrow> bool) \<Rightarrow> nat \<Rightarrow> handler_fun" where
  "dispatch_switch mem cmdNumber =
     (if cmdNumber = command_number CMD_PASS then handlePass
      else if cmdNumber = command_number CMD_NICK then handleNick
      else if cmdNumber = command_number CMD_USER then handleUser
      else if cmdNumber = command_number CMD_JOIN then handleJoin mem
      else if cmdNumber = command_number CMD_PRIVMSG then handlePrivMsg
      else if cmdNumber = command_number CMD_KICK then handleKick
      else if cmdNumber = command_number CMD_INVITE then handleInvite
      else if cmdNumber = command_number CMD_TOPIC then handleTopic
      else if cmdNumber = command_number CMD_MODE then handleMode
      else if cmdNumber = command_number CMD_PING then handlePing
      else if cmdNumber = command_number CMD_CAP then handleCap
      else handleInvalidCommand)"

definition dispatch :: "(nat \<Rightarrow> bool) \<Rightarrow> handler_fun" where
  "dispatch mem fd msg s =
     (let cmdName = getCommand msg; cmdNumber = cmdNameToNumber cmds cmdName;
          client = getClientByFd fd s in
      if gated cmdNumber \<and> client \<noteq> NULL then do {
        c \<leftarrow> deref s client;
        if \<not> isRegistered c then Some (addReply fd (numeric c ''451'' cmdName) CommandResult, s)
        else dispatch_switch mem cmdNumber fd msg s
      }
      else dispatch_switch mem cmdNumber fd msg s)"

subsection \<open>The table is searched correctly\<close>

lemma name_search_result:
  "cmdNameToNumber cmds cmd =
     (if cmd = ''PASS'' then 1 else if cmd = ''NICK'' then 2 else if cmd = ''USER'' then 3
      else if cmd = ''JOIN'' then 4 else if cmd = ''PRIVMSG'' then 5 else if cmd = ''KICK'' then 6
      else if cmd = ''INVITE'' then 7 else if cmd = ''TOPIC'' then 8 else if cmd = ''MODE'' then 9
      else if cmd = ''PING'' then 10 else if cmd = ''CAP'' then 11 else 0)"
  by (auto simp: cmdNameToNumber_def name_search.simps cmds_def)

lemma set_cmds: "set cmds = {''INVALID'', ''PASS'', ''NICK'', ''USER'', ''JOIN'', ''PRIVMSG'',
    ''KICK'', ''INVITE'', ''TOPIC'', ''MODE'', ''PING'', ''CAP''}"
  by (simp add: cmds_def)

lemma cmds_length: "length cmds = command_number CMD_COUNT"
  by (simp add: cmds_def)

subsection \<open>The contract of dispatch\<close>

lemma unregistered_cases:
  assumes "state_ok s"
  obtains (gone) "getClientByFd fd s = NULL"
    | (guest) c where "getClientByFd fd s \<noteq> NULL" "deref s (getClientByFd fd s) = Some c"
        "socketFd c = fd" "client_ok c" "\<not> registered c"
    | (user) c where "getClientByFd fd s \<noteq> NULL" "deref s (getClientByFd fd s) = Some c"
        "socketFd c = fd" "client_ok c" "registered c"
  using assms
proof (cases rule: fd_cases [where fd = fd])
  case absent
  then show ?thesis by (rule gone)
next
  case (present c)
  with guest [of c] user [of c] show ?thesis by blast
qed

lemma switch_contract:
  assumes "state_ok s" "message_lf_free m" and "gated n \<longrightarrow> registered_at fd s"
  shows "outcome_ok fd s (dispatch_switch mem n fd m s)"
proof -
  have "outcome_ok fd s (handleJoin mem fd m s)" if "n = command_number CMD_JOIN"
    using assms that by (intro handleJoin_contract) (auto simp: gated_def)
  with handlePass_contract [OF assms(1,2), of fd] handleNick_contract [OF assms(1,2), of fd]
    handleUser_contract [OF assms(1,2), of fd] handlePrivMsg_contract [OF assms(1,2), of fd]
    handleKick_contract [OF assms(1,2), of fd] handleInvite_contract [OF assms(1,2), of fd]
    handleTopic_contract [OF assms(1,2), of fd] handleMode_contract [OF assms(1,2), of fd]
    handlePing_contract [OF assms(1,2), of fd] handleCap_contract [OF assms(1,2), of fd]
    handleInvalidCommand_contract [OF assms(1,2), of fd]
  show ?thesis unfolding dispatch_switch_def by (simp split: if_split del: command_number.simps)
qed

lemma dispatch_guest:
  assumes "getClientByFd fd s \<noteq> NULL" "deref s (getClientByFd fd s) = Some c" "\<not> registered c"
    and "gated (cmdNameToNumber cmds (command m))"
  shows "dispatch mem fd m s = Some (addReply fd (numeric c ''451'' (command m)) CommandResult, s)"
  using assms by (simp add: dispatch_def isRegistered_def)

lemma dispatch_open:
  assumes "\<not> gated (cmdNameToNumber cmds (command m)) \<or> getClientByFd fd s = NULL
    \<or> (\<exists>c. deref s (getClientByFd fd s) = Some c \<and> registered c)"
  shows "dispatch mem fd m s = dispatch_switch mem (cmdNameToNumber cmds (command m)) fd m s"
  using assms by (auto simp: dispatch_def isRegistered_def Let_def)

lemma dispatch_contract:
  assumes ok: "state_ok s" and m: "message_lf_free m"
  shows "outcome_ok fd s (dispatch mem fd m s)"
proof (cases "gated (cmdNameToNumber cmds (command m))")
  case False
  then show ?thesis using switch_contract [OF ok m] by (simp add: dispatch_open)
next
  case True
  show ?thesis
    using ok
  proof (cases rule: unregistered_cases [where fd = fd])
    case gone
    then show ?thesis using switch_contract [OF ok m] by (simp add: dispatch_open registered_at_def)
  next
    case (guest c)
    have "acc_ok fd s (addReply fd (numeric c ''451'' (command m)) CommandResult, s)"
      using guest m by (intro acc_ok_numeric acc_ok_init [OF ok]) (simp_all add: message_lf_free_def)
    with dispatch_guest [OF guest(1,2,5) True] show ?thesis by simp
  next
    case (user c)
    then show ?thesis
      using switch_contract [OF ok m]
      by (simp add: dispatch_open registered_at_def isRegistered_def)
  qed
qed

interpretation dispatcher: total_handler "dispatch mem"
  by unfold_locales (rule dispatch_contract)

subsection \<open>What each command can change\<close>

text \<open>\<open>PRIVMSG\<close>, \<open>PING\<close>, \<open>CAP\<close> and unknown commands only read the state.\<close>

lemma readers:
  "handlePrivMsg fd m s = Some (r, s') \<Longrightarrow> s' = s"
  "handlePing fd m s = Some (r, s') \<Longrightarrow> s' = s"
  "handleCap fd m s = Some (r, s') \<Longrightarrow> s' = s"
  "handleInvalidCommand fd m s = Some (r, s') \<Longrightarrow> s' = s"
  by (auto simp: handlePrivMsg_def handlePing_def handleCap_def handleInvalidCommand_def Let_def
      split: if_splits Option.bind_splits)

text \<open>
  The transitions of the existing channel \<open>n\<close> that the command \<open>cmd\<close> of client \<open>p\<close> may cause: nothing;
  \<open>p\<close> joins, having passed the mode checks with a key that the command gives for this channel; the
  topic becomes the one of the command, if \<open>p\<close> is a member, and an operator where the topic is
  restricted; or \<open>p\<close> is an operator and invites, changes modes or operators, or drops members.
\<close>

definition operator_step :: "string \<Rightarrow> message \<Rightarrow> string \<Rightarrow> server_state \<Rightarrow> channel \<Rightarrow> channel option \<Rightarrow> bool" where
  "operator_step cmd m n s ch next \<longleftrightarrow>
     (cmd = ''INVITE'' \<and> params m ! 1 = n \<and> next = Some (invite_in (getClientByNick (params m ! 0) s) ch))
     \<or> (cmd = ''MODE'' \<and> params m ! 0 = n \<and> (\<exists>ch'. next = Some ch' \<and> same_room ch ch'))
     \<or> (cmd = ''KICK'' \<and> params m ! 0 = n
        \<and> (\<exists>K \<subseteq> (\<lambda>x. getClientByNick x s) ` set (comma_split (params m ! 1)). next = unless_empty (drop_all K ch)))"

definition channel_step ::
  "ptr \<Rightarrow> string \<Rightarrow> message \<Rightarrow> string \<Rightarrow> server_state \<Rightarrow> channel \<Rightarrow> channel option \<Rightarrow> bool" where
  "channel_step p cmd m n s ch next \<longleftrightarrow>
     next = Some ch
     \<or> (cmd = ''JOIN'' \<and> p \<notin> set (members ch) \<and> next = Some (joined p ch)
        \<and> (\<exists>key \<in> keys_for m n. join_error p key ch = None))
     \<or> (cmd = ''TOPIC'' \<and> params m ! 0 = n \<and> p \<in> set (members ch)
        \<and> (topicRestricted (chModes ch) \<longrightarrow> p \<in> set (operators ch)) \<and> next = Some (setChannelTopic (params m ! 1) ch))
     \<or> (p \<in> set (operators ch) \<and> operator_step cmd m n s ch next)"

lemma channel_step_refl [simp]: "channel_step p cmd m n s ch (Some ch)"
  by (simp add: channel_step_def)

definition steps_by :: "ptr \<Rightarrow> string \<Rightarrow> message \<Rightarrow> server_state \<Rightarrow> server_state \<Rightarrow> bool" where
  "steps_by p cmd m s s' \<longleftrightarrow>
     (\<forall>n ch. findChannel n s = Some ch \<longrightarrow> channel_step p cmd m n s ch (findChannel n s'))"

lemma steps_by_refl [simp]: "steps_by p cmd m s s"
  by (simp add: steps_by_def)

lemma steps_by_one:
  "(\<And>k. k \<noteq> n \<Longrightarrow> findChannel k s' = findChannel k s) \<Longrightarrow>
    (\<And>ch. findChannel n s = Some ch \<Longrightarrow> channel_step p cmd m n s ch (findChannel n s')) \<Longrightarrow> steps_by p cmd m s s'"
  unfolding steps_by_def by (metis channel_step_refl)

lemma topic_steps:
  assumes "state_ok s" "getClientByFd fd s = p" "p \<noteq> NULL" "deref s p = Some c"
    and "handleTopic fd m s = Some (r, s')"
  shows "steps_by p ''TOPIC'' m s s' \<and> heap s' = heap s"
proof (cases "topic_change p (params m) s")
  case None
  with handleTopic_result [OF assms(1-4), of m] assms(5) show ?thesis by simp
next
  case (Some x)
  then obtain ch t where x: "topic_change p (params m) s = Some (ch, t)" by (cases x) simp
  note D = topic_changeD [OF x]
  from x handleTopic_result [OF assms(1-4), of m] assms(5)
  have s': "s' = putChannel (params m ! 0) (setChannelTopic t ch) s" by simp
  have "steps_by p ''TOPIC'' m s s'"
    unfolding s' by (rule steps_by_one [of "params m ! 0"]) (use D in \<open>auto simp: channel_step_def\<close>)
  with s' show ?thesis by simp
qed

lemma invite_steps:
  assumes "state_ok s" "getClientByFd fd s = p" "p \<noteq> NULL" "deref s p = Some c"
    and "handleInvite fd m s = Some (r, s')"
  shows "steps_by p ''INVITE'' m s s' \<and> heap s' = heap s"
proof (cases "invite_change p (params m) s")
  case None
  with handleInvite_refused [OF assms(2-4)] assms(5) show ?thesis by simp
next
  case (Some x)
  then obtain ch q where x: "invite_change p (params m) s = Some (ch, q)" by (cases x) simp
  note D = invite_changeD [OF x]
  then obtain t where "deref s q = Some t" using dirs.by_nick_live [OF state_ok_dir [OF assms(1)]] by blast
  from handleInvite_accepted [OF assms(1-4) x this] assms(5)
  have "s' = s \<or> s' = putChannel (params m ! 1) (invite_in q ch) s" by (auto split: if_splits)
  moreover have "steps_by p ''INVITE'' m s (putChannel (params m ! 1) (invite_in q ch) s)"
    by (rule steps_by_one [of "params m ! 1"]) (use D in \<open>auto simp: channel_step_def operator_step_def\<close>)
  ultimately show ?thesis by auto
qed

lemma mode_steps:
  assumes "state_ok s" "message_lf_free m" "getClientByFd fd s = p" "p \<noteq> NULL" "deref s p = Some c"
    and "handleMode fd m s = Some (r, s')"
  shows "steps_by p ''MODE'' m s s' \<and> heap s' = heap s"
proof (cases "mode_target p (params m) s")
  case None
  with handleMode_refused [OF assms(3-5)] assms(6) show ?thesis by simp
next
  case (Some ch)
  obtain run where "mode_inv fd s ch run"
      "handleMode fd m s = Some (mode_outcome m c s ch run, putChannel (params m ! 0) (runChannel run) s)"
    by (rule handleMode_run [OF assms(1-5) Some])
  with assms(6) have s': "s' = putChannel (params m ! 0) (runChannel run) s"
    and room: "same_room ch (runChannel run)"
    by (auto simp: mode_inv_def mode_core_def)
  have "steps_by p ''MODE'' m s s'"
    unfolding s' by (rule steps_by_one [of "params m ! 0"])
      (use mode_targetD [OF Some] room in \<open>auto simp: channel_step_def operator_step_def\<close>)
  with s' show ?thesis by simp
qed

lemma kick_steps:
  assumes "state_ok s" "message_lf_free m" "getClientByFd fd s = p" "p \<noteq> NULL" "deref s p = Some c"
    and "handleKick fd m s = Some (r, s')"
  shows "steps_by p ''KICK'' m s s' \<and> heap s' = heap s"
proof (cases "2 \<le> length (params m) \<and> findChannel (params m ! 0) s \<noteq> None")
  case False
  with assms(3-6) have "s' = s"
    by (auto simp: handleKick_def getParamCount_def getSingleParam_def Let_def
        split: if_splits Option.bind_splits)
  then show ?thesis by simp
next
  case True
  then obtain ch where ch: "2 \<le> length (params m)" "findChannel (params m ! 0) s = Some ch" by blast
  have live: "getClientByFd fd s \<noteq> NULL" using assms(3,4) by simp
  let ?K = "set (kicked p (map (\<lambda>x. getClientByNick x s) (comma_split (params m ! 1)))) \<inter> set (members ch)"
  from handleKick_effect [OF assms(1,2) live ch] assms(3,6)
  have heap: "heap s' = heap s" and others: "\<And>k. k \<noteq> params m ! 0 \<Longrightarrow> findChannel k s' = findChannel k s"
    and new: "findChannel (params m ! 0) s'
      = (if p \<notin> set (operators ch) then Some ch else unless_empty (drop_all ?K ch))"
    by auto
  have "?K \<subseteq> (\<lambda>x. getClientByNick x s) ` set (comma_split (params m ! 1))"
    using kicked_subset by fastforce
  then have "steps_by p ''KICK'' m s s'"
    by (intro steps_by_one [of "params m ! 0", OF others]) (use ch new in \<open>auto simp: channel_step_def operator_step_def\<close>)
  with heap show ?thesis by simp
qed

lemma join_steps:
  assumes "state_ok s" "message_lf_free m" "getClientByFd fd s = p" "p \<noteq> NULL" "registered_at fd s"
    and "handleJoin mem fd m s = Some (r, s')"
  shows "steps_by p ''JOIN'' m s s' \<and> heap s' = heap s"
proof -
  have j: "joins_only p (keys_for m) s s'"
    using handleJoin_admission [OF assms(1,3,4,5,2), of mem] assms(6) by auto
  then have "channel_step p ''JOIN'' m n s ch (findChannel n s')" if "findChannel n s = Some ch" for n ch
    using that unfolding joins_only_def channel_step_def by (auto split: option.splits)
  with j show ?thesis by (simp add: steps_by_def joins_only_def)
qed

text \<open>
  The registering commands touch no channel, and only \<open>PASS\<close> with the right password marks the
  password as accepted.
\<close>

definition keeps_pass :: "ptr \<Rightarrow> server_state \<Rightarrow> server_state \<Rightarrow> bool" where
  "keeps_pass p s s' \<longleftrightarrow>
     (\<forall>c c'. deref s p = Some c \<longrightarrow> deref s' p = Some c' \<longrightarrow> passAccepted c' = passAccepted c)"

lemma keeps_pass_heap: "heap s' = heap s \<Longrightarrow> keeps_pass p s s'"
  by (simp add: keeps_pass_def deref_def)

lemma register_step_state:
  "register_step fd p r s = Some (r', s') \<Longrightarrow> channels s' = channels s \<and> keeps_pass p s s'"
  by (auto simp: register_step_def keeps_pass_def Let_def case_prod_beta split: if_splits Option.bind_splits)

lemma updateNickname_state:
  "updateNickname p n s = Some (b, s') \<Longrightarrow> channels s' = channels s \<and> keeps_pass p s s'"
  by (auto simp: updateNickname_def keeps_pass_def setNickByServerState_def case_prod_beta Let_def
      split: if_splits Option.bind_splits)

lemma keeps_pass_trans:
  "keeps_pass p s s1 \<Longrightarrow> keeps_pass p s1 s' \<Longrightarrow> deref s1 p \<noteq> None \<Longrightarrow> keeps_pass p s s'"
  unfolding keeps_pass_def by (metis not_None_eq)

lemma nick_steps:
  assumes "handleNick fd m s = Some (r, s')" and "getClientByFd fd s = p"
  shows "channels s' = channels s \<and> keeps_pass p s s'"
proof -
  from assms consider "s' = s"
    | b s1 n where "updateNickname p n s = Some (b, s1)" "s' = s1"
    | b s1 n r0 where "updateNickname p n s = Some (b, s1)" "register_step fd p r0 s1 = Some (r, s')"
    by (auto simp: handleNick_def Let_def split: if_splits Option.bind_splits)
  then show ?thesis
  proof cases
    case (3 b s1 n r0)
    then have "deref s1 p \<noteq> None" by (auto simp: register_step_def split: Option.bind_splits)
    with updateNickname_state [OF 3(1)] register_step_state [OF 3(2)] show ?thesis
      using keeps_pass_trans by metis
  qed (auto dest: updateNickname_state simp: keeps_pass_heap)
qed

lemma user_steps:
  assumes "handleUser fd m s = Some (r, s')" and "getClientByFd fd s = p"
  shows "channels s' = channels s \<and> keeps_pass p s s'"
proof -
  from assms consider "s' = s"
    | c u n where "deref s p = Some c"
        "register_step fd p CommandResult (store p (setRealName n (setUserName u c)) s) = Some (r, s')"
    by (auto simp: handleUser_def Let_def split: if_splits Option.bind_splits)
  then show ?thesis
  proof cases
    case (2 c u n)
    have "keeps_pass p s (store p (setRealName n (setUserName u c)) s)"
      using 2(1) by (simp add: keeps_pass_def setRealName_def setUserName_def)
    with register_step_state [OF 2(2)] keeps_pass_trans show ?thesis by auto
  qed (simp add: keeps_pass_heap)
qed

lemma pass_steps:
  assumes "handlePass fd m s = Some (r, s')" and "getClientByFd fd s = p"
  shows "channels s' = channels s
    \<and> (keeps_pass p s s' \<or> params m \<noteq> [] \<and> params m ! 0 = password s)"
proof -
  from assms consider "s' = s"
    | c where "deref s p = Some c" "params m \<noteq> []" "params m ! 0 = password s"
        "register_step fd p CommandResult (store p (acceptPassword c) s) = Some (r, s')"
    by (auto simp: handlePass_def getSingleParam_def isCorrectPassword_def Let_def
        split: if_splits Option.bind_splits)
  then show ?thesis
    by cases (auto dest: register_step_state simp: keeps_pass_heap)
qed

lemma named_commands:
  "cmdNameToNumber cmds cmd = command_number CMD_PASS \<Longrightarrow> cmd = ''PASS''"
  "cmdNameToNumber cmds cmd = command_number CMD_JOIN \<Longrightarrow> cmd = ''JOIN''"
  "cmdNameToNumber cmds cmd = command_number CMD_KICK \<Longrightarrow> cmd = ''KICK''"
  "cmdNameToNumber cmds cmd = command_number CMD_INVITE \<Longrightarrow> cmd = ''INVITE''"
  "cmdNameToNumber cmds cmd = command_number CMD_TOPIC \<Longrightarrow> cmd = ''TOPIC''"
  "cmdNameToNumber cmds cmd = command_number CMD_MODE \<Longrightarrow> cmd = ''MODE''"
  by (auto simp: name_search_result split: if_splits)

lemma chosen:
  "(if b then f else g) x y z = w \<Longrightarrow> (b \<Longrightarrow> f x y z = w \<Longrightarrow> thesis) \<Longrightarrow> (\<not> b \<Longrightarrow> g x y z = w \<Longrightarrow> thesis) \<Longrightarrow> thesis"
  by (cases b) simp_all

lemma switch_steps:
  assumes ok: "state_ok s" "message_lf_free m" and p: "getClientByFd fd s = p" "p \<noteq> NULL" "deref s p = Some c"
    and reg: "gated n \<longrightarrow> registered_at fd s" and n: "n = cmdNameToNumber cmds cmd"
    and run: "dispatch_switch mem n fd m s = Some (r, s')"
  shows "steps_by p cmd m s s' \<and> (keeps_pass p s s' \<or> cmd = ''PASS'' \<and> params m \<noteq> [] \<and> params m ! 0 = password s)"
proof -
  have same: "steps_by p cmd m s s' \<and> keeps_pass p s s'" if "steps_by p cmd m s s' \<and> heap s' = heap s"
    using that keeps_pass_heap by blast
  have chans: "steps_by p cmd m s s'" if "channels s' = channels s"
    using that by (simp add: steps_by_def findChannel_def)
  have refl: "steps_by p cmd m s s' \<and> keeps_pass p s s'" if "s' = s" using that by (simp add: keeps_pass_heap)
  from run consider
    (pass) "n = command_number CMD_PASS" "handlePass fd m s = Some (r, s')"
    | (nick) "handleNick fd m s = Some (r, s')" | (user) "handleUser fd m s = Some (r, s')"
    | (join) "n = command_number CMD_JOIN" "handleJoin mem fd m s = Some (r, s')"
    | (kick) "n = command_number CMD_KICK" "handleKick fd m s = Some (r, s')"
    | (invite) "n = command_number CMD_INVITE" "handleInvite fd m s = Some (r, s')"
    | (topic) "n = command_number CMD_TOPIC" "handleTopic fd m s = Some (r, s')"
    | (mode) "n = command_number CMD_MODE" "handleMode fd m s = Some (r, s')"
    | (reader) "s' = s"
    unfolding dispatch_switch_def by (elim chosen) (assumption | erule readers | rule reader)+
  then show ?thesis
  proof cases
    case pass
    then have "cmd = ''PASS''" using n named_commands by simp
    with pass_steps [OF pass(2) p(1)] chans show ?thesis by blast
  next
    case nick
    with nick_steps [OF nick p(1)] chans show ?thesis by blast
  next
    case user
    with user_steps [OF user p(1)] chans show ?thesis by blast
  next
    case join
    then have "registered_at fd s" "cmd = ''JOIN''"
      using reg n named_commands(2) [of cmd] by (simp_all add: gated_def)
    with join_steps [OF ok p(1,2) _ join(2)] same show ?thesis by blast
  next
    case kick
    then have "cmd = ''KICK''" using n named_commands by simp
    with kick_steps [OF ok p kick(2)] same show ?thesis by blast
  next
    case invite
    then have "cmd = ''INVITE''" using n named_commands by simp
    with invite_steps [OF ok(1) p invite(2)] same show ?thesis by blast
  next
    case topic
    then have "cmd = ''TOPIC''" using n named_commands by simp
    with topic_steps [OF ok(1) p topic(2)] same show ?thesis by blast
  next
    case mode
    then have "cmd = ''MODE''" using n named_commands by simp
    with mode_steps [OF ok p mode(2)] same show ?thesis by blast
  next
    case reader
    with refl show ?thesis by blast
  qed
qed

lemma dispatch_steps:
  assumes ok: "state_ok s" "message_lf_free m" and p: "getClientByFd fd s = p" "p \<noteq> NULL" "deref s p = Some c"
    and run: "dispatch mem fd m s = Some (r, s')"
  shows "steps_by p (command m) m s s' \<and> (keeps_pass p s s'
    \<or> command m = ''PASS'' \<and> params m \<noteq> [] \<and> params m ! 0 = password s)"
proof (cases "gated (cmdNameToNumber cmds (command m)) \<and> \<not> registered c")
  case True
  with p dispatch_guest [of fd s c m mem] run show ?thesis by (simp add: keeps_pass_heap)
next
  case False
  then have "dispatch_switch mem (cmdNameToNumber cmds (command m)) fd m s = Some (r, s')"
    using run p dispatch_open [of m fd s mem] by auto
  moreover have "gated (cmdNameToNumber cmds (command m)) \<longrightarrow> registered_at fd s"
    using False p by (simp add: registered_at_def isRegistered_def)
  ultimately show ?thesis using switch_steps [OF ok p _ refl] by blast
qed

subsection \<open>Properties of dispatch\<close>

text \<open>
  C21. Dispatch is safe. On a well-formed state and any message without line feeds, from any
  descriptor, the dispatcher returns: no null or dangling client pointer is used and no parameter
  is read out of range. The state stays well formed, the set of connections is unchanged, no
  client object but the issuer's is written and no registration is taken back; every reply is one
  CR LF terminated line for a connected client; and the connection is not asked to close.
\<close>

theorem dispatch_safe:
  assumes "state_ok s" and "message_lf_free m"
  shows "\<exists>r s'. dispatch mem fd m s = Some (r, s') \<and> state_ok s' \<and> clientsByFd s' = clientsByFd s
    \<and> (\<forall>p. p \<noteq> getClientByFd fd s \<longrightarrow> deref s' p = deref s p)
    \<and> (\<forall>p c. deref s p = Some c \<longrightarrow> registered c \<longrightarrow> (\<exists>c'. deref s' p = Some c' \<and> registered c'))
    \<and> (\<forall>t \<in> set (replies r). getClientByFd (replyFd t) s \<noteq> NULL \<and> one_line (replyText t))
    \<and> \<not> shouldDisconnect r"
proof -
  obtain r s' where run: "dispatch mem fd m s = Some (r, s')" "state_ok s'" "frame fd s s'"
      "replies_ok s r" "\<not> disconnect r"
    by (rule dispatcher.returns [OF assms TrueI])
  moreover have "\<exists>c'. deref s' p = Some c' \<and> registered c'" if "deref s p = Some c" "registered c" for p c
    using run(3) that unfolding frame_def by blast
  ultimately show ?thesis
    by (auto simp: frame_def replies_ok_def list_all_iff shouldDisconnect_def)
qed

text \<open>
  Any sequence of commands from any connections, in any interleaving, runs to its end from
  any well-formed state, and leaves a well-formed state with the same connections and password.
\<close>

theorem dispatch_sequences:
  assumes "state_ok s" and "list_all (\<lambda>(fd, m). message_lf_free m) reqs"
  shows "\<exists>s'. for_each (\<lambda>(fd, m) s. map_option snd (dispatch mem fd m s)) reqs s = Some s'
    \<and> state_ok s' \<and> clientsByFd s' = clientsByFd s \<and> password s' = password s"
  using assms by (rule dispatcher.run_sequence)

text \<open>
  C23. The registration gate. For a connection whose client is not registered, every known command
  but \<open>PASS\<close>, \<open>NICK\<close>, \<open>USER\<close> and \<open>CAP\<close> leaves the whole state as it is and answers with the
  single numeric 451 to that connection.
\<close>

theorem registration_gate:
  assumes "getClientByFd fd s \<noteq> NULL" and "deref s (getClientByFd fd s) = Some c" and "\<not> registered c"
    and "command m \<in> set cmds - {''INVALID'', ''PASS'', ''NICK'', ''USER'', ''CAP''}"
  shows "dispatch mem fd m s =
    Some (\<lparr>replies = [reply_to (numeric c ''451'' (command m)) fd], disconnect = False\<rparr>, s)"
proof -
  have "gated (cmdNameToNumber cmds (command m))"
    using assms(4) by (auto simp: name_search_result gated_def set_cmds)
  from dispatch_guest [OF assms(1-3) this, of mem] show ?thesis
    by (simp add: addReply_def CommandResult_def reply_to_def)
qed

text \<open>
  C4. Channel authority. Whatever single command a client sends, each existing channel is either
  left as it is; or gains exactly that client as a member, by a \<open>JOIN\<close> that names the channel and
  passes the invite, limit and key checks, the last with a key at a position of this channel; or gets
  the topic of a \<open>TOPIC\<close> command for it, by a member, who is an operator where the topic is
  restricted; or the client is one of its operators and the command is an \<open>INVITE\<close> to it, which adds
  the named client to the invitations, a \<open>MODE\<close> for it, which changes modes and operators only, or a
  \<open>KICK\<close> from it, which drops members that the command names. Nothing else happens to a channel.
\<close>

theorem channel_authority:
  assumes "state_ok s" and "message_lf_free m" and "getClientByFd fd s = p" and "p \<noteq> NULL"
    and "findChannel n s = Some ch"
  shows "\<exists>r s'. dispatch mem fd m s = Some (r, s')
    \<and> channel_step p (command m) m n s ch (findChannel n s')"
proof -
  obtain r s' where run: "dispatch mem fd m s = Some (r, s')"
    by (rule dispatcher.returns [OF assms(1,2) TrueI])
  obtain c where c: "deref s p = Some c"
    using assms(1) by (cases rule: fd_cases [where fd = fd]) (use assms(3,4) in auto)
  from dispatch_steps [OF assms(1-4) c run] run assms(5) show ?thesis
    by (auto simp: steps_by_def)
qed

text \<open>
  The command table. Each known name is found at its own position, which is its enumerator,
  and every other name is the invalid command; the search never leaves the table.
\<close>

theorem command_table:
  "(\<forall>i < length cmds. cmdNameToNumber cmds (cmds ! i) = i)
    \<and> (cmd \<notin> set cmds \<longrightarrow> cmdNameToNumber cmds cmd = command_number CMD_INVALID)
    \<and> cmdNameToNumber cmds cmd < command_number CMD_COUNT \<and> length cmds = command_number CMD_COUNT"
proof -
  have "\<forall>i < 12. cmdNameToNumber cmds (cmds ! i) = i"
    by (simp add: numeral_eq_Suc All_less_Suc2) (simp add: cmds_def name_search_result [unfolded cmds_def])
  moreover have "cmd \<notin> set cmds \<Longrightarrow> cmdNameToNumber cmds cmd = 0"
    by (auto simp: name_search_result set_cmds)
  moreover have "cmdNameToNumber cmds cmd < 12" by (simp add: name_search_result)
  ultimately show ?thesis by (simp add: cmds_length)
qed

lemma sample_ping: "message_lf_free \<lparr>command = ''PING'', params = []\<rparr>"
  by (simp add: message_lf_free_def lf_simps)

theorem dispatch_safe_witness:
  "\<exists>r s'. dispatch (\<lambda>i. True) 4 \<lparr>command = ''PING'', params = []\<rparr> shared_state = Some (r, s') \<and> state_ok s'"
  using dispatch_safe [OF state_ok_shared sample_ping, of "\<lambda>i. True" 4] by blast

theorem dispatch_sequences_witness:
  "\<exists>s'. for_each (\<lambda>(fd, m) s. map_option snd (dispatch (\<lambda>i. True) fd m s))
      [(4, \<lparr>command = ''PING'', params = []\<rparr>), (9, \<lparr>command = ''PING'', params = []\<rparr>)] shared_state = Some s'
    \<and> state_ok s'"
  using dispatch_sequences [OF state_ok_shared, of "[(4, \<lparr>command = ''PING'', params = []\<rparr>),
      (9, \<lparr>command = ''PING'', params = []\<rparr>)]" "\<lambda>i. True"] sample_ping by auto

theorem registration_gate_witness:
  "dispatch (\<lambda>i. True) 4 \<lparr>command = ''JOIN'', params = [''#x'']\<rparr> two_clients =
    Some (\<lparr>replies = [reply_to (numeric (Client 4) ''451'' ''JOIN'') 4], disconnect = False\<rparr>, two_clients)"
proof -
  have "getClientByFd 4 two_clients = 1" "deref two_clients 1 = Some (Client 4)"
    by (simp_all add: two_clients_eq getClientByFd_def deref_def map_find_def)
  then show ?thesis
    using registration_gate [of 4 two_clients "Client 4" "\<lparr>command = ''JOIN'', params = [''#x'']\<rparr>" "\<lambda>i. True"]
    by (simp add: Client_def set_cmds)
qed

theorem channel_authority_witness:
  "\<exists>r s'. dispatch (\<lambda>i. True) 5 \<lparr>command = ''JOIN'', params = [''#lobby'']\<rparr> sample_state = Some (r, s')
    \<and> channel_step 2 ''JOIN'' \<lparr>command = ''JOIN'', params = [''#lobby'']\<rparr> ''#lobby'' sample_state sample_channel
        (findChannel ''#lobby'' s')"
proof -
  have "message_lf_free \<lparr>command = ''JOIN'', params = [''#lobby'']\<rparr>" by (simp add: message_lf_free_def lf_simps)
  from channel_authority [OF state_ok_sample this, of 5 2 "''#lobby''" sample_channel "\<lambda>i. True"]
  show ?thesis by simp
qed

theorem command_table_witness:
  "cmdNameToNumber cmds ''QUIT'' = command_number CMD_INVALID \<and> cmdNameToNumber cmds (cmds ! 9) = 9"
  using command_table [of "''QUIT''"] by (simp add: set_cmds)

end
