(* ===== verification/Registration.thy ===== *)
theory Registration
  imports Dispatcher
begin

section \<open>Registration as a protocol\<close>

text \<open>
  The \<open>PASS\<close>, \<open>NICK\<close>, \<open>USER\<close> exchange seen from the dispatcher: it may come in any order, ends
  in exactly one welcome, and is the only way to be let in.
\<close>

subsection \<open>Runs of commands\<close>

text \<open>A connection's commands one after the other, with everything they reply.\<close>

primrec run_commands ::
  "(nat \<Rightarrow> bool) \<Rightarrow> int \<Rightarrow> message list \<Rightarrow> server_state \<Rightarrow> (t_reply list \<times> server_state) option" where
  "run_commands mem fd [] s = Some ([], s)"
| "run_commands mem fd (m # ms) s =
     do {
       (r, s) \<leftarrow> dispatch mem fd m s;
       (ts, s) \<leftarrow> run_commands mem fd ms s;
       Some (replies r @ ts, s)
     }"

definition greeting :: "int \<Rightarrow> client \<Rightarrow> t_reply list" where
  "greeting fd c = map (\<lambda>code. reply_to (numeric c code '''') fd) [''001'', ''002'', ''003'', ''004'']"

lemma welcome_replies_list: "welcome_replies fd c r = addReplies (greeting fd c) r"
  by (simp add: welcome_replies_def greeting_def addReply_addReplies addReplies_append)

subsection \<open>One registering command\<close>

text \<open>
  \<open>joining\<close>: the connection is not registered yet, and the nickname it wants is free or already
  its own. A command \<open>m\<close> \<open>contributes\<close> the update \<open>u\<close> when it stores \<open>u c\<close> for the client \<open>c\<close>, and
  completes the registration if nothing is missing any more.
\<close>

definition joining :: "int \<Rightarrow> string \<Rightarrow> ptr \<Rightarrow> string \<Rightarrow> server_state \<Rightarrow> client \<Rightarrow> bool" where
  "joining fd pw p nick s c \<longleftrightarrow>
     state_ok s \<and> getClientByFd fd s = p \<and> p \<noteq> NULL \<and> deref s p = Some c \<and> \<not> registered c
     \<and> password s = pw \<and> getClientByNick nick s \<in> {NULL, p}"

definition contributes ::
  "(nat \<Rightarrow> bool) \<Rightarrow> int \<Rightarrow> string \<Rightarrow> ptr \<Rightarrow> string \<Rightarrow> message \<Rightarrow> (client \<Rightarrow> client) \<Rightarrow> bool" where
  "contributes mem fd pw p nick m u \<longleftrightarrow>
     (\<forall>s c. joining fd pw p nick s c \<longrightarrow>
        (\<exists>r s'. dispatch mem fd m s = Some (r, s') \<and> state_ok s' \<and>
           (if complete (u c)
            then replies r = greeting fd ((u c)\<lparr>registered := True\<rparr>)
              \<and> deref s' p = Some ((u c)\<lparr>registered := True\<rparr>)
            else replies r = [] \<and> joining fd pw p nick s' (u c))))"

lemma register_step_outcome:
  assumes "deref s1 p = Some c" and "\<not> registered c"
  shows "register_step fd p CommandResult s1 =
    (if complete c
     then Some (addReplies (greeting fd (c\<lparr>registered := True\<rparr>)) CommandResult,
                store p (c\<lparr>registered := True\<rparr>) s1)
     else Some (CommandResult, store p c s1))"
proof -
  have "store p (c\<lparr>registered := False\<rparr>) s1 = store p c s1"
    using assms(2) by (cases c) simp
  with assms tryRegister_result [of c "fst (tryRegister c)" "snd (tryRegister c)"] show ?thesis
    by (auto simp: register_step_result [OF assms(1)] welcome_replies_list Let_def)
qed

lemma contributesI:
  assumes step: "\<And>s c. joining fd pw p nick s c \<Longrightarrow> \<exists>s1. dispatch mem fd m s = register_step fd p CommandResult s1
      \<and> deref s1 p = Some (u c) \<and> password s1 = pw \<and> getClientByNick nick s1 \<in> {NULL, p}"
    and m: "message_lf_free m" and u: "\<And>c. registered (u c) = registered c"
  shows "contributes mem fd pw p nick m u"
  unfolding contributes_def
proof (intro allI impI)
  fix s c
  assume j: "joining fd pw p nick s c"
  then have ok: "state_ok s" by (simp add: joining_def)
  from step [OF j] obtain s1 where s1: "dispatch mem fd m s = register_step fd p CommandResult s1"
      "deref s1 p = Some (u c)" "password s1 = pw" "getClientByNick nick s1 \<in> {NULL, p}" by blast
  obtain r s' where run: "dispatch mem fd m s = Some (r, s')" "state_ok s'" "frame fd s s'"
    using dispatcher.returns [OF ok m] by blast
  have "\<not> registered (u c)" using u j by (simp add: joining_def)
  note out = register_step_outcome [OF s1(2) this, of fd]
  have "if complete (u c)
       then replies r = greeting fd ((u c)\<lparr>registered := True\<rparr>) \<and> deref s' p = Some ((u c)\<lparr>registered := True\<rparr>)
       else replies r = [] \<and> joining fd pw p nick s' (u c)"
  proof (cases "complete (u c)")
    case True
    with out run(1) s1(1) show ?thesis by auto
  next
    case False
    with out run(1) s1(1) have s': "r = CommandResult" "s' = store p (u c) s1" by simp_all
    have "getClientByNick nick s' = getClientByNick nick s1" "password s' = pw"
      using s1(3) by (simp_all add: s' getClientByNick_def)
    moreover have "getClientByFd fd s' = p" "p \<noteq> NULL"
      using frame_fd [OF run(3), of fd] j by (simp_all add: joining_def)
    ultimately have "joining fd pw p nick s' (u c)"
      using run(2) s1(4) \<open>\<not> registered (u c)\<close> unfolding joining_def s' by simp
    with False s' show ?thesis by simp
  qed
  with run show "\<exists>r s'. dispatch mem fd m s = Some (r, s') \<and> state_ok s' \<and>
      (if complete (u c)
       then replies r = greeting fd ((u c)\<lparr>registered := True\<rparr>) \<and> deref s' p = Some ((u c)\<lparr>registered := True\<rparr>)
       else replies r = [] \<and> joining fd pw p nick s' (u c))" by blast
qed

definition pass_msg :: "string \<Rightarrow> message" where
  "pass_msg pw = \<lparr>command = ''PASS'', params = [pw]\<rparr>"

definition nick_msg :: "string \<Rightarrow> message" where
  "nick_msg nick = \<lparr>command = ''NICK'', params = [nick]\<rparr>"

definition user_msg :: "string \<Rightarrow> string \<Rightarrow> message" where
  "user_msg user real = \<lparr>command = ''USER'', params = [user, ''0'', ''*'', real]\<rparr>"

lemma reg_not_gated [simp]:
  "\<not> gated (cmdNameToNumber cmds ''PASS'')" "\<not> gated (cmdNameToNumber cmds ''NICK'')"
  "\<not> gated (cmdNameToNumber cmds ''USER'')"
  by (simp_all add: name_search_result gated_def)

lemma pass_contributes:
  assumes "lf_free pw"
  shows "contributes mem fd pw p nick (pass_msg pw) acceptPassword"
proof (rule contributesI)
  fix s c
  assume j: "joining fd pw p nick s c"
  have "dispatch mem fd (pass_msg pw) s = register_step fd p CommandResult (store p (acceptPassword c) s)"
    using j by (simp add: pass_msg_def dispatch_open dispatch_switch_def name_search_result gated_def handlePass_def
        joining_def getParamCount_def getSingleParam_def isCorrectPassword_def isRegistered_def Let_def)
  moreover have "getClientByNick nick (store p (acceptPassword c) s) \<in> {NULL, p}"
    using j by (simp add: joining_def getClientByNick_def)
  ultimately show "\<exists>s1. dispatch mem fd (pass_msg pw) s = register_step fd p CommandResult s1
      \<and> deref s1 p = Some (acceptPassword c) \<and> password s1 = pw \<and> getClientByNick nick s1 \<in> {NULL, p}"
    using j by (intro exI [of _ "store p (acceptPassword c) s"]) (simp add: joining_def)
qed (simp_all add: pass_msg_def message_lf_free_def lf_simps assms acceptPassword_def)

lemma user_contributes:
  assumes "lf_free user" "lf_free real"
  shows "contributes mem fd pw p nick (user_msg user real) (\<lambda>c. setRealName real (setUserName user c))"
proof (rule contributesI)
  fix s c
  let ?c = "setRealName real (setUserName user c)"
  assume j: "joining fd pw p nick s c"
  have "dispatch mem fd (user_msg user real) s = register_step fd p CommandResult (store p ?c s)"
    using j by (simp add: user_msg_def dispatch_open dispatch_switch_def name_search_result gated_def handleUser_def
        joining_def getParamCount_def getSingleParam_def isRegistered_def numeral_eq_Suc Let_def)
  moreover have "getClientByNick nick (store p ?c s) \<in> {NULL, p}"
    using j by (simp add: joining_def getClientByNick_def)
  ultimately show "\<exists>s1. dispatch mem fd (user_msg user real) s = register_step fd p CommandResult s1
      \<and> deref s1 p = Some ?c \<and> password s1 = pw \<and> getClientByNick nick s1 \<in> {NULL, p}"
    using j by (intro exI [of _ "store p ?c s"]) (simp add: joining_def)
qed (simp_all add: user_msg_def message_lf_free_def lf_simps assms setRealName_def setUserName_def)

lemma nick_contributes:
  assumes nick: "isValidNick nick"
  shows "contributes mem fd pw p nick (nick_msg nick) (setNickByServerState nick)"
proof (rule contributesI)
  fix s c
  assume j: "joining fd pw p nick s c"
  then have ok: "state_ok s" and c: "deref s p = Some c" and free: "getClientByNick nick s \<in> {NULL, p}"
    and p: "getClientByFd fd s = p" "p \<noteq> NULL" and pw: "password s = pw" by (simp_all add: joining_def)
  obtain s1 where s1: "updateNickname p nick s = Some (True, s1)"
      "deref s1 p = Some (c\<lparr>nickname := nick\<rparr>)" "getClientByNick nick s1 = p"
    using updateNickname_effect [OF ok c nick] free by auto
  have "password s1 = password s"
    using s1(1) unfolding updateNickname_result [OF state_ok_dir [OF ok] c] by (auto split: if_splits)
  moreover have "dispatch mem fd (nick_msg nick) s = register_step fd p CommandResult s1"
    using p c nick free s1
    by (auto simp: nick_msg_def dispatch_open dispatch_switch_def name_search_result gated_def handleNick_def
        getParamCount_def getSingleParam_def Let_def)
  ultimately show "\<exists>s1. dispatch mem fd (nick_msg nick) s = register_step fd p CommandResult s1
      \<and> deref s1 p = Some (setNickByServerState nick c) \<and> password s1 = pw
      \<and> getClientByNick nick s1 \<in> {NULL, p}"
    using s1 pw by (intro exI [of _ s1]) (simp add: setNickByServerState_def)
qed (simp_all add: nick_msg_def message_lf_free_def lf_simps isValidNick_lf_free [OF nick]
    setNickByServerState_def)

subsection \<open>The exchange\<close>

definition let_in :: "string \<Rightarrow> string \<Rightarrow> string \<Rightarrow> client \<Rightarrow> client" where
  "let_in nick user real c = c\<lparr>username := user, nickname := nick, realname := real,
     passAccepted := True, registered := True\<rparr>"

lemma contributes_open:
  "contributes mem fd pw p nick m u \<Longrightarrow> joining fd pw p nick s c \<Longrightarrow> \<not> complete (u c) \<Longrightarrow>
    \<exists>r s'. dispatch mem fd m s = Some (r, s') \<and> replies r = [] \<and> joining fd pw p nick s' (u c)"
  unfolding contributes_def by fastforce

lemma contributes_done:
  "contributes mem fd pw p nick m u \<Longrightarrow> joining fd pw p nick s c \<Longrightarrow> complete (u c) \<Longrightarrow>
    \<exists>r s'. dispatch mem fd m s = Some (r, s') \<and> state_ok s'
      \<and> replies r = greeting fd ((u c)\<lparr>registered := True\<rparr>) \<and> deref s' p = Some ((u c)\<lparr>registered := True\<rparr>)"
  unfolding contributes_def by fastforce

lemma three_contributions:
  assumes j: "joining fd pw p nick s c"
    and a: "contributes mem fd pw p nick a ua" and b: "contributes mem fd pw p nick b ub"
    and d: "contributes mem fd pw p nick d ud"
    and "\<not> complete (ua c)" and "\<not> complete (ub (ua c))" and "complete (ud (ub (ua c)))"
    and res: "(ud (ub (ua c)))\<lparr>registered := True\<rparr> = c'"
  shows "\<exists>s'. run_commands mem fd [a, b, d] s = Some (greeting fd c', s') \<and> state_ok s'
    \<and> deref s' p = Some c'"
proof -
  obtain r1 s1 where 1: "dispatch mem fd a s = Some (r1, s1)" "replies r1 = []" "joining fd pw p nick s1 (ua c)"
    using contributes_open [OF a j] assms(5) by blast
  obtain r2 s2 where 2: "dispatch mem fd b s1 = Some (r2, s2)" "replies r2 = []"
      "joining fd pw p nick s2 (ub (ua c))"
    using contributes_open [OF b 1(3)] assms(6) by blast
  obtain r3 s3 where 3: "dispatch mem fd d s2 = Some (r3, s3)" "state_ok s3" "replies r3 = greeting fd c'"
      "deref s3 p = Some c'"
    using contributes_done [OF d 2(3) assms(7)] res by blast
  from 1 2 3 show ?thesis by simp
qed

lemma three_orders:
  assumes "set [x, y, z] = {a, b, d}" and "a \<noteq> b" "a \<noteq> d" "b \<noteq> d"
  shows "[x, y, z] \<in> {[a, b, d], [a, d, b], [b, a, d], [b, d, a], [d, a, b], [d, b, a]}"
proof -
  have "x \<in> {a, b, d}" "y \<in> {a, b, d}" "z \<in> {a, b, d}" "a \<in> {x, y, z}" "b \<in> {x, y, z}" "d \<in> {x, y, z}"
    using assms(1) by auto
  with assms(2-4) show ?thesis by simp metis
qed

text \<open>
  C22. Registration completes in every order. Whatever the order in which a new connection sends
  \<open>PASS\<close> with the right password, \<open>NICK\<close> with a valid free nickname and \<open>USER\<close> with a user name, the
  first two commands are silent, the third sends exactly the four welcome numerics to the
  connection, and the client ends registered with exactly the names it gave.
\<close>

theorem registration_any_order:
  assumes ok: "state_ok s" and p: "getClientByFd fd s = p" "p \<noteq> NULL"
    and c: "deref s p = Some c" "\<not> passAccepted c" "username c = ''''" "nickname c = ''''" "\<not> registered c"
    and nick: "isValidNick nick" "getClientByNick nick s = NULL"
    and user: "user \<noteq> ''''" "lf_free user" "lf_free real" "lf_free (password s)"
    and order: "length ms = 3" "set ms = {pass_msg (password s), nick_msg nick, user_msg user real}"
  shows "\<exists>s'. run_commands mem fd ms s = Some (greeting fd (let_in nick user real c), s')
    \<and> state_ok s' \<and> deref s' p = Some (let_in nick user real c)"
proof -
  let ?P = "pass_msg (password s)" and ?N = "nick_msg nick" and ?U = "user_msg user real"
  have j: "joining fd (password s) p nick s c" using ok p c nick by (simp add: joining_def)
  note P = pass_contributes [OF user(4), of mem fd p nick]
    and N = nick_contributes [OF nick(1), of mem fd "password s" p]
    and U = user_contributes [OF user(2,3), of mem fd "password s" p nick]
  have ne: "nick \<noteq> ''''" using isValidNick_chars [OF nick(1)] by simp
  have distinct: "?P \<noteq> ?N" "?P \<noteq> ?U" "?N \<noteq> ?U"
    by (simp_all add: pass_msg_def nick_msg_def user_msg_def)
  obtain x y z where ms: "ms = [x, y, z]"
    using order(1) by (auto simp: numeral_3_eq_3 length_Suc_conv)
  from order(2) distinct have "ms \<in> {[?P, ?N, ?U], [?P, ?U, ?N], [?N, ?P, ?U], [?N, ?U, ?P], [?U, ?P, ?N], [?U, ?N, ?P]}"
    unfolding ms by (intro three_orders) simp_all
  moreover
  let ?R = "\<lambda>ms. \<exists>s'. run_commands mem fd ms s = Some (greeting fd (let_in nick user real c), s')
    \<and> state_ok s' \<and> deref s' p = Some (let_in nick user real c)"
  note defs = complete_def client_defs let_in_def
  have "?R [?P, ?N, ?U]"
    by (rule three_contributions [OF j P N U]) (use c user(1) ne in \<open>simp_all add: defs\<close>)
  moreover
  have "?R [?P, ?U, ?N]"
    by (rule three_contributions [OF j P U N]) (use c user(1) ne in \<open>simp_all add: defs\<close>)
  moreover
  have "?R [?N, ?P, ?U]"
    by (rule three_contributions [OF j N P U]) (use c user(1) ne in \<open>simp_all add: defs\<close>)
  moreover
  have "?R [?N, ?U, ?P]"
    by (rule three_contributions [OF j N U P]) (use c user(1) ne in \<open>simp_all add: defs\<close>)
  moreover
  have "?R [?U, ?P, ?N]"
    by (rule three_contributions [OF j U P N]) (use c user(1) ne in \<open>simp_all add: defs\<close>)
  moreover
  have "?R [?U, ?N, ?P]"
    by (rule three_contributions [OF j U N P]) (use c user(1) ne in \<open>simp_all add: defs\<close>)
  ultimately show ?thesis by blast
qed

lemma dispatch_pass:
  assumes ok: "state_ok s" and m: "message_lf_free m" and c: "deref s p = Some c"
    and run: "dispatch mem fd m s = Some (r, s')"
  shows "\<exists>c'. deref s' p = Some c' \<and> (registered c' \<longrightarrow> passAccepted c')
    \<and> (passAccepted c' \<and> \<not> passAccepted c \<longrightarrow>
        socketFd c = fd \<and> command m = ''PASS'' \<and> params m \<noteq> [] \<and> params m ! 0 = password s)"
proof -
  have run: "dispatch mem fd m s = Some (r, s')" "state_ok s'" "frame fd s s'"
    using dispatcher.returns [OF ok m TrueI, of mem fd] run by auto
  obtain c' where c': "deref s' p = Some c'" using run(3) c unfolding frame_def by blast
  have "client_ok c'" using live_client_ok [OF state_ok_dir [OF run(2)] c'] .
  then have reg: "registered c' \<longrightarrow> passAccepted c'" by (simp add: client_ok_def complete_def)
  have "socketFd c = fd \<and> command m = ''PASS'' \<and> params m \<noteq> [] \<and> params m ! 0 = password s"
    if new: "passAccepted c'" "\<not> passAccepted c"
  proof (cases "getClientByFd fd s = p")
    case True
    note d = state_ok_dir [OF ok]
    have "p \<noteq> NULL" using dirs.live_not_null [OF d c] .
    moreover from this have "socketFd c = fd"
      using dirs.by_fd_live [OF d, of fd] True c by auto
    moreover have "\<not> keeps_pass p s s'" using new c c' by (auto simp: keeps_pass_def)
    ultimately show ?thesis using dispatch_steps [OF ok m True _ c run(1)] by blast
  next
    case False
    then have "deref s' p = deref s p" using run(3) unfolding frame_def by metis
    with c c' new show ?thesis by simp
  qed
  with c' reg show ?thesis by blast
qed

text \<open>
  Authentication. No command makes a client pass the password check but a \<open>PASS\<close> of that very
  connection carrying the server's password, and only clients that passed it are registered.
\<close>

theorem authentication:
  assumes ok: "state_ok s" and m: "message_lf_free m" and c: "deref s p = Some c"
  shows "\<exists>r s' c'. dispatch mem fd m s = Some (r, s') \<and> deref s' p = Some c'
    \<and> (registered c' \<longrightarrow> passAccepted c')
    \<and> (passAccepted c' \<and> \<not> passAccepted c \<longrightarrow>
        socketFd c = fd \<and> command m = ''PASS'' \<and> params m \<noteq> [] \<and> params m ! 0 = password s)"
proof -
  obtain r s' where "dispatch mem fd m s = Some (r, s')" by (rule dispatcher.returns [OF ok m TrueI])
  with dispatch_pass [OF ok m c this] show ?thesis by blast
qed

theorem registration_any_order_witness:
  "\<exists>s'. run_commands (\<lambda>i. True) 4 [user_msg ''ann'' ''Ann'', pass_msg ''pw'', nick_msg ''ada''] two_clients
      = Some (greeting 4 (let_in ''ada'' ''ann'' ''Ann'' (Client 4)), s') \<and> state_ok s'"
proof -
  have s: "getClientByFd 4 two_clients = 1" "deref two_clients 1 = Some (Client 4)"
    "getClientByNick ''ada'' two_clients = NULL" "password two_clients = ''pw''"
    by (simp_all add: two_clients_eq getClientByFd_def deref_def map_find_def getClientByNick_def)
  have "lf_free ''ann''" "lf_free ''Ann''" "lf_free ''pw''" by (simp_all add: lf_simps)
  with s registration_any_order [OF state_ok_two_clients s(1) _ s(2), of "''ada''" "''ann''" "''Ann''"
      "[user_msg ''ann'' ''Ann'', pass_msg ''pw'', nick_msg ''ada'']" "\<lambda>i. True"] sample_nicks(1)
  show ?thesis by (auto simp: Client_def)
qed

theorem authentication_witness:
  "\<exists>r s' c'. dispatch (\<lambda>i. True) 4 (nick_msg ''ada'') two_clients = Some (r, s')
    \<and> deref s' 1 = Some c' \<and> \<not> passAccepted c'"
proof -
  have c: "deref two_clients 1 = Some (Client 4)" by (simp add: two_clients_eq deref_def map_find_def)
  have "message_lf_free (nick_msg ''ada'')" by (simp add: nick_msg_def message_lf_free_def lf_simps)
  from authentication [OF state_ok_two_clients this c, of "\<lambda>i. True" 4] show ?thesis
    by (auto simp: nick_msg_def Client_def)
qed

end
