(* ===== verification/Server.thy ===== *)
theory Server
  imports Registration
begin

section \<open>Server\<close>

text \<open>
  \<open>Server.cpp\<close>: connections, their receive and send buffers, and the \<open>poll\<close> loop.

  What the operating system answers (the descriptor \<open>accept\<close> returns, the bytes \<open>recv\<close> delivers,
  how many bytes \<open>send\<close> takes, the \<open>revents\<close> of \<open>poll\<close>) and whether allocations succeed are
  arguments. Two fields of the state record what the program asked of the system: \<open>closedFds\<close>
  (every \<open>close\<close>) and \<open>wire\<close> (every byte \<open>send\<close> took). \<open>None\<close> is, as everywhere, undefined
  behaviour: here also reading \<open>_pollfds\<close> past its end or writing past the receive array.
\<close>

unbundle bit_operations_syntax

type_synonym short = "16 word"

definition POLLIN :: short where "POLLIN = 0x01"
definition POLLOUT :: short where "POLLOUT = 0x04"
definition POLLERR :: short where "POLLERR = 0x08"
definition POLLHUP :: short where "POLLHUP = 0x10"
definition POLLNVAL :: short where "POLLNVAL = 0x20"

record pollfd =
  pfFd :: int
  events :: short
  revents :: short

record server =
  port :: int
  serverPassword :: string
  pollfds :: "pollfd list"
  serverFd :: int
  recvBuffers :: "(int, string) std_map"
  sendBuffers :: "(int, string) std_map"
  serverState :: server_state
  closedFds :: "int list"
  wire :: "(int \<times> string) list"

subsection \<open>Small loops over \<open>_pollfds\<close> and the buffers\<close>

text \<open>The three loops over \<open>_pollfds\<close> act on the first entry of a descriptor and stop.\<close>

primrec on_first :: "int \<Rightarrow> (pollfd \<Rightarrow> pollfd) \<Rightarrow> pollfd list \<Rightarrow> pollfd list" where
  "on_first fd f [] = []"
| "on_first fd f (pf # pfs) = (if pfFd pf = fd then f pf # pfs else pf # on_first fd f pfs)"

primrec erase_first :: "int \<Rightarrow> pollfd list \<Rightarrow> pollfd list" where
  "erase_first fd [] = []"
| "erase_first fd (pf # pfs) = (if pfFd pf = fd then pfs else pf # erase_first fd pfs)"

definition raise_flag :: "short \<Rightarrow> pollfd \<Rightarrow> pollfd" where
  "raise_flag f pf = pf\<lparr>events := events pf OR f\<rparr>"

definition clear_flag :: "short \<Rightarrow> pollfd \<Rightarrow> pollfd" where
  "clear_flag f pf = pf\<lparr>events := events pf AND NOT f\<rparr>"

text \<open>\<open>m[fd]\<close>: a missing entry is created empty.\<close>

definition buf_at :: "(int, string) std_map \<Rightarrow> int \<Rightarrow> string" where
  "buf_at m fd = (case map_find m fd of None \<Rightarrow> '''' | Some b \<Rightarrow> b)"

definition set_buf :: "int \<Rightarrow> string \<Rightarrow> (int, string) std_map \<Rightarrow> (int, string) std_map" where
  "set_buf fd b m = map_put fd b m"

subsection \<open>Connecting and disconnecting\<close>

definition acceptNewClient :: "int \<Rightarrow> ptr option \<Rightarrow> server \<Rightarrow> server" where
  "acceptNewClient clientFd mem srv =
     (if 0 \<le> clientFd then
        srv\<lparr>pollfds := pollfds srv @ [\<lparr>pfFd = clientFd, events = POLLIN, revents = 0\<rparr>],
            recvBuffers := set_buf clientFd '''' (recvBuffers srv),
            sendBuffers := set_buf clientFd '''' (sendBuffers srv),
            serverState := snd (addNewClient mem clientFd (serverState srv))\<rparr>
      else srv)"

definition disconnectClient :: "int \<Rightarrow> server \<Rightarrow> server option" where
  "disconnectClient clientFd srv =
     do {
       let srv = srv\<lparr>closedFds := closedFds srv @ [clientFd]\<rparr>;
       let srv = srv\<lparr>recvBuffers := map_erase clientFd (recvBuffers srv)\<rparr>;
       let srv = srv\<lparr>sendBuffers := map_erase clientFd (sendBuffers srv)\<rparr>;
       (removed, s) \<leftarrow> removeClient clientFd (serverState srv);
       Some (srv\<lparr>serverState := s, pollfds := erase_first clientFd (pollfds srv)\<rparr>)
     }"

subsection \<open>Messages\<close>

definition queueResponse :: "int \<Rightarrow> string \<Rightarrow> server \<Rightarrow> server" where
  "queueResponse clientFd message srv =
     srv\<lparr>sendBuffers := set_buf clientFd (buf_at (sendBuffers srv) clientFd @ message) (sendBuffers srv),
         pollfds := on_first clientFd (raise_flag POLLOUT) (pollfds srv)\<rparr>"

primrec queue_replies :: "t_reply list \<Rightarrow> server \<Rightarrow> server" where
  "queue_replies [] srv = srv"
| "queue_replies (r # rs) srv = queue_replies rs (queueResponse (replyFd r) (replyText r) srv)"

definition processMessage :: "(nat \<Rightarrow> bool) \<Rightarrow> int \<Rightarrow> string \<Rightarrow> server \<Rightarrow> server option" where
  "processMessage mem clientFd message srv =
     do {
       msg \<leftarrow> parse message;
       if getCommand msg = '''' then Some srv
       else do {
         (result, s) \<leftarrow> dispatch mem clientFd msg (serverState srv);
         let srv = queue_replies (getReplies result) (srv\<lparr>serverState := s\<rparr>);
         if shouldDisconnect result then disconnectClient clientFd srv else Some srv
       }
     }"

subsection \<open>Receiving\<close>

definition sanitize :: "string \<Rightarrow> string" where
  "sanitize chunk = filter (\<lambda>c. \<not> (byte c < 0x20 \<and> c \<noteq> CR \<and> c \<noteq> LF)) chunk"

definition find_char :: "char \<Rightarrow> string \<Rightarrow> nat option" where
  "find_char c s =
     (let pos = length (takeWhile (\<lambda>d. d \<noteq> c) s) in if pos < length s then Some pos else None)"

definition strip_cr :: "string \<Rightarrow> string" where
  "strip_cr line = (if line \<noteq> '''' \<and> last line = CR then butlast line else line)"

lemma queue_replies_recv [simp]: "recvBuffers (queue_replies rs srv) = recvBuffers srv"
  by (induction rs arbitrary: srv) (simp_all add: queueResponse_def)

lemma disconnect_recv:
  "disconnectClient fd srv = Some srv' \<Longrightarrow> recvBuffers srv' = map_erase fd (recvBuffers srv)"
  by (auto simp: disconnectClient_def Let_def split: Option.bind_splits)

lemma processMessage_recv:
  "processMessage mem fd line srv = Some srv' \<Longrightarrow>
    recvBuffers srv' = recvBuffers srv \<or> map_find (recvBuffers srv') fd = None"
  by (auto simp: processMessage_def Let_def disconnect_recv map_find_simps
      split: Option.bind_splits if_splits)

text \<open>
  The \<open>while\<close> loop over the receive buffer; \<open>i\<close> numbers the lines of the call (\<open>mems i\<close> are the
  allocation results of the command on line \<open>i\<close>).
\<close>

function receive_lines :: "(nat \<Rightarrow> nat \<Rightarrow> bool) \<Rightarrow> nat \<Rightarrow> int \<Rightarrow> server \<Rightarrow> server option" where
  "receive_lines mems i clientFd srv =
     (let buf = buf_at (recvBuffers srv) clientFd in
      case find_char LF buf of
        None \<Rightarrow> Some srv
      | Some pos \<Rightarrow>
          (let line = strip_cr (take pos buf);
               srv1 = srv\<lparr>recvBuffers := set_buf clientFd (drop (pos + 1) buf) (recvBuffers srv)\<rparr>
           in do {
             srv2 \<leftarrow> processMessage (mems i) clientFd line srv1;
             if map_find (recvBuffers srv2) clientFd = None then Some srv2
             else receive_lines mems (i + 1) clientFd srv2
           }))"
  by pat_completeness auto
termination
proof (relation "measure (\<lambda>(mems, i, fd, srv). length (buf_at (recvBuffers srv) fd))", goal_cases)
  case 1
  then show ?case by simp
next
  case (2 mems i fd srv buf pos line srv1 srv2)
  then have "pos < length buf" by (simp add: find_char_def Let_def split: if_splits)
  moreover have "recvBuffers srv2 = recvBuffers srv1"
    using processMessage_recv [OF 2(5)] 2(6) by blast
  ultimately show ?case
    using 2(1,4) by (simp add: buf_at_def set_buf_def map_find_simps)
qed

declare receive_lines.simps [simp del]

text \<open>
  \<open>recv\<close> fails because it would block or was interrupted (\<open>EAGAIN\<close>, \<open>EWOULDBLOCK\<close>, \<open>EINTR\<close>) or for
  another reason, or it delivers bytes. The test that tells the failures apart is commented out
  in the code. \<open>Received ''''\<close> is a \<open>recv\<close> of 0 bytes; \<open>buffer[bytesRead] = 0\<close> needs \<open>bytesRead < 512\<close>.
\<close>

datatype recv_result = Recv_again | Recv_error | Received string

definition receiveData :: "(nat \<Rightarrow> nat \<Rightarrow> bool) \<Rightarrow> int \<Rightarrow> recv_result \<Rightarrow> server \<Rightarrow> server option" where
  "receiveData mems clientFd res srv =
     (case res of
        Recv_again \<Rightarrow> disconnectClient clientFd srv
      | Recv_error \<Rightarrow> disconnectClient clientFd srv
      | Received bytes \<Rightarrow>
          if bytes = '''' then disconnectClient clientFd srv
          else if \<not> length bytes < 512 then None
          else
            (let chunk = sanitize bytes;
                 srv = srv\<lparr>recvBuffers :=
                   set_buf clientFd (buf_at (recvBuffers srv) clientFd @ chunk) (recvBuffers srv)\<rparr>
             in receive_lines mems 0 clientFd srv))"

subsection \<open>Sending\<close>

definition stop_writing :: "int \<Rightarrow> server \<Rightarrow> server" where
  "stop_writing clientFd srv =
     srv\<lparr>pollfds := on_first clientFd (clear_flag POLLOUT) (pollfds srv)\<rparr>"

definition sendData :: "int \<Rightarrow> int \<Rightarrow> server \<Rightarrow> server option" where
  "sendData clientFd bytesSent srv =
     (let buf = buf_at (sendBuffers srv) clientFd;
          srv = srv\<lparr>sendBuffers := set_buf clientFd buf (sendBuffers srv)\<rparr>
      in if buf = '''' then Some (stop_writing clientFd srv)
         else if 0 < bytesSent then
           (let rest = drop (nat bytesSent) buf;
                srv = srv\<lparr>wire := wire srv @ [(clientFd, take (nat bytesSent) buf)],
                          sendBuffers := set_buf clientFd rest (sendBuffers srv)\<rparr>
            in Some (if rest = '''' then stop_writing clientFd srv else srv))
         else if bytesSent < 0 then disconnectClient clientFd srv
         else Some srv)"

subsection \<open>The poll loop\<close>

text \<open>What the system answers during one pass of the \<open>for\<close> loop.\<close>

record pass_input =
  accepted :: int
  newClient :: "ptr option"
  received :: recv_result
  bytesSent :: int
  allocs :: "nat \<Rightarrow> nat \<Rightarrow> bool"

definition revents_at :: "server \<Rightarrow> nat \<Rightarrow> short option" where
  "revents_at srv i = (if i < length (pollfds srv) then Some (revents (pollfds srv ! i)) else None)"

definition pass_in :: "pass_input \<Rightarrow> short \<Rightarrow> int \<Rightarrow> server \<Rightarrow> (server \<times> bool) option" where
  "pass_in inp re clientFd srv =
     (if re AND POLLIN \<noteq> 0 then
        (if clientFd = serverFd srv
         then Some (acceptNewClient (accepted inp) (newClient inp) srv, False)
         else do {
           srv \<leftarrow> receiveData (allocs inp) clientFd (received inp) srv;
           Some (srv, map_find (recvBuffers srv) clientFd = None)
         })
      else Some (srv, False))"

definition pass_out :: "pass_input \<Rightarrow> nat \<Rightarrow> int \<Rightarrow> bool \<Rightarrow> server \<Rightarrow> (server \<times> bool) option" where
  "pass_out inp i clientFd disconnected srv =
     do {
       srv \<leftarrow> (if \<not> disconnected then do {
                 re \<leftarrow> revents_at srv i;
                 if re AND POLLOUT \<noteq> 0 then sendData clientFd (bytesSent inp) srv else Some srv
               } else Some srv);
       if \<not> disconnected then do {
         re \<leftarrow> revents_at srv i;
         if re AND (POLLERR OR POLLHUP OR POLLNVAL) \<noteq> 0
         then do { srv \<leftarrow> disconnectClient clientFd srv; Some (srv, True) }
         else Some (srv, disconnected)
       } else Some (srv, disconnected)
     }"

definition poll_pass :: "pass_input \<Rightarrow> nat \<Rightarrow> server \<Rightarrow> (nat \<times> server) option" where
  "poll_pass inp i srv =
     do {
       re \<leftarrow> revents_at srv i;
       let clientFd = pfFd (pollfds srv ! i);
       (srv, disconnected) \<leftarrow> pass_in inp re clientFd srv;
       (srv, disconnected) \<leftarrow> pass_out inp i clientFd disconnected srv;
       Some (if \<not> disconnected then i + 1 else i, srv)
     }"

text \<open>\<open>os k i srv\<close> is what the system answers in the \<open>k\<close>-th pass of a round, which serves entry \<open>i\<close> of \<open>srv\<close>.\<close>

partial_function (option) poll_for ::
  "(nat \<Rightarrow> nat \<Rightarrow> server \<Rightarrow> pass_input) \<Rightarrow> nat \<Rightarrow> nat \<Rightarrow> server \<Rightarrow> server option" where
  "poll_for os k i srv =
     (if i < length (pollfds srv) then
        Option.bind (poll_pass (os k i srv) i srv) (\<lambda>(i, srv). poll_for os (k + 1) i srv)
      else Some srv)"

record round_input =
  pollResult :: int
  pollRevents :: "server \<Rightarrow> nat \<Rightarrow> short"
  passes :: "nat \<Rightarrow> nat \<Rightarrow> server \<Rightarrow> pass_input"

definition set_revents :: "(nat \<Rightarrow> short) \<Rightarrow> pollfd list \<Rightarrow> pollfd list" where
  "set_revents f pfs = map (\<lambda>(i, pf). pf\<lparr>revents := f i\<rparr>) (enumerate 0 pfs)"

text \<open>
  One iteration of \<open>ircLoop\<close>, and the loop over the iterations until \<open>g_server_running\<close> is
  cleared; \<open>Inl (e, srv)\<close> is a thrown
  \<open>std::runtime_error\<close> and the server as it is when the stack is unwound. \<open>&_pollfds[0]\<close> needs a non-empty vector.
\<close>

definition poll_round :: "round_input \<Rightarrow> server \<Rightarrow> ((string \<times> server) + server) option" where
  "poll_round rd srv =
     (if pollfds srv = [] then None
      else if pollResult rd < 0 then Some (Inl (''Poll failed.'', srv))
      else do {
        srv \<leftarrow> poll_for (passes rd) 0 0 (srv\<lparr>pollfds := set_revents (pollRevents rd srv) (pollfds srv)\<rparr>);
        Some (Inr srv)
      })"

primrec ircLoop :: "round_input list \<Rightarrow> server \<Rightarrow> ((string \<times> server) + server) option" where
  "ircLoop [] srv = Some (Inr srv)"
| "ircLoop (rd # rds) srv =
     do {
       out \<leftarrow> poll_round rd srv;
       case out of Inl e \<Rightarrow> Some (Inl e) | Inr srv \<Rightarrow> ircLoop rds srv
     }"

subsection \<open>Construction and destruction\<close>

record setup_input =
  sock :: int
  setOption :: int
  bindResult :: int
  listenResult :: int

definition setupSocket :: "setup_input \<Rightarrow> server \<Rightarrow> string + server" where
  "setupSocket inp srv =
     (let srv = srv\<lparr>serverFd := sock inp\<rparr> in
      if serverFd srv < 0 then Inl ''Failed to create socket''
      else if setOption inp < 0 then Inl ''Failed to set socket options''
      else if bindResult inp < 0 then Inl ''Failed to bind socket''
      else if listenResult inp < 0 then Inl ''Failed to listen on socket''
      else Inr (srv\<lparr>pollfds := pollfds srv @ [\<lparr>pfFd = serverFd srv, events = POLLIN, revents = 0\<rparr>]\<rparr>))"

definition Server :: "setup_input \<Rightarrow> int \<Rightarrow> string \<Rightarrow> string + server" where
  "Server inp p pw =
     setupSocket inp \<lparr>port = p, serverPassword = pw, pollfds = [], serverFd = -1, recvBuffers = [],
       sendBuffers = [], serverState = ServerState pw, closedFds = [], wire = []\<rparr>"

text \<open>The destructor closes every descriptor; the member \<open>_state\<close> is destroyed after it.\<close>

definition destroy_Server :: "server \<Rightarrow> server option" where
  "destroy_Server srv =
     do {
       let srv = srv\<lparr>closedFds := closedFds srv @ filter (\<lambda>fd. 0 \<le> fd) (map pfFd (pollfds srv))\<rparr>;
       s \<leftarrow> destroy_ServerState (serverState srv);
       Some (srv\<lparr>serverState := s\<rparr>)
     }"

end
