(* ===== verification/Server_Invariant.thy ===== *)
theory Server_Invariant
  imports Server "HOL-Library.Sublist"
begin

section \<open>The invariant of the event loop\<close>

text \<open>
  Poll entries, buffers and clients describe the same connections, and an entry asks for \<open>POLLOUT\<close>
  exactly when its connection has something to send. Every operation of the loop keeps this.
\<close>

subsection \<open>The invariant\<close>

definition fds :: "server \<Rightarrow> int list" where
  "fds srv = map pfFd (pollfds srv)"

definition conns :: "server \<Rightarrow> int set" where
  "conns srv = set (fds srv) - {serverFd srv}"

definition has_entry :: "(int, string) std_map \<Rightarrow> int \<Rightarrow> bool" where
  "has_entry m fd \<longleftrightarrow> map_find m fd \<noteq> None"

definition flags_ok :: "(int, string) std_map \<Rightarrow> pollfd \<Rightarrow> bool" where
  "flags_ok sbufs pf \<longleftrightarrow>
     events pf AND POLLIN \<noteq> 0 \<and> (events pf AND POLLOUT \<noteq> 0 \<longleftrightarrow> buf_at sbufs (pfFd pf) \<noteq> '''')"

definition srv_core :: "server \<Rightarrow> bool" where
  "srv_core srv \<longleftrightarrow>
     state_ok (serverState srv)
     \<and> map_ok (recvBuffers srv) \<and> map_ok (sendBuffers srv) \<and> distinct (fds srv)
     \<and> (\<forall>fd. has_entry (recvBuffers srv) fd \<longleftrightarrow> fd \<in> conns srv)
     \<and> (\<forall>fd. has_entry (sendBuffers srv) fd \<longleftrightarrow> fd \<in> conns srv)
     \<and> (\<forall>fd. getClientByFd fd (serverState srv) \<noteq> NULL \<longrightarrow> fd \<in> conns srv)
     \<and> (\<forall>pf \<in> set (pollfds srv). flags_ok (sendBuffers srv) pf)"

text \<open>Between calls no receive buffer holds a complete line.\<close>

definition srv_ok :: "server \<Rightarrow> bool" where
  "srv_ok srv \<longleftrightarrow> srv_core srv \<and> (\<forall>fd. lf_free (buf_at (recvBuffers srv) fd))"

lemma srv_coreD:
  assumes "srv_core srv"
  shows "state_ok (serverState srv)" "map_ok (recvBuffers srv)" "map_ok (sendBuffers srv)"
    "distinct (fds srv)" "has_entry (recvBuffers srv) fd \<longleftrightarrow> fd \<in> conns srv"
    "has_entry (sendBuffers srv) fd \<longleftrightarrow> fd \<in> conns srv"
    "getClientByFd fd (serverState srv) \<noteq> NULL \<Longrightarrow> fd \<in> conns srv"
    "pf \<in> set (pollfds srv) \<Longrightarrow> flags_ok (sendBuffers srv) pf"
  using assms unfolding srv_core_def by blast+

lemma srv_coreI:
  assumes "state_ok (serverState srv)" and "map_ok (recvBuffers srv)" and "map_ok (sendBuffers srv)"
    and "distinct (fds srv)" and "\<And>fd. has_entry (recvBuffers srv) fd \<longleftrightarrow> fd \<in> conns srv"
    and "\<And>fd. has_entry (sendBuffers srv) fd \<longleftrightarrow> fd \<in> conns srv"
    and "\<And>fd. getClientByFd fd (serverState srv) \<noteq> NULL \<Longrightarrow> fd \<in> conns srv"
    and "\<And>pf. pf \<in> set (pollfds srv) \<Longrightarrow> flags_ok (sendBuffers srv) pf"
  shows "srv_core srv"
  using assms unfolding srv_core_def by blast

lemma has_entry_simps [simp]:
  "has_entry (set_buf k b m) fd \<longleftrightarrow> fd = k \<or> has_entry m fd"
  "has_entry (map_erase k m) fd \<longleftrightarrow> fd \<noteq> k \<and> has_entry m fd"
  by (auto simp: has_entry_def set_buf_def map_find_simps)

lemma buf_at_simps [simp]:
  "buf_at (set_buf k b m) fd = (if fd = k then b else buf_at m fd)"
  "buf_at (map_erase k m) fd = (if fd = k then '''' else buf_at m fd)"
  by (auto simp: buf_at_def set_buf_def map_find_simps)

lemma map_ok_set_buf [ok_intro]: "map_ok m \<Longrightarrow> map_ok (set_buf k b m)"
  unfolding set_buf_def by (rule map_ok_put)

subsection \<open>Flags\<close>

lemma POLL_neq_0 [simp]: "POLLIN \<noteq> 0" "POLLOUT \<noteq> 0" "POLLIN AND POLLOUT = 0"
  by (simp_all add: POLLIN_def POLLOUT_def)

lemma flag_ops:
  fixes e :: short
  shows "(e OR POLLOUT) AND POLLOUT \<noteq> 0" "(e OR POLLOUT) AND POLLIN = e AND POLLIN"
    "(e AND NOT POLLOUT) AND POLLOUT = 0" "(e AND NOT POLLOUT) AND POLLIN = e AND POLLIN"
proof -
  show "(e OR POLLOUT) AND POLLOUT \<noteq> 0" by simp
  show "(e OR POLLOUT) AND POLLIN = e AND POLLIN" "(e AND NOT POLLOUT) AND POLLIN = e AND POLLIN"
    "(e AND NOT POLLOUT) AND POLLOUT = 0"
    by (auto simp: POLLOUT_def POLLIN_def bit_simps intro!: bit_word_eqI)
qed

lemma flag_fields [simp]:
  "pfFd (raise_flag f pf) = pfFd pf" "pfFd (clear_flag f pf) = pfFd pf"
  "revents (raise_flag f pf) = revents pf" "revents (clear_flag f pf) = revents pf"
  "events (raise_flag f pf) = events pf OR f" "events (clear_flag f pf) = events pf AND NOT f"
  by (simp_all add: raise_flag_def clear_flag_def)

subsection \<open>Loops over the poll entries\<close>

lemma distinct_head: "distinct (map g (y # ys)) \<Longrightarrow> x \<in> set ys \<Longrightarrow> g x \<noteq> g y"
  by (induction ys) auto

lemma on_first_map:
  assumes "\<And>pf. pfFd (f pf) = pfFd pf" and "distinct (map pfFd pfs)"
  shows "on_first fd f pfs = map (\<lambda>pf. if pfFd pf = fd then f pf else pf) pfs"
  using assms(2)
proof (induction pfs)
  case (Cons pf pfs)
  then have "pfFd x \<noteq> pfFd pf" if "x \<in> set pfs" for x
    using distinct_head [OF _ that, of pfFd pf] Cons.prems by blast
  then have "map (\<lambda>x. if pfFd x = fd then f x else x) pfs = pfs" if "pfFd pf = fd"
    using that by (intro map_idI) auto
  with Cons show ?case by auto
qed simp

lemma on_first_fields [simp]:
  assumes "\<And>pf. pfFd (f pf) = pfFd pf"
  shows "map pfFd (on_first fd f pfs) = map pfFd pfs"
  using assms by (induction pfs) simp_all

lemma on_first_revents [simp]:
  assumes "\<And>pf. revents (f pf) = revents pf"
  shows "map revents (on_first fd f pfs) = map revents pfs"
  using assms by (induction pfs) simp_all

lemma erase_first_filter:
  "distinct (map pfFd pfs) \<Longrightarrow> erase_first fd pfs = filter (\<lambda>pf. pfFd pf \<noteq> fd) pfs"
proof (induction pfs)
  case (Cons pf pfs)
  then have "pfFd x \<noteq> pfFd pf" if "x \<in> set pfs" for x
    using distinct_head [OF _ that, of pfFd pf] Cons.prems by blast
  then have "filter (\<lambda>x. pfFd x \<noteq> fd) pfs = pfs" if "pfFd pf = fd"
    using that by (intro filter_True) auto
  with Cons show ?case by auto
qed simp

subsection \<open>Queueing replies\<close>

lemma queueResponse_fields [simp]:
  "serverState (queueResponse fd t srv) = serverState srv"
  "recvBuffers (queueResponse fd t srv) = recvBuffers srv"
  "serverFd (queueResponse fd t srv) = serverFd srv" "fds (queueResponse fd t srv) = fds srv"
  "conns (queueResponse fd t srv) = conns srv" "wire (queueResponse fd t srv) = wire srv"
  "closedFds (queueResponse fd t srv) = closedFds srv"
  "map revents (pollfds (queueResponse fd t srv)) = map revents (pollfds srv)"
  by (simp_all add: queueResponse_def fds_def conns_def)

lemma queueResponse_core:
  assumes core: "srv_core srv" and fd: "fd \<in> conns srv" and t: "t \<noteq> ''''"
  shows "srv_core (queueResponse fd t srv)"
proof (rule srv_coreI)
  have dist: "distinct (map pfFd (pollfds srv))" using srv_coreD(4) [OF core] by (simp add: fds_def)
  note flags = srv_coreD(8) [OF core]
  show "flags_ok (sendBuffers (queueResponse fd t srv)) pf"
    if "pf \<in> set (pollfds (queueResponse fd t srv))" for pf
    using that flags t
    by (auto simp: queueResponse_def on_first_map [OF _ dist] flags_ok_def flag_ops)
  show "has_entry (sendBuffers (queueResponse fd t srv)) f \<longleftrightarrow> f \<in> conns (queueResponse fd t srv)" for f
    using srv_coreD(6) [OF core, of f] fd
    by (auto simp: queueResponse_def fds_def conns_def)
  show "map_ok (sendBuffers (queueResponse fd t srv))"
    using srv_coreD(3) [OF core] by (auto simp: queueResponse_def intro: ok_intro)
qed (use srv_coreD [OF core] in simp_all)

lemma queue_replies_core:
  assumes "srv_core srv" and "\<And>r. r \<in> set rs \<Longrightarrow> replyFd r \<in> conns srv \<and> replyText r \<noteq> ''''"
  shows "srv_core (queue_replies rs srv)"
  using assms
proof (induction rs arbitrary: srv)
  case (Cons r rs)
  then show ?case
    by (simp add: queueResponse_core)
qed simp

lemma queue_replies_fields [simp]:
  "serverState (queue_replies rs srv) = serverState srv"
  "serverFd (queue_replies rs srv) = serverFd srv" "fds (queue_replies rs srv) = fds srv"
  "conns (queue_replies rs srv) = conns srv" "wire (queue_replies rs srv) = wire srv"
  "closedFds (queue_replies rs srv) = closedFds srv"
  "map revents (pollfds (queue_replies rs srv)) = map revents (pollfds srv)"
  by (induction rs arbitrary: srv) simp_all

lemma server_update_fields [simp]:
  "fds (srv\<lparr>serverState := s\<rparr>) = fds srv" "conns (srv\<lparr>serverState := s\<rparr>) = conns srv"
  "fds (srv\<lparr>recvBuffers := m\<rparr>) = fds srv" "conns (srv\<lparr>recvBuffers := m\<rparr>) = conns srv"
  "fds (srv\<lparr>sendBuffers := m\<rparr>) = fds srv" "conns (srv\<lparr>sendBuffers := m\<rparr>) = conns srv"
  "fds (srv\<lparr>closedFds := cl\<rparr>) = fds srv" "conns (srv\<lparr>closedFds := cl\<rparr>) = conns srv"
  "fds (srv\<lparr>wire := w\<rparr>) = fds srv" "conns (srv\<lparr>wire := w\<rparr>) = conns srv"
  by (simp_all add: fds_def conns_def)

lemma srv_core_state:
  assumes core: "srv_core srv" and s: "state_ok s" "clientsByFd s = clientsByFd (serverState srv)"
  shows "srv_core (srv\<lparr>serverState := s\<rparr>)"
  using core s unfolding srv_core_def
  by (simp add: conns_def fds_def getClientByFd_def)

subsection \<open>Output streams\<close>

text \<open>Everything the program has ever accepted for a descriptor: taken by \<open>send\<close>, or still queued.\<close>

definition sent :: "int \<Rightarrow> server \<Rightarrow> string" where
  "sent fd srv = concat (map snd (filter (\<lambda>(f, t). f = fd) (wire srv)))"

definition out_stream :: "int \<Rightarrow> server \<Rightarrow> string" where
  "out_stream fd srv = sent fd srv @ buf_at (sendBuffers srv) fd"

lemma out_stream_queue [simp]:
  "out_stream f (queueResponse fd t srv) = out_stream f srv @ (if f = fd then t else '''')"
  by (simp add: out_stream_def sent_def) (simp add: queueResponse_def)

lemma out_stream_replies:
  "out_stream f (queue_replies rs srv)
    = out_stream f srv @ concat (map replyText (filter (\<lambda>r. replyFd r = f) rs))"
  by (induction rs arbitrary: srv) simp_all

lemma out_stream_update [simp]:
  "out_stream f (srv\<lparr>serverState := s\<rparr>) = out_stream f srv"
  "out_stream f (srv\<lparr>recvBuffers := m\<rparr>) = out_stream f srv"
  "out_stream f (srv\<lparr>pollfds := p\<rparr>) = out_stream f srv"
  by (simp_all add: out_stream_def sent_def)

text \<open>\<open>writes srv srv'\<close>: from \<open>srv\<close> to \<open>srv'\<close> every output stream is only extended at its end.\<close>

definition writes :: "server \<Rightarrow> server \<Rightarrow> bool" where
  "writes srv srv' \<longleftrightarrow> (\<forall>f. prefix (out_stream f srv) (out_stream f srv'))"

lemma writes_refl [simp]: "writes srv srv"
  by (simp add: writes_def)

lemma writes_trans: "writes s1 s2 \<Longrightarrow> writes s2 s3 \<Longrightarrow> writes s1 s3"
  unfolding writes_def by (meson prefix_order.trans)

lemma writes_replies: "writes srv (queue_replies rs (srv\<lparr>serverState := s\<rparr>))"
  by (simp add: writes_def out_stream_replies)

subsection \<open>Processing one line\<close>

lemma processMessage_core:
  assumes core: "srv_core srv" and line: "lf_free line"
  obtains srv' where "processMessage mem fd line srv = Some srv'" "srv_core srv'"
    "recvBuffers srv' = recvBuffers srv" "fds srv' = fds srv" "serverFd srv' = serverFd srv"
    "wire srv' = wire srv" "closedFds srv' = closedFds srv" "writes srv srv'"
    "map revents (pollfds srv') = map revents (pollfds srv)"
proof -
  have ok: "state_ok (serverState srv)" by (rule srv_coreD(1) [OF core])
  obtain m where m: "parse line = Some m" by (simp add: parse_eq_spec)
  have lf: "message_lf_free m" by (rule parse_lf_free [OF line m])
  show ?thesis
  proof (cases "command m = ''''")
    case True
    with that m core show ?thesis by (simp add: processMessage_def)
  next
    case False
    obtain r s where run: "dispatch mem fd m (serverState srv) = Some (r, s)" "state_ok s"
        "frame fd (serverState srv) s" "replies_ok (serverState srv) r" "\<not> disconnect r"
      by (rule dispatcher.returns [OF ok lf TrueI])
    let ?srv = "srv\<lparr>serverState := s\<rparr>"
    have core': "srv_core ?srv" using core run by (intro srv_core_state) (simp_all add: frame_def)
    have "replyFd t \<in> conns ?srv \<and> replyText t \<noteq> ''''" if "t \<in> set (replies r)" for t
      using that run(4) srv_coreD(7) [OF core, of "replyFd t"] one_line_neq_Nil [of "replyText t"]
      by (auto simp: replies_ok_def list_all_iff conns_def fds_def)
    then have "srv_core (queue_replies (replies r) ?srv)" by (rule queue_replies_core [OF core'])
    moreover have "processMessage mem fd line srv = Some (queue_replies (replies r) ?srv)"
      using m False run by (simp add: processMessage_def shouldDisconnect_def Let_def)
    ultimately show ?thesis
      using that writes_replies by simp
  qed
qed

subsection \<open>Disconnecting and accepting\<close>

lemma removeClient_ok:
  assumes ok: "state_ok s"
  obtains b s' where "removeClient fd s = Some (b, s')" "state_ok s'"
    "\<And>f. getClientByFd f s' = (if f = fd then NULL else getClientByFd f s)"
proof (cases "map_find (clientsByFd s) fd")
  case None
  then have "getClientByFd fd s = NULL" by (simp add: getClientByFd_def)
  with that [of False s] None ok removeClient_result [OF state_ok_dir [OF ok], of fd]
  show ?thesis by simp
next
  case (Some p)
  obtain c where c: "deref s p = Some c" "socketFd c = fd"
    using fd_fwd [OF state_ok_dir [OF ok] Some] by blast
  have "getClientByFd f (removed fd p c s) = (if f = fd then NULL else getClientByFd f s)" for f
    by (simp add: getClientByFd_def removed_def map_find_simps)
  with that [of True "removed fd p c s"] Some c removeClient_result [OF state_ok_dir [OF ok], of fd]
    state_ok_removed [OF ok c] show ?thesis by simp
qed

lemma disconnectClient_core:
  assumes core: "srv_core srv"
  obtains srv' where "disconnectClient fd srv = Some srv'" "srv_core srv'"
    "pollfds srv' = filter (\<lambda>pf. pfFd pf \<noteq> fd) (pollfds srv)" "serverFd srv' = serverFd srv"
    "recvBuffers srv' = map_erase fd (recvBuffers srv)" "sendBuffers srv' = map_erase fd (sendBuffers srv)"
    "closedFds srv' = closedFds srv @ [fd]" "wire srv' = wire srv"
    "\<And>f. getClientByFd f (serverState srv')
        = (if f = fd then NULL else getClientByFd f (serverState srv))"
proof -
  obtain b s' where rm: "removeClient fd (serverState srv) = Some (b, s')" "state_ok s'"
      "\<And>f. getClientByFd f s' = (if f = fd then NULL else getClientByFd f (serverState srv))"
    by (rule removeClient_ok [OF srv_coreD(1) [OF core], of fd]) blast
  have dist: "distinct (map pfFd (pollfds srv))" using srv_coreD(4) [OF core] by (simp add: fds_def)
  let ?srv = "srv\<lparr>closedFds := closedFds srv @ [fd], recvBuffers := map_erase fd (recvBuffers srv),
    sendBuffers := map_erase fd (sendBuffers srv), serverState := s',
    pollfds := filter (\<lambda>pf. pfFd pf \<noteq> fd) (pollfds srv)\<rparr>"
  have run: "disconnectClient fd srv = Some ?srv"
    using rm(1) by (simp add: disconnectClient_def erase_first_filter [OF dist] Let_def)
  have conns: "conns ?srv = conns srv - {fd}" by (auto simp: conns_def fds_def)
  have "srv_core ?srv"
  proof (rule srv_coreI)
    show "distinct (fds ?srv)" using dist by (simp add: fds_def distinct_map_filter)
    show "has_entry (recvBuffers ?srv) f \<longleftrightarrow> f \<in> conns ?srv" for f
      unfolding conns using srv_coreD(5) [OF core, of f] by auto
    show "has_entry (sendBuffers ?srv) f \<longleftrightarrow> f \<in> conns ?srv" for f
      unfolding conns using srv_coreD(6) [OF core, of f] by auto
    show "f \<in> conns ?srv" if "getClientByFd f (serverState ?srv) \<noteq> NULL" for f
      unfolding conns using that srv_coreD(7) [OF core, of f] rm(3) by (auto split: if_splits)
    show "flags_ok (sendBuffers ?srv) pf" if "pf \<in> set (pollfds ?srv)" for pf
      using that srv_coreD(8) [OF core, of pf] by (auto simp: flags_ok_def)
  qed (use rm(2) srv_coreD(2,3) [OF core] in \<open>simp_all add: map_ok_erase\<close>)
  with run that rm(3) show ?thesis by simp
qed

lemma getClientByFd_add:
  "getClientByFd f (snd (addNewClient mem fd s)) \<noteq> NULL \<Longrightarrow> f = fd \<or> getClientByFd f s \<noteq> NULL"
  by (auto simp: addNewClient_def getClientByFd_def map_find_simps map_insert_def Let_def
      split: option.splits if_splits)

lemma acceptNewClient_core:
  assumes core: "srv_core srv" and fd: "fd \<notin> set (fds srv)" "fd \<noteq> serverFd srv"
    and mem: "fresh mem (serverState srv)"
  shows "srv_core (acceptNewClient fd mem srv)"
proof (cases "0 \<le> fd")
  case False
  with core show ?thesis by (simp add: acceptNewClient_def)
next
  case True
  let ?srv = "acceptNewClient fd mem srv"
  have conns: "conns ?srv = insert fd (conns srv)"
    using True fd by (auto simp: acceptNewClient_def conns_def fds_def)
  show ?thesis
  proof (rule srv_coreI)
    show "state_ok (serverState ?srv)"
      using True state_ok_addNewClient [OF srv_coreD(1) [OF core] mem] by (simp add: acceptNewClient_def)
    show "distinct (fds ?srv)"
      using True fd srv_coreD(4) [OF core] by (simp add: acceptNewClient_def fds_def)
    show "has_entry (recvBuffers ?srv) f \<longleftrightarrow> f \<in> conns ?srv" for f
      unfolding conns using True srv_coreD(5) [OF core, of f] by (auto simp: acceptNewClient_def)
    show "has_entry (sendBuffers ?srv) f \<longleftrightarrow> f \<in> conns ?srv" for f
      unfolding conns using True srv_coreD(6) [OF core, of f] by (auto simp: acceptNewClient_def)
    show "f \<in> conns ?srv" if "getClientByFd f (serverState ?srv) \<noteq> NULL" for f
      unfolding conns using True that srv_coreD(7) [OF core, of f]
        getClientByFd_add [of f mem fd "serverState srv"]
      by (auto simp: acceptNewClient_def)
    show "flags_ok (sendBuffers ?srv) pf" if "pf \<in> set (pollfds ?srv)" for pf
      using True that srv_coreD(8) [OF core, of pf] fd srv_coreD(6) [OF core, of fd]
      by (auto simp: acceptNewClient_def flags_ok_def fds_def)
  qed (use True srv_coreD(2,3) [OF core] in \<open>simp_all add: acceptNewClient_def map_ok_set_buf\<close>)
qed

subsection \<open>Lines\<close>

text \<open>
  The reference reading of a byte stream: \<open>consume cur s\<close> are the complete lines of \<open>s\<close> when
  \<open>cur\<close> has been read of the current one, and what is left of the last, incomplete one.
\<close>

primrec consume :: "string \<Rightarrow> string \<Rightarrow> string list \<times> string" where
  "consume cur [] = ([], cur)"
| "consume cur (c # cs) =
     (if c = LF then (let (ls, r) = consume '''' cs in (strip_cr cur # ls, r))
      else consume (cur @ [c]) cs)"

lemma consume_append:
  "consume cur (s @ t) =
     (let (ls, r) = consume cur s; (ms, r') = consume r t in (ls @ ms, r'))"
  by (induction s arbitrary: cur) (simp_all add: case_prod_beta Let_def)

lemma consume_lf_free: "lf_free s \<Longrightarrow> consume cur s = ([], cur @ s)"
  by (induction s arbitrary: cur) (simp_all add: lf_simps)

lemma consume_line:
  "lf_free l \<Longrightarrow> consume '''' (l @ LF # r) = (strip_cr l # fst (consume '''' r), snd (consume '''' r))"
  by (simp add: consume_append consume_lf_free case_prod_beta Let_def)

lemma strip_cr_lf_free: "lf_free l \<Longrightarrow> lf_free (strip_cr l)"
  by (auto simp: strip_cr_def lf_free_def dest: in_set_butlastD)

lemma consume_results:
  "lf_free cur \<Longrightarrow> list_all lf_free (fst (consume cur s)) \<and> lf_free (snd (consume cur s))"
proof (induction s arbitrary: cur)
  case (Cons c s)
  show ?case
  proof (cases "c = LF")
    case True
    with Cons.IH [of "[]"] Cons.prems show ?thesis
      by (simp add: lf_simps case_prod_beta strip_cr_lf_free)
  next
    case False
    with Cons.IH [of "cur @ [c]"] Cons.prems show ?thesis by (simp add: lf_simps)
  qed
qed simp

lemma find_char_LF:
  "find_char LF s = None \<Longrightarrow> lf_free s"
  "find_char LF s = Some pos \<Longrightarrow> s = take pos s @ LF # drop (pos + 1) s \<and> lf_free (take pos s)"
proof -
  let ?t = "takeWhile (\<lambda>d. d \<noteq> LF) s" and ?d = "dropWhile (\<lambda>d. d \<noteq> LF) s"
  show "lf_free s" if "find_char LF s = None"
  proof -
    have "length ?t + length ?d = length s" by (metis length_append takeWhile_dropWhile_id)
    moreover have "\<not> length ?t < length s"
      using that by (simp add: find_char_def Let_def split: if_splits)
    ultimately have "length ?d = 0" by linarith
    then have "?d = []" by (simp only: length_0_conv)
    then show ?thesis unfolding dropWhile_eq_Nil_conv lf_free_def by blast
  qed
  assume "find_char LF s = Some pos"
  then have pos: "pos = length ?t" "pos < length s"
    by (auto simp: find_char_def Let_def split: if_splits)
  have "take pos s = ?t" by (simp add: pos(1) takeWhile_eq_take [symmetric])
  moreover have "s ! pos = LF" using nth_length_takeWhile [of "\<lambda>d. d \<noteq> LF" s] pos by simp
  moreover have "lf_free ?t" by (auto simp: lf_free_def dest: set_takeWhileD)
  ultimately show "s = take pos s @ LF # drop (pos + 1) s \<and> lf_free (take pos s)"
    using id_take_nth_drop [OF pos(2)] by simp
qed

end
