(* ===== verification/Server_Streams.thy ===== *)
theory Server_Streams
  imports Server_Invariant
begin

section \<open>Byte streams in and out\<close>

text \<open>
  \<open>receiveData\<close> reads a stream of lines whatever the pieces it arrives in, and \<open>sendData\<close> writes
  the queued replies as a stream without loss, duplication or reordering.
\<close>

subsection \<open>Lines are processed one by one\<close>

primrec process_lines ::
  "(nat \<Rightarrow> nat \<Rightarrow> bool) \<Rightarrow> nat \<Rightarrow> int \<Rightarrow> string list \<Rightarrow> server \<Rightarrow> server option" where
  "process_lines mems i fd [] srv = Some srv"
| "process_lines mems i fd (l # ls) srv =
     Option.bind (processMessage (mems i) fd l srv) (process_lines mems (i + 1) fd ls)"

lemma process_lines_append:
  "process_lines mems i fd (ls @ ms) srv =
    Option.bind (process_lines mems i fd ls srv) (process_lines mems (i + length ls) fd ms)"
  by (induction ls arbitrary: i srv) (auto split: Option.bind_splits)

lemma process_lines_shift:
  "process_lines (\<lambda>j. mems (j + n)) i fd ls = process_lines mems (i + n) fd ls"
  by (rule ext, induction ls arbitrary: i) (simp_all cong: Option.bind_cong)

lemma process_lines_core:
  assumes "srv_core srv" and "list_all lf_free ls"
  obtains srv' where "process_lines mems i fd ls srv = Some srv'" "srv_core srv'"
    "recvBuffers srv' = recvBuffers srv" "fds srv' = fds srv" "serverFd srv' = serverFd srv"
    "wire srv' = wire srv" "closedFds srv' = closedFds srv" "writes srv srv'"
    "map revents (pollfds srv') = map revents (pollfds srv)"
  using assms
proof (induction ls arbitrary: i srv thesis)
  case Nil
  then show ?case by simp
next
  case (Cons l ls)
  from Cons.prems have l: "lf_free l" "list_all lf_free ls" by simp_all
  obtain s1 where s1: "processMessage (mems i) fd l srv = Some s1" "srv_core s1"
      "recvBuffers s1 = recvBuffers srv" "fds s1 = fds srv" "serverFd s1 = serverFd srv"
      "wire s1 = wire srv" "closedFds s1 = closedFds srv" "writes srv s1"
      "map revents (pollfds s1) = map revents (pollfds srv)"
    by (rule processMessage_core [OF Cons.prems(2) l(1)])
  obtain s2 where s2: "process_lines mems (Suc i) fd ls s1 = Some s2" "srv_core s2"
      "recvBuffers s2 = recvBuffers s1" "fds s2 = fds s1" "serverFd s2 = serverFd s1"
      "wire s2 = wire s1" "closedFds s2 = closedFds s1" "writes s1 s2"
      "map revents (pollfds s2) = map revents (pollfds s1)"
    by (rule Cons.IH [OF _ s1(2) l(2)])
  show ?case
    using writes_trans [OF s1(8) s2(8)] by (intro Cons.prems(1) [of s2]) (simp_all add: s1 s2)
qed

text \<open>A message does not look at the receive buffers.\<close>

lemma queueResponse_recv_update:
  "queueResponse fd t (srv\<lparr>recvBuffers := m\<rparr>) = (queueResponse fd t srv)\<lparr>recvBuffers := m\<rparr>"
  by (simp add: queueResponse_def)

lemma queue_replies_recv_update:
  "queue_replies rs (srv\<lparr>recvBuffers := m\<rparr>) = (queue_replies rs srv)\<lparr>recvBuffers := m\<rparr>"
  by (induction rs arbitrary: srv) (simp_all add: queueResponse_recv_update)

lemma processMessage_recv_update:
  assumes core: "srv_core srv" and line: "lf_free line"
  shows "processMessage mem fd line (srv\<lparr>recvBuffers := m\<rparr>)
    = map_option (\<lambda>s. s\<lparr>recvBuffers := m\<rparr>) (processMessage mem fd line srv)"
proof -
  obtain msg where msg: "parse line = Some msg" by (simp add: parse_eq_spec)
  obtain r s where run: "dispatch mem fd msg (serverState srv) = Some (r, s)" "\<not> disconnect r"
    by (rule dispatcher.returns [OF srv_coreD(1) [OF core] parse_lf_free [OF line msg] TrueI])
  have eq: "srv\<lparr>recvBuffers := m, serverState := s\<rparr> = srv\<lparr>serverState := s, recvBuffers := m\<rparr>"
    by simp
  have "queue_replies rs (srv\<lparr>recvBuffers := m, serverState := s\<rparr>)
      = (queue_replies rs (srv\<lparr>serverState := s\<rparr>))\<lparr>recvBuffers := m\<rparr>" for rs
    unfolding eq by (rule queue_replies_recv_update)
  with msg run show ?thesis
    by (simp add: processMessage_def shouldDisconnect_def Let_def)
qed

lemma process_lines_recv_update:
  assumes "srv_core srv" and "list_all lf_free ls"
  shows "process_lines mems i fd ls (srv\<lparr>recvBuffers := m\<rparr>)
    = map_option (\<lambda>s. s\<lparr>recvBuffers := m\<rparr>) (process_lines mems i fd ls srv)"
  using assms
proof (induction ls arbitrary: i srv)
  case (Cons l ls)
  then have l: "lf_free l" "list_all lf_free ls" by simp_all
  obtain s1 where "processMessage (mems i) fd l srv = Some s1" "srv_core s1"
    by (rule processMessage_core [OF Cons.prems(1) l(1)])
  with Cons.IH [OF _ l(2)] processMessage_recv_update [OF Cons.prems(1) l(1)] show ?case by simp
qed simp

subsection \<open>The receive loop\<close>

lemma set_buf_twice: "map_ok m \<Longrightarrow> set_buf fd b (set_buf fd a m) = set_buf fd b m"
  by (simp add: set_buf_def smap.put_put)

lemma set_buf_same: "map_ok m \<Longrightarrow> has_entry m fd \<Longrightarrow> set_buf fd (buf_at m fd) m = m"
  by (auto simp: set_buf_def buf_at_def has_entry_def intro: smap.put_same)

lemma srv_core_recv:
  "srv_core srv \<Longrightarrow> fd \<in> conns srv \<Longrightarrow> srv_core (srv\<lparr>recvBuffers := set_buf fd b (recvBuffers srv)\<rparr>)"
  using srv_coreD [of srv] by (auto intro!: srv_coreI map_ok_set_buf)

lemma receive_lines_spec:
  assumes "srv_core srv" and "fd \<in> conns srv"
    and "consume '''' (buf_at (recvBuffers srv) fd) = (ls, rest)"
  shows "receive_lines mems i fd srv
    = process_lines mems i fd ls (srv\<lparr>recvBuffers := set_buf fd rest (recvBuffers srv)\<rparr>)"
  using assms
proof (induction mems i fd srv arbitrary: ls rule: receive_lines.induct)
  case (1 mems i fd srv)
  note core = "1.prems"(1) and conn = "1.prems"(2)
  note mok = srv_coreD(2) [OF core]
  have entry: "has_entry (recvBuffers srv) fd" using srv_coreD(5) [OF core] conn by simp
  let ?buf = "buf_at (recvBuffers srv) fd"
  show ?case
  proof (cases "find_char LF ?buf")
    case None
    with consume_lf_free [OF find_char_LF(1) [OF None], of "[]"] "1.prems"(3)
      set_buf_same [OF mok entry] show ?thesis
      by (simp add: receive_lines.simps [of mems i fd srv])
  next
    case (Some pos)
    let ?l = "take pos ?buf" and ?r = "drop (pos + 1) ?buf"
    let ?s1 = "srv\<lparr>recvBuffers := set_buf fd ?r (recvBuffers srv)\<rparr>"
    note buf = find_char_LF(2) [OF Some]
    have "consume '''' ?buf = consume '''' (?l @ LF # ?r)"
      by (rule arg_cong [OF conjunct1 [OF buf]])
    with consume_line [OF conjunct2 [OF buf], of ?r] "1.prems"(3)
    have ls: "ls = strip_cr ?l # fst (consume '''' ?r)" "rest = snd (consume '''' ?r)" by simp_all
    have lfl: "lf_free (strip_cr ?l)" by (rule strip_cr_lf_free [OF conjunct2 [OF buf]])
    have core1: "srv_core ?s1" using srv_core_recv [OF core conn] .
    obtain s2 where s2: "processMessage (mems i) fd (strip_cr ?l) ?s1 = Some s2" "srv_core s2"
        "recvBuffers s2 = recvBuffers ?s1" "fds s2 = fds ?s1" "serverFd s2 = serverFd ?s1"
      by (rule processMessage_core [OF core1 lfl])
    have conn2: "fd \<in> conns s2" using conn s2(4,5) by (simp add: conns_def)
    have found: "map_find (recvBuffers s2) fd \<noteq> None"
      by (simp add: s2(3) set_buf_def map_find_simps)
    have "consume '''' (buf_at (recvBuffers s2) fd) = (fst (consume '''' ?r), rest)"
      by (simp add: s2(3) ls(2))
    from "1.IH" [OF refl Some refl refl s2(1) found s2(2) conn2 this]
    have rec: "receive_lines mems i fd srv = process_lines mems (Suc i) fd (fst (consume '''' ?r))
        (s2\<lparr>recvBuffers := set_buf fd rest (recvBuffers s2)\<rparr>)"
      using Some s2(1) found
      by (cases "map_find (recvBuffers s2) fd") (simp_all add: receive_lines.simps [of mems i fd srv] Let_def)
    have twice: "set_buf fd rest (recvBuffers s2) = set_buf fd rest (recvBuffers srv)"
      using set_buf_twice [OF mok] by (simp add: s2(3))
    have "processMessage (mems i) fd (strip_cr ?l)
        (?s1\<lparr>recvBuffers := set_buf fd rest (recvBuffers srv)\<rparr>)
        = Some (s2\<lparr>recvBuffers := set_buf fd rest (recvBuffers srv)\<rparr>)"
      by (simp only: processMessage_recv_update [OF core1 lfl] s2(1) option.map)
    with rec show ?thesis by (simp add: ls(1) twice)
  qed
qed

lemma receiveData_spec:
  assumes core: "srv_core srv" and conn: "fd \<in> conns srv"
    and bytes: "bytes \<noteq> ''''" "length bytes < 512"
    and lines: "consume '''' (buf_at (recvBuffers srv) fd @ sanitize bytes) = (ls, rest)"
  shows "receiveData mems fd (Received bytes) srv
    = process_lines mems 0 fd ls (srv\<lparr>recvBuffers := set_buf fd rest (recvBuffers srv)\<rparr>)"
proof -
  let ?s = "srv\<lparr>recvBuffers := set_buf fd (buf_at (recvBuffers srv) fd @ sanitize bytes) (recvBuffers srv)\<rparr>"
  have "receiveData mems fd (Received bytes) srv = receive_lines mems 0 fd ?s"
    using bytes by (simp add: receiveData_def Let_def)
  also have "\<dots> = process_lines mems 0 fd ls (?s\<lparr>recvBuffers := set_buf fd rest (recvBuffers ?s)\<rparr>)"
    using conn lines by (intro receive_lines_spec srv_core_recv [OF core conn]) simp_all
  also have "?s\<lparr>recvBuffers := set_buf fd rest (recvBuffers ?s)\<rparr>
      = srv\<lparr>recvBuffers := set_buf fd rest (recvBuffers srv)\<rparr>"
    by (simp add: set_buf_twice srv_coreD(2) [OF core])
  finally show ?thesis .
qed

lemma consume_from_rest:
  "lf_free cur \<Longrightarrow> consume '''' (cur @ s) = consume cur s"
  by (simp add: consume_append consume_lf_free)

lemma receiveData_ok:
  assumes ok: "srv_ok srv" and conn: "fd \<in> conns srv" and bytes: "bytes \<noteq> ''''" "length bytes < 512"
  obtains srv' where "receiveData mems fd (Received bytes) srv = Some srv'" "srv_ok srv'"
    "fds srv' = fds srv" "serverFd srv' = serverFd srv" "wire srv' = wire srv"
    "closedFds srv' = closedFds srv" "writes srv srv'" "map revents (pollfds srv') = map revents (pollfds srv)"
proof -
  have core: "srv_core srv" and lf: "\<And>f. lf_free (buf_at (recvBuffers srv) f)"
    using ok by (simp_all add: srv_ok_def)
  obtain ls rest where lines: "consume '''' (buf_at (recvBuffers srv) fd @ sanitize bytes) = (ls, rest)"
    by (cases "consume '''' (buf_at (recvBuffers srv) fd @ sanitize bytes)")
  have res: "list_all lf_free ls" "lf_free rest"
    using consume_results [of "[]" "buf_at (recvBuffers srv) fd @ sanitize bytes"] lines
    by (simp_all add: lf_simps)
  let ?s = "srv\<lparr>recvBuffers := set_buf fd rest (recvBuffers srv)\<rparr>"
  obtain srv' where s': "process_lines mems 0 fd ls ?s = Some srv'" "srv_core srv'"
      "recvBuffers srv' = recvBuffers ?s" "fds srv' = fds ?s" "serverFd srv' = serverFd ?s"
      "wire srv' = wire ?s" "closedFds srv' = closedFds ?s" "writes ?s srv'"
      "map revents (pollfds srv') = map revents (pollfds ?s)"
    by (rule process_lines_core [OF srv_core_recv [OF core conn] res(1)])
  moreover have "srv_ok srv'" using s'(2,3) lf res(2) by (simp add: srv_ok_def)
  moreover have "writes srv srv'" using s'(8) by (simp add: writes_def)
  ultimately show ?thesis
    using that receiveData_spec [OF core conn bytes lines] by simp
qed

subsection \<open>Sending\<close>

lemma stop_writing_fields [simp]:
  "serverState (stop_writing fd srv) = serverState srv" "recvBuffers (stop_writing fd srv) = recvBuffers srv"
  "sendBuffers (stop_writing fd srv) = sendBuffers srv" "serverFd (stop_writing fd srv) = serverFd srv"
  "fds (stop_writing fd srv) = fds srv" "conns (stop_writing fd srv) = conns srv"
  "wire (stop_writing fd srv) = wire srv" "closedFds (stop_writing fd srv) = closedFds srv"
  "map revents (pollfds (stop_writing fd srv)) = map revents (pollfds srv)"
  by (simp_all add: stop_writing_def fds_def conns_def)

text \<open>Dropping a prefix of a send buffer, with the flag adjusted, keeps the invariant.\<close>

definition drained :: "int \<Rightarrow> string \<Rightarrow> server \<Rightarrow> server" where
  "drained fd b srv =
     (let srv = srv\<lparr>sendBuffers := set_buf fd b (sendBuffers srv)\<rparr>
      in if b = '''' then stop_writing fd srv else srv)"

lemma drained_fields [simp]:
  "serverState (drained fd b srv) = serverState srv" "recvBuffers (drained fd b srv) = recvBuffers srv"
  "sendBuffers (drained fd b srv) = set_buf fd b (sendBuffers srv)" "serverFd (drained fd b srv) = serverFd srv"
  "fds (drained fd b srv) = fds srv" "conns (drained fd b srv) = conns srv"
  "wire (drained fd b srv) = wire srv" "closedFds (drained fd b srv) = closedFds srv"
  "map revents (pollfds (drained fd b srv)) = map revents (pollfds srv)"
  by (simp_all add: drained_def Let_def)

lemma drained_core:
  assumes core: "srv_core srv" and conn: "fd \<in> conns srv"
    and b: "b \<noteq> '''' \<Longrightarrow> buf_at (sendBuffers srv) fd \<noteq> ''''"
  shows "srv_core (drained fd b srv)"
proof (rule srv_coreI)
  have dist: "distinct (map pfFd (pollfds srv))" using srv_coreD(4) [OF core] by (simp add: fds_def)
  note flags = srv_coreD(8) [OF core]
  show "flags_ok (sendBuffers (drained fd b srv)) pf" if "pf \<in> set (pollfds (drained fd b srv))" for pf
    using that flags b
    by (auto simp: drained_def stop_writing_def on_first_map [OF _ dist] flags_ok_def flag_ops Let_def
        split: if_splits)
  show "has_entry (sendBuffers (drained fd b srv)) f \<longleftrightarrow> f \<in> conns (drained fd b srv)" for f
    using srv_coreD(6) [OF core, of f] conn by auto
  show "map_ok (sendBuffers (drained fd b srv))"
    using srv_coreD(3) [OF core] by (auto intro: ok_intro)
qed (use srv_coreD [OF core] in simp_all)

lemma sendData_result:
  assumes core: "srv_core srv" and conn: "fd \<in> conns srv" and n: "0 \<le> n"
  defines "b \<equiv> buf_at (sendBuffers srv) fd"
  shows "sendData fd n srv =
    (if b = '''' then Some (drained fd '''' srv)
     else if n = 0 then Some srv
     else Some ((drained fd (drop (nat n) b) srv)\<lparr>wire := wire srv @ [(fd, take (nat n) b)]\<rparr>))"
proof -
  have entry: "has_entry (sendBuffers srv) fd" using srv_coreD(6) [OF core] conn by simp
  have same: "set_buf fd b (sendBuffers srv) = sendBuffers srv"
    unfolding b_def using set_buf_same [OF srv_coreD(3) [OF core] entry] .
  have "srv\<lparr>sendBuffers := sendBuffers srv\<rparr> = srv" by simp
  with n same show ?thesis
    unfolding b_def [symmetric]
    by (auto simp: sendData_def drained_def stop_writing_def b_def [symmetric] Let_def)
qed

lemma sendData_buffers:
  assumes core: "srv_core srv" and conn: "fd \<in> conns srv" and n: "0 \<le> n"
    and run: "sendData fd n srv = Some srv'"
  shows "buf_at (sendBuffers srv') f
      = (if f = fd then drop (nat n) (buf_at (sendBuffers srv) fd) else buf_at (sendBuffers srv) f)"
    and "out_stream f srv' = out_stream f srv"
  using sendData_result [OF core conn n] run
  by (auto simp: out_stream_def sent_def split: if_splits)

lemma sendData_fails:
  assumes core: "srv_core srv" and conn: "fd \<in> conns srv"
    and n: "n < 0" "buf_at (sendBuffers srv) fd \<noteq> ''''"
  shows "sendData fd n srv = disconnectClient fd srv"
proof -
  have entry: "has_entry (sendBuffers srv) fd" using srv_coreD(6) [OF core] conn by simp
  have "set_buf fd (buf_at (sendBuffers srv) fd) (sendBuffers srv) = sendBuffers srv"
    by (rule set_buf_same [OF srv_coreD(3) [OF core] entry])
  with n show ?thesis by (simp add: sendData_def Let_def)
qed

lemma srv_core_wire [simp]: "srv_core (srv\<lparr>wire := w\<rparr>) = srv_core srv"
  by (simp add: srv_core_def)

lemma srv_ok_wire [simp]: "srv_ok (srv\<lparr>wire := w\<rparr>) = srv_ok srv"
  by (simp add: srv_ok_def)

lemma sendData_ok:
  assumes ok: "srv_ok srv" and conn: "fd \<in> conns srv" and n: "0 \<le> n"
  obtains srv' where "sendData fd n srv = Some srv'" "srv_ok srv'" "fds srv' = fds srv"
    "serverFd srv' = serverFd srv" "recvBuffers srv' = recvBuffers srv" "closedFds srv' = closedFds srv"
    "serverState srv' = serverState srv" "map revents (pollfds srv') = map revents (pollfds srv)"
proof -
  let ?b = "buf_at (sendBuffers srv) fd"
  have core: "srv_core srv" using ok by (simp add: srv_ok_def)
  have d: "srv_ok (drained fd b srv)" if "b \<noteq> '''' \<Longrightarrow> ?b \<noteq> ''''" for b
    using ok drained_core [OF core conn that] by (simp add: srv_ok_def)
  consider "?b = ''''" | "?b \<noteq> ''''" "n = 0" | "?b \<noteq> ''''" "0 < n" using n by linarith
  then show ?thesis
  proof cases
    case 1
    with d [of "[]"] sendData_result [OF core conn n] show ?thesis
      by (intro that [of "drained fd [] srv"]) simp_all
  next
    case 2
    with ok sendData_result [OF core conn n] show ?thesis by (intro that [of srv]) simp_all
  next
    case 3
    with d [of "drop (nat n) ?b"] sendData_result [OF core conn n] show ?thesis
      by (intro that [of "(drained fd (drop (nat n) ?b) srv)\<lparr>wire := wire srv @ [(fd, take (nat n) ?b)]\<rparr>"])
        simp_all
  qed
qed

subsection \<open>A running server\<close>

text \<open>
  The sample of the witnesses: listener 3, \<open>ada\<close> on 4 with a half received line and two bytes to
  send, \<open>bob\<close> on 5.
\<close>

definition sample_server :: server where
  "sample_server = \<lparr>port = 6667, serverPassword = ''pw'',
     pollfds = [\<lparr>pfFd = 3, events = POLLIN, revents = 0\<rparr>,
       \<lparr>pfFd = 4, events = POLLIN OR POLLOUT, revents = 0\<rparr>, \<lparr>pfFd = 5, events = POLLIN, revents = 0\<rparr>],
     serverFd = 3, recvBuffers = [(4, ''PI''), (5, '''')], sendBuffers = [(4, ''hi''), (5, '''')],
     serverState = shared_state, closedFds = [], wire = []\<rparr>"

lemma sample_server_simps [simp]:
  "fds sample_server = [3, 4, 5]" "conns sample_server = {4, 5}" "serverFd sample_server = 3"
  "serverState sample_server = shared_state" "wire sample_server = []" "closedFds sample_server = []"
  "buf_at (recvBuffers sample_server) fd = (if fd = 4 then ''PI'' else '''')"
  "buf_at (sendBuffers sample_server) fd = (if fd = 4 then ''hi'' else '''')"
  by (auto simp: sample_server_def fds_def conns_def buf_at_def map_find_def)

lemma srv_ok_sample: "srv_ok sample_server"
proof -
  have "srv_core sample_server"
  proof (rule srv_coreI)
    show "f \<in> conns sample_server" if "getClientByFd f (serverState sample_server) \<noteq> NULL" for f
      using that by (simp add: getClientByFd_def [of f sample_state] split: if_splits)
    show "flags_ok (sendBuffers sample_server) pf" if "pf \<in> set (pollfds sample_server)" for pf
    proof -
      have "POLLIN AND POLLIN \<noteq> 0" "(POLLIN OR POLLOUT) AND POLLIN \<noteq> 0" by (simp_all add: POLLIN_def POLLOUT_def)
      with that show ?thesis
        unfolding flags_ok_def sample_server_simps by (auto simp: sample_server_def)
    qed
  qed (auto simp: state_ok_shared has_entry_def sample_server_def map_ok_def map_find_def fds_def conns_def)
  then show ?thesis by (simp add: srv_ok_def lf_simps)
qed

subsection \<open>Properties of receiving and sending\<close>

text \<open>The bytes are cut at every line feed, and a carriage return before it belongs to the line end.\<close>

lemma receive_consumes:
  assumes ok: "srv_ok srv" and conn: "fd \<in> conns srv" and bytes: "bytes \<noteq> ''''" "length bytes < 512"
    and lines: "consume (buf_at (recvBuffers srv) fd) (sanitize bytes) = (ls, rest)"
  shows "\<exists>srv'. receiveData mems fd (Received bytes) srv = Some srv' \<and> srv_ok srv' \<and> fds srv' = fds srv
    \<and> process_lines mems 0 fd ls (srv\<lparr>recvBuffers := set_buf fd rest (recvBuffers srv)\<rparr>) = Some srv'"
proof -
  have core: "srv_core srv" and lf: "lf_free (buf_at (recvBuffers srv) fd)"
    using ok by (simp_all add: srv_ok_def)
  have spec: "receiveData mems fd (Received bytes) srv
      = process_lines mems 0 fd ls (srv\<lparr>recvBuffers := set_buf fd rest (recvBuffers srv)\<rparr>)"
    using lines consume_from_rest [OF lf] by (intro receiveData_spec [OF core conn bytes]) simp
  obtain srv' where "receiveData mems fd (Received bytes) srv = Some srv'" "srv_ok srv'" "fds srv' = fds srv"
    by (rule receiveData_ok [OF ok conn bytes])
  then show ?thesis by (simp add: spec [symmetric])
qed

lemma consume_crlf:
  "list_all lf_free ls \<Longrightarrow> lf_free rest \<Longrightarrow> consume '''' (concat (map (\<lambda>l. l @ crlf) ls) @ rest) = (ls, rest)"
proof (induction ls)
  case Nil
  then show ?case by (simp add: consume_lf_free)
next
  case (Cons l ls)
  then have "lf_free (l @ [CR])" by (simp add: lf_simps)
  from consume_line [OF this, of "concat (map (\<lambda>l. l @ crlf) ls) @ rest"] Cons show ?case
    by (simp add: crlf_def strip_cr_def)
qed

lemma bare_line_feed: "lf_free l \<Longrightarrow> l = '''' \<or> last l \<noteq> CR \<Longrightarrow> consume '''' (l @ [LF]) = ([l], '''')"
  using consume_line [of l "''''"] by (auto simp: strip_cr_def)

text \<open>
  C13. Received bytes are processed as a stream of CR LF terminated lines. Whatever part of them was
  buffered before, if the buffered and the received bytes (without control characters) are together
  any lines, each ended by CR LF, and the beginning of a further one, then the \<open>recv\<close> ends normally; it
  runs exactly these lines, each once, in order and without its CR LF, keeps exactly the incomplete
  rest buffered, leaves the connections as they are and preserves the invariant of the loop.
\<close>

theorem receive_stream:
  assumes ok: "srv_ok srv" and conn: "fd \<in> conns srv" and bytes: "bytes \<noteq> ''''" "length bytes < 512"
    and stream: "buf_at (recvBuffers srv) fd @ sanitize bytes = concat (map (\<lambda>l. l @ crlf) ls) @ rest"
    and lines: "list_all lf_free ls" "lf_free rest"
  shows "\<exists>srv'. receiveData mems fd (Received bytes) srv = Some srv' \<and> srv_ok srv' \<and> fds srv' = fds srv
    \<and> process_lines mems 0 fd ls (srv\<lparr>recvBuffers := set_buf fd rest (recvBuffers srv)\<rparr>) = Some srv'"
proof -
  have "lf_free (buf_at (recvBuffers srv) fd)" using ok by (simp add: srv_ok_def)
  then have "consume (buf_at (recvBuffers srv) fd) (sanitize bytes) = (ls, rest)"
    using consume_from_rest stream consume_crlf [OF lines] by metis
  then show ?thesis by (rule receive_consumes [OF ok conn bytes])
qed

text \<open>
  C14. The segmentation of the stream does not matter. Receiving a piece \<open>a\<close> and then a piece \<open>b\<close>
  leaves the whole server (clients, channels, buffers, poll entries) in exactly the state that
  receiving \<open>a @ b\<close> at once does, wherever the stream is cut. (\<open>mems\<close> numbers the lines, so the
  second call continues the numbering.)
\<close>

theorem receive_segmentation:
  assumes ok: "srv_ok srv" and conn: "fd \<in> conns srv"
    and bytes: "a \<noteq> ''''" "b \<noteq> ''''" "length a + length b < 512"
  defines "n \<equiv> length (fst (consume (buf_at (recvBuffers srv) fd) (sanitize a)))"
  shows "Option.bind (receiveData mems fd (Received a) srv) (receiveData (\<lambda>j. mems (j + n)) fd (Received b))
    = receiveData mems fd (Received (a @ b)) srv"
proof -
  let ?cur = "buf_at (recvBuffers srv) fd"
  have core: "srv_core srv" and lf: "lf_free ?cur" using ok by (simp_all add: srv_ok_def)
  obtain ls r where a: "consume ?cur (sanitize a) = (ls, r)" by (cases "consume ?cur (sanitize a)")
  have lsr: "list_all lf_free ls" "lf_free r" using consume_results [OF lf, of "sanitize a"] a by simp_all
  obtain ms r' where b: "consume r (sanitize b) = (ms, r')" by (cases "consume r (sanitize b)")
  have ab: "consume ?cur (sanitize (a @ b)) = (ls @ ms, r')"
    using a b by (simp add: sanitize_def consume_append)
  let ?s = "\<lambda>x. srv\<lparr>recvBuffers := set_buf fd x (recvBuffers srv)\<rparr>"
  obtain s1 where s1: "process_lines mems 0 fd ls (?s r) = Some s1" "srv_core s1"
      "recvBuffers s1 = recvBuffers (?s r)" "fds s1 = fds (?s r)" "serverFd s1 = serverFd (?s r)"
    by (rule process_lines_core [OF srv_core_recv [OF core conn] lsr(1)])
  have conn1: "fd \<in> conns s1" using s1(4,5) conn by (simp add: conns_def)
  have len: "length a < 512" "length b < 512" "length (a @ b) < 512" "a @ b \<noteq> ''''" using bytes by simp_all
  have A: "receiveData mems fd (Received a) srv = Some s1"
    using receiveData_spec [OF core conn bytes(1) len(1)] a consume_from_rest [OF lf] s1(1) by simp
  have B: "receiveData (\<lambda>j. mems (j + n)) fd (Received b) s1
      = process_lines mems n fd ms (s1\<lparr>recvBuffers := set_buf fd r' (recvBuffers srv)\<rparr>)"
  proof -
    have "consume '''' (buf_at (recvBuffers s1) fd @ sanitize b) = (ms, r')"
      using b consume_from_rest [OF lsr(2)] by (simp add: s1(3))
    moreover have "set_buf fd r' (recvBuffers s1) = set_buf fd r' (recvBuffers srv)"
      using set_buf_twice [OF srv_coreD(2) [OF core]] by (simp add: s1(3))
    moreover have "process_lines (\<lambda>j. mems (j + n)) 0 fd ms = process_lines mems n fd ms"
      using process_lines_shift [of mems n 0 fd ms] by simp
    ultimately show ?thesis
      using receiveData_spec [OF s1(2) conn1 bytes(2) len(2), of ms r' "\<lambda>j. mems (j + n)"] by simp
  qed
  have eq: "?s r' = (?s r)\<lparr>recvBuffers := set_buf fd r' (recvBuffers srv)\<rparr>" by simp
  have "process_lines mems 0 fd ls (?s r')
      = map_option (\<lambda>s. s\<lparr>recvBuffers := set_buf fd r' (recvBuffers srv)\<rparr>) (process_lines mems 0 fd ls (?s r))"
    by (subst eq) (rule process_lines_recv_update [OF srv_core_recv [OF core conn] lsr(1)])
  then have "process_lines mems 0 fd ls (?s r') = Some (s1\<lparr>recvBuffers := set_buf fd r' (recvBuffers srv)\<rparr>)"
    by (simp only: s1(1) option.map)
  moreover have "n = length ls" by (simp add: n_def a)
  ultimately have "receiveData mems fd (Received (a @ b)) srv
      = process_lines mems n fd ms (s1\<lparr>recvBuffers := set_buf fd r' (recvBuffers srv)\<rparr>)"
    using receiveData_spec [OF core conn len(4,3), of "ls @ ms" r' mems] ab consume_from_rest [OF lf]
    by (simp add: process_lines_append)
  with A B show ?thesis by simp
qed

text \<open>
  Output is a stream. A \<open>sendData\<close> that does not fail takes the first bytes of the queue, as many
  as \<open>send\<close> accepted, and keeps the rest: for every descriptor, what was sent followed by what is
  queued is unchanged, so nothing is lost, repeated or reordered. The entry keeps asking for
  \<open>POLLOUT\<close> exactly while something is queued.
\<close>

theorem send_stream:
  assumes ok: "srv_ok srv" and conn: "fd \<in> conns srv" and n: "0 \<le> n"
  shows "\<exists>srv'. sendData fd n srv = Some srv' \<and> srv_ok srv' \<and> (\<forall>f. out_stream f srv' = out_stream f srv)
    \<and> buf_at (sendBuffers srv') fd = drop (nat n) (buf_at (sendBuffers srv) fd)
    \<and> (\<forall>pf \<in> set (pollfds srv'). events pf AND POLLOUT \<noteq> 0 \<longleftrightarrow> buf_at (sendBuffers srv') (pfFd pf) \<noteq> '''')"
proof -
  let ?b = "buf_at (sendBuffers srv) fd"
  have core: "srv_core srv" using ok by (simp add: srv_ok_def)
  obtain srv' where run: "sendData fd n srv = Some srv'" "srv_ok srv'" by (rule sendData_ok [OF assms])
  then have flags: "flags_ok (sendBuffers srv') pf" if "pf \<in> set (pollfds srv')" for pf
    using that srv_coreD(8) by (auto simp: srv_ok_def)
  with run sendData_buffers [OF core conn n run(1)] show ?thesis by (auto simp: flags_ok_def)
qed

text \<open>
  C24. Replies are queued in order. Processing a line appends to the output stream of each
  descriptor exactly the texts of the command's replies to that descriptor, in the order of the
  reply list, and to nothing else; the connection is kept.
\<close>

theorem reply_stream:
  assumes ok: "srv_ok srv" and line: "lf_free line" and m: "parse line = Some m" "command m \<noteq> ''''"
    and run: "dispatch mem fd m (serverState srv) = Some (r, s)"
  shows "\<exists>srv'. processMessage mem fd line srv = Some srv' \<and> srv_ok srv' \<and> serverState srv' = s
    \<and> fds srv' = fds srv
    \<and> (\<forall>f. out_stream f srv' = out_stream f srv
        @ concat (map replyText (filter (\<lambda>t. replyFd t = f) (replies r))))"
proof -
  have core: "srv_core srv" using ok by (simp add: srv_ok_def)
  obtain srv' where s': "processMessage mem fd line srv = Some srv'" "srv_core srv'"
      "recvBuffers srv' = recvBuffers srv" "fds srv' = fds srv"
    by (rule processMessage_core [OF core line])
  have "\<not> disconnect r"
    using dispatcher.returns [OF srv_coreD(1) [OF core] parse_lf_free [OF line m(1)] TrueI, of mem fd] run by auto
  with s'(1) m run have eq: "srv' = queue_replies (replies r) (srv\<lparr>serverState := s\<rparr>)"
    by (simp add: processMessage_def shouldDisconnect_def Let_def)
  have "out_stream f (srv\<lparr>serverState := s\<rparr>) = out_stream f srv" for f
    by (simp add: out_stream_def sent_def)
  with s' ok eq out_stream_replies show ?thesis by (simp add: srv_ok_def)
qed

theorem receive_stream_witness:
  "\<exists>srv'. receiveData (\<lambda>i j. True) 4 (Received (''NG'' @ [CR, LF] @ ''US'')) sample_server = Some srv'
    \<and> buf_at (recvBuffers srv') 4 = ''US''"
proof -
  have l: "buf_at (recvBuffers sample_server) 4 @ sanitize (''NG'' @ [CR, LF] @ ''US'')
      = concat (map (\<lambda>l. l @ crlf) [''PING'']) @ ''US''"
    by (simp add: sanitize_def byte_def crlf_def)
  have lf: "list_all lf_free [''PING'']" "lf_free ''US''" by (simp_all add: lf_simps)
  obtain srv' where s': "receiveData (\<lambda>i j. True) 4 (Received (''NG'' @ [CR, LF] @ ''US'')) sample_server = Some srv'"
    "process_lines (\<lambda>i j. True) 0 4 [''PING''] (sample_server\<lparr>recvBuffers := set_buf 4 ''US'' (recvBuffers sample_server)\<rparr>)
      = Some srv'"
    using receive_stream [OF srv_ok_sample _ _ _ l lf, of "\<lambda>i j. True"] by auto
  have core: "srv_core (sample_server\<lparr>recvBuffers := set_buf 4 ''US'' (recvBuffers sample_server)\<rparr>)"
    using srv_ok_sample by (intro srv_core_recv) (simp_all add: srv_ok_def)
  have "buf_at (recvBuffers srv') 4 = ''US''"
    by (rule process_lines_core [OF core lf(1), of "\<lambda>i j. True" 0 4]) (use s'(2) in simp_all)
  with s'(1) show ?thesis by blast
qed

theorem receive_segmentation_witness:
  "Option.bind (receiveData (\<lambda>i j. True) 4 (Received ''N'') sample_server)
      (receiveData (\<lambda>i j. True) 4 (Received [CHR ''G'', LF]))
    = receiveData (\<lambda>i j. True) 4 (Received [CHR ''N'', CHR ''G'', LF]) sample_server"
  using receive_segmentation [OF srv_ok_sample, of 4 "''N''" "[CHR ''G'', LF]" "\<lambda>i j. True"] by simp

theorem send_stream_witness:
  "\<exists>srv'. sendData 4 1 sample_server = Some srv' \<and> buf_at (sendBuffers srv') 4 = ''i''"
  using send_stream [OF srv_ok_sample, of 4 1] by auto

theorem reply_stream_witness:
  "\<exists>srv'. processMessage (\<lambda>i. True) 4 ''PING x'' sample_server = Some srv'
    \<and> out_stream 4 srv' = ''hi'' @ ''PONG ircServ :x'' @ crlf"
proof -
  let ?m = "\<lparr>command = ''PING'', params = [''x'']\<rparr>"
  have m: "parse ''PING x'' = Some ?m" by code_simp
  have "dispatch (\<lambda>i. True) 4 ?m shared_state
      = Some (addReply 4 (''PONG ircServ :'' @ ''x'' @ crlf) CommandResult, shared_state)"
    by (simp add: dispatch_def name_search_result gated_def isRegistered_def sample_client_def
        dispatch_switch_def handlePing_def getSingleParam_def)
  then show ?thesis
    using reply_stream [OF srv_ok_sample _ m, of "\<lambda>i. True" 4]
    by (auto simp: lf_simps out_stream_def [of 4 sample_server] sent_def)
qed

end
