(* ===== verification/Server_Loop.thy ===== *)
theory Server_Loop
  imports Server_Streams
begin

section \<open>One pass of the poll loop\<close>

text \<open>
  One pass of the \<open>for\<close> loop of \<open>ircLoop\<close> under the documented behaviour of the system calls, a failing
  \<open>send\<close> and an error on the listening socket included: it keeps the invariant and lowers the
  measure of the round, or a \<open>send\<close> failed for the last entry and \<open>_pollfds\<close> is read past its end.
\<close>

subsection \<open>What the system guarantees\<close>

text \<open>
  \<open>accept\<close> fails or returns a descriptor that is not open, \<open>new\<close> fails or returns a fresh address,
  \<open>recv\<close> delivers at most the 511 bytes asked for and does not block, since it is only called where
  \<open>poll\<close> reported \<open>POLLIN\<close>, and \<open>send\<close> returns -1 or how many bytes it took.
\<close>

definition os_ok :: "pass_input \<Rightarrow> server \<Rightarrow> bool" where
  "os_ok inp srv \<longleftrightarrow>
     (0 \<le> accepted inp \<longrightarrow> accepted inp \<notin> set (fds srv) \<and> accepted inp \<noteq> serverFd srv)
     \<and> fresh (newClient inp) (serverState srv)
     \<and> (case received inp of Recv_again \<Rightarrow> False | Recv_error \<Rightarrow> True | Received bytes \<Rightarrow> length bytes < 512)
     \<and> -1 \<le> bytesSent inp"

text \<open>\<open>poll\<close> reports \<open>POLLOUT\<close> only for entries that ask for it.\<close>

definition poll_ok :: "(nat \<Rightarrow> short) \<Rightarrow> server \<Rightarrow> bool" where
  "poll_ok f srv \<longleftrightarrow> (\<forall>i < length (pollfds srv).
     f i AND POLLOUT \<noteq> 0 \<longrightarrow> events (pollfds srv ! i) AND POLLOUT \<noteq> 0)"

abbreviation erring :: "short \<Rightarrow> bool" where
  "erring r \<equiv> r AND (POLLERR OR POLLHUP OR POLLNVAL) \<noteq> 0"

subsection \<open>What a pass does to the poll entries\<close>

text \<open>Descriptor and \<open>revents\<close> of each entry; the listener is never ready for writing.\<close>

definition ready :: "server \<Rightarrow> (int \<times> short) list" where
  "ready srv = map (\<lambda>pf. (pfFd pf, revents pf)) (pollfds srv)"

definition ready_ok :: "server \<Rightarrow> bool" where
  "ready_ok srv \<longleftrightarrow> (\<forall>(fd, r) \<in> set (ready srv). fd = serverFd srv \<longrightarrow> r AND POLLOUT = 0)"

definition listening :: "server \<Rightarrow> bool" where
  "listening srv \<longleftrightarrow> serverFd srv \<in> set (fds srv)"

definition loop_ok :: "server \<Rightarrow> bool" where
  "loop_ok srv \<longleftrightarrow> srv_ok srv \<and> ready_ok srv"

lemma ready_eq: "ready srv = zip (fds srv) (map revents (pollfds srv))"
  by (simp add: ready_def fds_def zip_map_map zip_same_conv_map)

lemma ready_same:
  "fds srv' = fds srv \<Longrightarrow> map revents (pollfds srv') = map revents (pollfds srv) \<Longrightarrow> ready srv' = ready srv"
  by (simp add: ready_eq)

lemma ready_length: "length (ready srv) = length (pollfds srv)"
  by (simp add: ready_def)

lemma ready_nth: "i < length (pollfds srv) \<Longrightarrow> ready srv ! i = (pfFd (pollfds srv ! i), revents (pollfds srv ! i))"
  by (simp add: ready_def)

lemma revents_ready:
  "revents_at srv i = (if i < length (ready srv) then Some (snd (ready srv ! i)) else None)"
  by (simp add: revents_at_def ready_length ready_nth)

lemma fds_ready: "fds srv = map fst (ready srv)"
  by (simp add: fds_def ready_def)

text \<open>The parts of a pass: receiving (or accepting), sending, and hanging up.\<close>

lemma disconnectClient_loop:
  assumes ok: "loop_ok srv"
  obtains srv' where "disconnectClient fd srv = Some srv'" "loop_ok srv'" "serverFd srv' = serverFd srv"
    "ready srv' = filter (\<lambda>x. fst x \<noteq> fd) (ready srv)" "recvBuffers srv' = map_erase fd (recvBuffers srv)"
proof -
  have sok: "srv_ok srv" "srv_core srv" and rok: "ready_ok srv"
    using ok by (simp_all add: loop_ok_def srv_ok_def)
  obtain srv' where s': "disconnectClient fd srv = Some srv'" "srv_core srv'"
      "pollfds srv' = filter (\<lambda>pf. pfFd pf \<noteq> fd) (pollfds srv)" "serverFd srv' = serverFd srv"
      "recvBuffers srv' = map_erase fd (recvBuffers srv)"
    by (rule disconnectClient_core [OF sok(2)])
  have ready: "ready srv' = filter (\<lambda>x. fst x \<noteq> fd) (ready srv)"
    by (simp add: ready_def s'(3) filter_map comp_def)
  then have "ready_ok srv'" using rok s'(4) by (auto simp: ready_ok_def)
  moreover have "srv_ok srv'" using sok(1) s'(2,5) by (simp add: srv_ok_def lf_simps)
  ultimately show ?thesis using that s' ready by (simp add: loop_ok_def)
qed

lemma receiveData_loop:
  assumes ok: "loop_ok srv" and conn: "fd \<in> conns srv"
    and res: "\<And>bytes. res = Received bytes \<Longrightarrow> length bytes < 512"
  obtains srv' where "receiveData mems fd res srv = Some srv'" "loop_ok srv'" "serverFd srv' = serverFd srv"
    "map_find (recvBuffers srv') fd = None \<longrightarrow> ready srv' = filter (\<lambda>x. fst x \<noteq> fd) (ready srv)"
    "map_find (recvBuffers srv') fd \<noteq> None \<longrightarrow> ready srv' = ready srv \<and> fd \<in> conns srv'"
proof -
  have sok: "srv_ok srv" and rok: "ready_ok srv" using ok by (simp_all add: loop_ok_def)
  consider (closed) "receiveData mems fd res srv = disconnectClient fd srv"
    | (data) bytes where "res = Received bytes" "bytes \<noteq> ''''"
    by (cases res; cases "res = Received ''''") (auto simp: receiveData_def)
  then show ?thesis
  proof cases
    case closed
    obtain srv' where s': "disconnectClient fd srv = Some srv'" "loop_ok srv'" "serverFd srv' = serverFd srv"
        "ready srv' = filter (\<lambda>x. fst x \<noteq> fd) (ready srv)" "recvBuffers srv' = map_erase fd (recvBuffers srv)"
      by (rule disconnectClient_loop [OF ok])
    moreover have "map_find (recvBuffers srv') fd = None" by (simp add: s'(5) map_find_simps)
    ultimately show ?thesis using that closed by simp
  next
    case (data bytes)
    obtain srv' where s': "receiveData mems fd (Received bytes) srv = Some srv'" "srv_ok srv'"
        "fds srv' = fds srv" "serverFd srv' = serverFd srv"
        "map revents (pollfds srv') = map revents (pollfds srv)"
      by (rule receiveData_ok [OF sok conn data(2) res [OF data(1)]])
    have "ready srv' = ready srv" using s'(3,5) by (rule ready_same)
    moreover have "fd \<in> conns srv'" using conn s' by (simp add: conns_def)
    moreover from this have "map_find (recvBuffers srv') fd \<noteq> None"
      using srv_coreD(5) [of srv' fd] s'(2) by (simp add: srv_ok_def has_entry_def)
    ultimately show ?thesis
      using that [of srv'] s' data(1) rok by (auto simp: loop_ok_def ready_ok_def)
  qed
qed

lemma acceptNewClient_loop:
  assumes ok: "loop_ok srv" and os: "os_ok inp srv"
  defines "srv' \<equiv> acceptNewClient (accepted inp) (newClient inp) srv"
  shows "loop_ok srv'" "serverFd srv' = serverFd srv"
    "ready srv' = ready srv @ (if 0 \<le> accepted inp then [(accepted inp, 0)] else [])"
proof -
  have sok: "srv_ok srv" "srv_core srv" and rok: "ready_ok srv"
    using ok by (simp_all add: loop_ok_def srv_ok_def)
  have fd: "0 \<le> accepted inp \<Longrightarrow> accepted inp \<notin> set (fds srv) \<and> accepted inp \<noteq> serverFd srv"
    and mem: "fresh (newClient inp) (serverState srv)" using os by (simp_all add: os_ok_def)
  have core: "srv_core srv'"
    using acceptNewClient_core [OF sok(2) _ _ mem, of "accepted inp"] fd sok(2)
    by (cases "0 \<le> accepted inp") (simp_all add: srv'_def acceptNewClient_def)
  have lf: "lf_free (buf_at (recvBuffers srv') f)" for f
    using sok(1) by (auto simp: srv_ok_def srv'_def acceptNewClient_def lf_simps)
  show "serverFd srv' = serverFd srv" by (simp add: srv'_def acceptNewClient_def)
  show ready: "ready srv' = ready srv @ (if 0 \<le> accepted inp then [(accepted inp, 0)] else [])"
    by (simp add: srv'_def acceptNewClient_def ready_def)
  show "loop_ok srv'"
    using core lf ready rok by (auto simp: loop_ok_def srv_ok_def ready_ok_def srv'_def acceptNewClient_def)
qed

text \<open>A \<open>send\<close> that does not fail, or is not called, leaves the entries as they are.\<close>

lemma sendData_loop:
  assumes ok: "loop_ok srv" and conn: "fd \<in> conns srv" and n: "0 \<le> n \<or> buf_at (sendBuffers srv) fd = ''''"
  obtains srv' where "sendData fd n srv = Some srv'" "sendData fd (max 0 n) srv = Some srv'"
    "loop_ok srv'" "serverFd srv' = serverFd srv" "ready srv' = ready srv" "conns srv' = conns srv"
proof -
  have sok: "srv_ok srv" and rok: "ready_ok srv" using ok by (simp_all add: loop_ok_def)
  have same: "sendData fd n srv = sendData fd (max 0 n) srv"
    using n by (cases "0 \<le> n") (simp_all add: sendData_def Let_def)
  obtain srv' where s': "sendData fd (max 0 n) srv = Some srv'" "srv_ok srv'" "fds srv' = fds srv"
      "serverFd srv' = serverFd srv" "map revents (pollfds srv') = map revents (pollfds srv)"
    by (rule sendData_ok [OF sok conn, of "max 0 n"]) simp
  have "ready srv' = ready srv" using s'(3,5) by (rule ready_same)
  with that s' rok same show ?thesis by (simp add: loop_ok_def ready_ok_def conns_def)
qed

subsection \<open>The measure of a round\<close>

text \<open>
  The entries from the current one on, where a listener with a pending
  connection counts twice because serving it appends an entry.
\<close>

definition weight :: "int \<Rightarrow> (int \<times> short) list \<Rightarrow> nat" where
  "weight listener rs = (\<Sum>(fd, r)\<leftarrow>rs. if fd = listener \<and> r AND POLLIN \<noteq> 0 then 2 else 1)"

lemma weight_simps [simp]:
  "weight l [] = 0" "weight l (rs @ ts) = weight l rs + weight l ts"
  "weight l ((fd, r) # rs) = (if fd = l \<and> r AND POLLIN \<noteq> 0 then 2 else 1) + weight l rs"
  by (simp_all add: weight_def)

lemma weight_pos: "0 < weight l (x # rs)"
  by (cases x) simp

lemma filter_other:
  assumes "distinct (map g l)" and "i < length l"
  shows "filter (\<lambda>x. g x \<noteq> g (l ! i)) l = take i l @ drop (Suc i) l"
proof -
  have l: "l = take i l @ l ! i # drop (Suc i) l" using assms(2) by (rule id_take_nth_drop)
  have "g x \<noteq> g (l ! i)" if "x \<in> set (take i l) \<or> x \<in> set (drop (Suc i) l)" for x
  proof -
    have "distinct (map g (take i l) @ g (l ! i) # map g (drop (Suc i) l))"
      using assms(1) l by (metis list.simps(9) map_append)
    then have "g (l ! i) \<notin> g ` set (take i l)" "g (l ! i) \<notin> g ` set (drop (Suc i) l)" by auto
    with that show ?thesis by (metis imageI)
  qed
  then have "filter (\<lambda>x. g x \<noteq> g (l ! i)) (take i l) = take i l"
    "filter (\<lambda>x. g x \<noteq> g (l ! i)) (drop (Suc i) l) = drop (Suc i) l"
    by (simp_all add: filter_id_conv)
  moreover have "filter P l = filter P (take i l) @ filter P [l ! i] @ filter P (drop (Suc i) l)" for P
    by (subst l) (simp del: append_take_drop_id)
  ultimately show ?thesis by simp
qed

lemma conns_ready: "conns srv = set (map fst (ready srv)) - {serverFd srv}"
  by (simp add: conns_def fds_ready)

lemma loop_distinct: "loop_ok srv \<Longrightarrow> distinct (map fst (ready srv))"
  using srv_coreD(4) [of srv] by (simp add: loop_ok_def srv_ok_def fds_ready)

text \<open>Removing the current entry moves its successor to its place.\<close>

lemma filter_current:
  assumes "loop_ok s" and "i < length (ready s)" and "ready s ! i = (fd, r)"
  shows "filter (\<lambda>x. fst x \<noteq> fd) (ready s) = take i (ready s) @ drop (Suc i) (ready s)"
  using filter_other [OF loop_distinct [OF assms(1)] assms(2)] assms(3) by simp

text \<open>An entry that is ready for writing is a connection.\<close>

lemma ready_conn:
  assumes "loop_ok s" and "i < length (ready s)" and "ready s ! i = (fd, r)"
    and "r AND POLLOUT \<noteq> 0 \<or> fd \<noteq> serverFd s"
  shows "fd \<in> conns s"
proof -
  have "(fd, r) \<in> set (ready s)" using nth_mem [OF assms(2)] assms(3) by simp
  moreover from this have "fd \<noteq> serverFd s"
    using assms(1,4) by (auto simp: loop_ok_def ready_ok_def)
  ultimately show ?thesis by (force simp: conns_ready)
qed

subsection \<open>What \<open>poll\<close> reports\<close>

lemma set_revents_nth:
  "length (set_revents f pfs) = length pfs"
  "i < length pfs \<Longrightarrow> set_revents f pfs ! i = (pfs ! i)\<lparr>revents := f i\<rparr>"
  by (simp_all add: set_revents_def nth_enumerate_eq)

lemma set_revents_fds [simp]: "map pfFd (set_revents f pfs) = map pfFd pfs"
  by (rule nth_equalityI) (simp_all add: set_revents_nth)

lemma set_revents_srv_ok:
  assumes ok: "srv_ok srv"
  shows "srv_ok (srv\<lparr>pollfds := set_revents f (pollfds srv)\<rparr>)" (is "srv_ok ?s")
proof -
  have core: "srv_core srv" using ok by (simp add: srv_ok_def)
  have same: "fds ?s = fds srv" "conns ?s = conns srv" by (simp_all add: fds_def conns_def)
  have flags: "flags_ok (sendBuffers srv) pf" if pf: "pf \<in> set (set_revents f (pollfds srv))" for pf
  proof -
    obtain i where i: "i < length (set_revents f (pollfds srv))" "set_revents f (pollfds srv) ! i = pf"
      using pf unfolding in_set_conv_nth by blast
    then have "i < length (pollfds srv)" "pf = (pollfds srv ! i)\<lparr>revents := f i\<rparr>"
      by (simp_all add: set_revents_nth)
    then show ?thesis using srv_coreD(8) [OF core nth_mem] by (simp add: flags_ok_def)
  qed
  have "srv_core ?s"
    by (rule srv_coreI; (unfold same)?) (use core flags in \<open>auto dest: srv_coreD\<close>)
  then show ?thesis using ok by (simp add: srv_ok_def)
qed

lemma set_revents_ok:
  assumes ok: "srv_ok srv" and f: "poll_ok f srv"
  shows "loop_ok (srv\<lparr>pollfds := set_revents f (pollfds srv)\<rparr>)" (is "loop_ok ?s")
proof -
  have core: "srv_core srv" using ok by (simp add: srv_ok_def)
  have "ready_ok ?s"
    unfolding ready_ok_def
  proof clarify
    fix r assume "(serverFd ?s, r) \<in> set (ready ?s)"
    then obtain i where i: "i < length (pollfds srv)" "pfFd (pollfds srv ! i) = serverFd srv" "r = f i"
      by (auto simp: ready_def in_set_conv_nth set_revents_nth)
    have "\<not> has_entry (sendBuffers srv) (serverFd srv)" using srv_coreD(6) [OF core] by (simp add: conns_def)
    then have "buf_at (sendBuffers srv) (serverFd srv) = []"
      by (auto simp: buf_at_def has_entry_def split: option.splits)
    then have "events (pollfds srv ! i) AND POLLOUT = 0"
      using srv_coreD(8) [OF core nth_mem [OF i(1)]] i(2) by (simp add: flags_ok_def)
    with f i show "r AND POLLOUT = 0" by (auto simp: poll_ok_def)
  qed
  then show ?thesis using set_revents_srv_ok [OF ok] by (simp add: loop_ok_def)
qed

text \<open>What \<open>poll\<close> reports in a round, entry by entry.\<close>

definition polled :: "round_input \<Rightarrow> server \<Rightarrow> (int \<times> short) list" where
  "polled rd s = map (\<lambda>(i, pf). (pfFd pf, pollRevents rd s i)) (enumerate 0 (pollfds s))"

lemma ready_polled: "ready (s\<lparr>pollfds := set_revents (pollRevents rd s) (pollfds s)\<rparr>) = polled rd s"
  by (simp add: ready_def polled_def set_revents_def comp_def case_prod_beta)

subsection \<open>Construction and destruction\<close>

lemma Server_result:
  "Server inp p pw =
    (if sock inp < 0 then Inl ''Failed to create socket''
     else if setOption inp < 0 then Inl ''Failed to set socket options''
     else if bindResult inp < 0 then Inl ''Failed to bind socket''
     else if listenResult inp < 0 then Inl ''Failed to listen on socket''
     else Inr \<lparr>port = p, serverPassword = pw,
       pollfds = [\<lparr>pfFd = sock inp, events = POLLIN, revents = 0\<rparr>], serverFd = sock inp,
       recvBuffers = [], sendBuffers = [], serverState = ServerState pw, closedFds = [], wire = []\<rparr>)"
  by (simp add: Server_def setupSocket_def Let_def)

lemma Server_listening: "Server inp p pw = Inr srv \<Longrightarrow> listening srv"
  by (auto simp: Server_result listening_def fds_def split: if_splits)

lemma Server_ok: "Server inp p pw = Inr srv \<Longrightarrow> srv_ok srv"
  by (auto simp: Server_result srv_ok_def lf_simps buf_at_def map_find_simps split: if_splits
      intro!: srv_coreI state_ok_init [unfolded ServerState_def] simp: map_ok_def has_entry_def conns_def fds_def flags_ok_def
        getClientByFd_def ServerState_def)

lemma destroy_Server_ok:
  assumes "srv_ok srv"
  shows "destroy_Server srv = Some (srv\<lparr>closedFds := closedFds srv @ filter (\<lambda>fd. 0 \<le> fd) (fds srv),
    serverState := ServerState (password (serverState srv))\<rparr>)"
proof -
  have "state_ok (serverState srv)" using assms srv_coreD(1) by (simp add: srv_ok_def)
  then show ?thesis by (simp add: destroy_Server_def destroy_ServerState_result fds_def Let_def)
qed

end
