(* ===== verification/Server_Events.thy ===== *)
theory Server_Events
  imports Server_Loop
begin

section \<open>The server as an event system\<close>

text \<open>
  What the loop promises, without the loop: a server moves by accepting, receiving, sending and
  closing. The step relation abstracts from the order in which \<open>ircLoop\<close> visits the entries;
  \<open>poll_round\<close> refines it. Accounting of descriptors and the order of output are proved here, by
  rule induction over runs.
\<close>

subsection \<open>Steps\<close>

datatype event = Accept int "ptr option" | Receive int string | Send int int | Close int | Poll

inductive server_step :: "server \<Rightarrow> event \<Rightarrow> server \<Rightarrow> bool" where
  step_accept: "0 \<le> fd \<Longrightarrow> fd \<notin> set (fds s) \<Longrightarrow> fd \<noteq> serverFd s \<Longrightarrow> fresh mem (serverState s)
    \<Longrightarrow> server_step s (Accept fd mem) (acceptNewClient fd mem s)"
| step_receive: "fd \<in> conns s \<Longrightarrow> bytes \<noteq> '''' \<Longrightarrow> length bytes < 512
    \<Longrightarrow> receiveData mems fd (Received bytes) s = Some s' \<Longrightarrow> server_step s (Receive fd bytes) s'"
| step_send: "fd \<in> conns s \<Longrightarrow> 0 \<le> n \<Longrightarrow> sendData fd n s = Some s' \<Longrightarrow> server_step s (Send fd n) s'"
| step_close: "fd \<in> conns s \<Longrightarrow> disconnectClient fd s = Some s' \<Longrightarrow> server_step s (Close fd) s'"
| step_poll: "server_step s Poll (s\<lparr>pollfds := set_revents f (pollfds s)\<rparr>)"

inductive_cases server_stepE: "server_step s e s'"

inductive_simps server_step_simps:
  "server_step s (Send fd n) s'" "server_step s (Close fd) s'"

inductive server_run :: "server \<Rightarrow> event list \<Rightarrow> server \<Rightarrow> bool" where
  run_nil: "server_run s [] s"
| run_snoc: "server_run s es s1 \<Longrightarrow> server_step s1 e s2 \<Longrightarrow> server_run s (es @ [e]) s2"

lemma run_trans: "server_run s2 fs s3 \<Longrightarrow> server_run s1 es s2 \<Longrightarrow> server_run s1 (es @ fs) s3"
proof (induction rule: server_run.induct)
  case (run_snoc s fs s' e s'')
  then show ?case using server_run.run_snoc [of s1 "es @ fs" s' e s''] by simp
qed simp

lemma run_step: "server_step s e s' \<Longrightarrow> server_run s [e] s'"
  using run_snoc [OF run_nil] by force

subsection \<open>Every step keeps the invariant\<close>

lemma step_facts:
  assumes "server_step s e s'" and "srv_ok s"
  shows "srv_ok s' \<and> serverFd s' = serverFd s
    \<and> fds s' = (case e of Accept fd mem \<Rightarrow> fds s @ [fd] | Close fd \<Rightarrow> filter (\<lambda>f. f \<noteq> fd) (fds s) | _ \<Rightarrow> fds s)
    \<and> closedFds s' = closedFds s @ (case e of Close fd \<Rightarrow> [fd] | _ \<Rightarrow> [])
    \<and> (\<forall>f. e \<noteq> Close f \<longrightarrow> prefix (out_stream f s) (out_stream f s'))"
  using assms
proof (cases rule: server_step.cases)
  case (step_accept fd mem)
  have core: "srv_core s" using assms(2) by (simp add: srv_ok_def)
  have "srv_core s'" using step_accept acceptNewClient_core [OF core] by simp
  then have "srv_ok s'"
    using step_accept assms(2) by (auto simp: srv_ok_def acceptNewClient_def lf_simps)
  moreover have "\<not> has_entry (sendBuffers s) fd"
    using step_accept srv_coreD(6) [OF core, of fd] by (simp add: conns_def)
  then have "buf_at (sendBuffers s) fd = ''''" by (auto simp: buf_at_def has_entry_def split: option.splits)
  ultimately show ?thesis
    using step_accept by (auto simp: acceptNewClient_def fds_def out_stream_def sent_def)
next
  case (step_receive fd bytes mems)
  obtain t where "receiveData mems fd (Received bytes) s = Some t" "srv_ok t" "fds t = fds s"
      "serverFd t = serverFd s" "closedFds t = closedFds s" "writes s t"
    by (rule receiveData_ok [OF assms(2) step_receive(2-4)])
  then show ?thesis using step_receive by (simp add: writes_def)
next
  case (step_send fd n)
  have core: "srv_core s" using assms(2) by (simp add: srv_ok_def)
  obtain t where "sendData fd n s = Some t" "srv_ok t" "fds t = fds s" "serverFd t = serverFd s"
      "closedFds t = closedFds s"
    by (rule sendData_ok [OF assms(2) step_send(2,3)])
  then show ?thesis using step_send sendData_buffers(2) [OF core step_send(2-4)] by simp
next
  case (step_close fd)
  have core: "srv_core s" using assms(2) by (simp add: srv_ok_def)
  obtain t where t: "disconnectClient fd s = Some t" "srv_core t"
    "pollfds t = filter (\<lambda>pf. pfFd pf \<noteq> fd) (pollfds s)" "serverFd t = serverFd s"
    "recvBuffers t = map_erase fd (recvBuffers s)" "sendBuffers t = map_erase fd (sendBuffers s)"
    "closedFds t = closedFds s @ [fd]" "wire t = wire s"
    by (rule disconnectClient_core [OF core])
  then have "srv_ok t" using assms(2) by (simp add: srv_ok_def lf_simps)
  with t step_close show ?thesis
    by (simp add: fds_def filter_map comp_def out_stream_def sent_def)
next
  case (step_poll f)
  then show ?thesis using set_revents_srv_ok [OF assms(2)] by (simp add: fds_def)
qed

text \<open>Every event that its environment offers can happen: no state is stuck.\<close>

lemma step_enabled:
  assumes ok: "srv_ok s" and fd: "fd \<in> conns s"
  shows "bytes \<noteq> '''' \<Longrightarrow> length bytes < 512 \<Longrightarrow> \<exists>s'. server_step s (Receive fd bytes) s'"
    and "0 \<le> n \<Longrightarrow> \<exists>s'. server_step s (Send fd n) s'" and "\<exists>s'. server_step s (Close fd) s'"
proof -
  have core: "srv_core s" using ok by (simp add: srv_ok_def)
  show "\<exists>s'. server_step s (Receive fd bytes) s'" if "bytes \<noteq> ''''" "length bytes < 512"
    by (rule receiveData_ok [OF ok fd that]) (use step_receive [OF fd that] in blast)
  show "\<exists>s'. server_step s (Send fd n) s'" if "0 \<le> n"
    by (rule sendData_ok [OF ok fd that]) (use fd that in \<open>simp add: server_step_simps\<close>)
  show "\<exists>s'. server_step s (Close fd) s'"
    by (rule disconnectClient_core [OF core, of fd]) (use fd in \<open>simp add: server_step_simps\<close>)
qed

subsection \<open>Runs\<close>

lemma run_ok: "server_run s es s' \<Longrightarrow> srv_ok s \<Longrightarrow> srv_ok s' \<and> serverFd s' = serverFd s"
  by (induction rule: server_run.induct) (auto dest: step_facts)

definition accepts :: "int \<Rightarrow> event list \<Rightarrow> nat" where
  "accepts fd es = length (filter (\<lambda>e. \<exists>mem. e = Accept fd mem) es)"

definition opened :: "int \<Rightarrow> server \<Rightarrow> nat" where
  "opened fd s = (if fd \<in> conns s then 1 else 0)"

lemma step_account:
  assumes step: "server_step s e s'" and ok: "srv_ok s"
  shows "count_list (closedFds s') fd + opened fd s'
    = count_list (closedFds s) fd + opened fd s + accepts fd [e]"
  using step step_facts [OF assms]
  by (elim server_stepE) (auto simp: opened_def accepts_def conns_def)

lemma run_account:
  "server_run s es s' \<Longrightarrow> srv_ok s \<Longrightarrow>
    count_list (closedFds s') fd + opened fd s' = count_list (closedFds s) fd + opened fd s + accepts fd es"
proof (induction rule: server_run.induct)
  case (run_snoc s es s1 e s2)
  then show ?case using step_account [OF run_snoc(2), of fd] run_ok [OF run_snoc(1)] by (simp add: accepts_def)
qed (simp add: accepts_def)

lemma run_stream:
  "server_run s es s' \<Longrightarrow> srv_ok s \<Longrightarrow> Close fd \<notin> set es \<Longrightarrow> prefix (out_stream fd s) (out_stream fd s')"
proof (induction rule: server_run.induct)
  case (run_snoc s es s1 e s2)
  then have "prefix (out_stream fd s1) (out_stream fd s2)"
    using step_facts [OF run_snoc(2)] run_ok [OF run_snoc(1)] by auto
  with run_snoc show ?case by (auto intro: prefix_order.trans)
qed simp

subsection \<open>What \<open>ircLoop\<close> can do besides\<close>

text \<open>
  The runs of \<open>ircLoop\<close>: steps of the event system, and two things that it does when something
  fails. After a \<open>send\<close> that failed (the connection is then closed) it may close the same descriptor
  again, and it closes the listening socket when \<open>poll\<close> reports an error on it.
\<close>

inductive loop_run :: "server \<Rightarrow> event list \<Rightarrow> server \<Rightarrow> bool" where
  loop_nil: "loop_run s [] s"
| loop_step: "loop_run s es s1 \<Longrightarrow> server_step s1 e s2 \<Longrightarrow> loop_run s (es @ [e]) s2"
| loop_again: "loop_run s (es @ [Close fd]) s1 \<Longrightarrow> fd \<noteq> serverFd s1 \<Longrightarrow> fd \<notin> set (fds s1)
    \<Longrightarrow> disconnectClient fd s1 = Some s2 \<Longrightarrow> loop_run s (es @ [Close fd, Close fd]) s2"
| loop_hangup: "loop_run s es s1 \<Longrightarrow> listening s1 \<Longrightarrow> disconnectClient (serverFd s1) s1 = Some s2
    \<Longrightarrow> loop_run s (es @ [Close (serverFd s1)]) s2"

lemma run_loop: "server_run s es s' \<Longrightarrow> loop_run s es s'"
  by (induction rule: server_run.induct) (auto intro: loop_nil loop_step)

lemma loop_trans: "loop_run s2 fs s3 \<Longrightarrow> loop_run s1 es s2 \<Longrightarrow> loop_run s1 (es @ fs) s3"
proof (induction rule: loop_run.induct)
  case (loop_step s fs s' e s'')
  then show ?case using loop_run.loop_step [of s1 "es @ fs" s' e s''] by simp
next
  case (loop_again s fs fd s' s'')
  then show ?case using loop_run.loop_again [of s1 "es @ fs" fd s' s''] by simp
next
  case (loop_hangup s fs s' s'')
  then show ?case using loop_run.loop_hangup [of s1 "es @ fs" s' s''] by simp
qed simp

text \<open>Closing any descriptor keeps the invariant.\<close>

lemma close_ok:
  assumes "srv_ok s" and run: "disconnectClient fd s = Some s'"
  shows "srv_ok s'" "serverFd s' = serverFd s" "fds s' = filter (\<lambda>f. f \<noteq> fd) (fds s)"
    "closedFds s' = closedFds s @ [fd]"
proof -
  have core: "srv_core s" using assms(1) by (simp add: srv_ok_def)
  obtain t where "disconnectClient fd s = Some t" "srv_core t"
      "pollfds t = filter (\<lambda>pf. pfFd pf \<noteq> fd) (pollfds s)" "serverFd t = serverFd s"
      "recvBuffers t = map_erase fd (recvBuffers s)" "closedFds t = closedFds s @ [fd]"
    by (rule disconnectClient_core [OF core])
  with run assms(1) show "srv_ok s'" "serverFd s' = serverFd s" "fds s' = filter (\<lambda>f. f \<noteq> fd) (fds s)"
    "closedFds s' = closedFds s @ [fd]"
    by (simp_all add: srv_ok_def lf_simps fds_def filter_map comp_def)
qed

lemma loop_run_ok: "loop_run s es s' \<Longrightarrow> srv_ok s \<Longrightarrow> srv_ok s' \<and> serverFd s' = serverFd s"
  by (induction rule: loop_run.induct) (auto dest: step_facts close_ok)

lemma step_listening:
  assumes "server_step s e s'" and "srv_ok s"
  shows "listening s' \<longleftrightarrow> listening s"
  using assms(1) step_facts [OF assms]
  by (elim server_stepE) (auto simp: listening_def conns_def)

subsection \<open>Accounting of descriptors\<close>

text \<open>How often a descriptor is closed directly after having been closed.\<close>

fun reclosed :: "int \<Rightarrow> event list \<Rightarrow> nat" where
  "reclosed fd (a # b # es) = (if a = Close fd \<and> b = Close fd then 1 else 0) + reclosed fd (b # es)"
| "reclosed fd es = 0"

lemma reclosed_snoc:
  "reclosed fd (es @ [e]) = reclosed fd es + (if es \<noteq> [] \<and> last es = Close fd \<and> e = Close fd then 1 else 0)"
  by (induction fd es rule: reclosed.induct) auto

lemma accepts_append [simp]: "accepts fd (es @ fs) = accepts fd es + accepts fd fs"
  by (simp add: accepts_def)

lemma accepts_simps [simp]: "accepts fd [] = 0" "accepts fd [Close f] = 0" "accepts fd [Close f, Close g] = 0"
  by (simp_all add: accepts_def)

text \<open>
  Invariant of a run: what was closed and what is open is what was accepted, apart from repeated
  closing; the listening socket is open or was closed once; and what was closed last is not open.
\<close>

definition listens :: "int \<Rightarrow> server \<Rightarrow> nat" where
  "listens fd s = (if fd = serverFd s \<and> listening s then 1 else 0)"

definition accounted :: "server \<Rightarrow> event list \<Rightarrow> server \<Rightarrow> bool" where
  "accounted s es s' \<longleftrightarrow>
     (\<forall>fd. count_list (closedFds s') fd + opened fd s' + listens fd s'
        = count_list (closedFds s) fd + opened fd s + listens fd s + accepts fd es + reclosed fd es)
     \<and> (\<forall>fd. es \<noteq> [] \<and> last es = Close fd \<longrightarrow> fd \<notin> set (fds s'))"

lemma accounted_snoc:
  assumes old: "accounted s es s1"
    and "\<And>fd. count_list (closedFds s2) fd + opened fd s2 + listens fd s2
      = count_list (closedFds s1) fd + opened fd s1 + listens fd s1 + accepts fd [e]
        + (if es \<noteq> [] \<and> last es = Close fd \<and> e = Close fd then 1 else 0)"
    and "\<And>fd. e = Close fd \<Longrightarrow> fd \<notin> set (fds s2)"
  shows "accounted s (es @ [e]) s2"
  using assms by (simp add: accounted_def reclosed_snoc)

lemma loop_accounted: "loop_run s es s' \<Longrightarrow> srv_ok s \<Longrightarrow> accounted s es s'"
proof (induction rule: loop_run.induct)
  case (loop_nil s)
  then show ?case by (simp add: accounted_def)
next
  case (loop_step s es s1 e s2)
  then have ok: "srv_ok s1" and old: "accounted s es s1" using loop_run_ok by blast+
  note f = step_facts [OF loop_step(2) ok] and l = step_listening [OF loop_step(2) ok]
  have "\<not> (es \<noteq> [] \<and> last es = Close fd \<and> e = Close fd)" for fd
    using old loop_step(2) by (auto simp: accounted_def conns_def elim: server_stepE)
  then have "count_list (closedFds s2) fd + opened fd s2 + listens fd s2
      = count_list (closedFds s1) fd + opened fd s1 + listens fd s1 + accepts fd [e]
        + (if es \<noteq> [] \<and> last es = Close fd \<and> e = Close fd then 1 else 0)" for fd
    using step_account [OF loop_step(2) ok, of fd] f l by (simp add: listens_def)
  with old show ?case by (rule accounted_snoc) (use f in auto)
next
  case (loop_again s es fd s1 s2)
  then have ok: "srv_ok s1" and old: "accounted s (es @ [Close fd]) s1" using loop_run_ok by blast+
  note f = close_ok [OF ok loop_again(4)]
  have "accounted s ((es @ [Close fd]) @ [Close fd]) s2"
    using old by (rule accounted_snoc) (use f loop_again(2,3) in \<open>auto simp: opened_def conns_def listens_def listening_def\<close>)
  then show ?case by simp
next
  case (loop_hangup s es s1 s2)
  then have ok: "srv_ok s1" and old: "accounted s es s1" using loop_run_ok by blast+
  note f = close_ok [OF ok loop_hangup(3)]
  have "\<not> (es \<noteq> [] \<and> last es = Close (serverFd s1))"
    using old loop_hangup(2) by (auto simp: accounted_def listening_def)
  with f loop_hangup(2) show ?case
    by (intro accounted_snoc [OF old]) (auto simp: opened_def conns_def listens_def listening_def)
qed

lemma distinct_count: "distinct xs \<Longrightarrow> count_list xs x = (if x \<in> set xs then 1 else 0)"
  by (induction xs) auto

lemma count_list_fds:
  assumes "srv_ok s" and "0 \<le> fd"
  shows "count_list (filter (\<lambda>f. 0 \<le> f) (fds s)) fd = opened fd s + (if fd = serverFd s \<and> listening s then 1 else 0)"
proof -
  have "distinct (fds s)" using assms(1) srv_coreD(4) by (simp add: srv_ok_def)
  then have "distinct (filter (\<lambda>f. 0 \<le> f) (fds s))" by simp
  then have "count_list (filter (\<lambda>f. 0 \<le> f) (fds s)) fd = (if fd \<in> set (fds s) then 1 else 0)"
    using assms(2) by (simp add: distinct_count)
  then show ?thesis by (auto simp: opened_def conns_def listening_def)
qed

subsection \<open>Properties of the event system\<close>

text \<open>
  C18. Every event keeps the server well formed: clients, channels, poll entries and buffers stay
  consistent with each other, the listening socket stays polled, and no receive buffer is left with
  a complete line.
\<close>

theorem step_well_formed:
  assumes "server_step s e s'" and "srv_ok s" and "listening s"
  shows "srv_ok s' \<and> listening s' \<and> state_ok (serverState s')
    \<and> (\<forall>fd. has_entry (recvBuffers s') fd \<longleftrightarrow> fd \<in> conns s')
    \<and> (\<forall>fd. LF \<notin> set (buf_at (recvBuffers s') fd))"
proof -
  have ok: "srv_ok s'" using step_facts [OF assms(1,2)] by blast
  then have core: "srv_core s'" by (simp add: srv_ok_def)
  have "listening s'" using step_listening [OF assms(1,2)] assms(3) by simp
  moreover have "LF \<notin> set (buf_at (recvBuffers s') fd)" for fd
    using ok by (simp add: srv_ok_def lf_free_def)
  ultimately show ?thesis using ok srv_coreD(1,5) [OF core] by blast
qed

text \<open>
  No connection gets stuck. In every state that a constructed server reaches, every open
  connection can be served: any bytes can be received from it, any amount of output be taken, and
  it can be closed; none of these is undefined, and each leads to a state for which this holds again.
\<close>

theorem connections_served:
  assumes "Server inp p pw = Inr srv" and "server_run srv es s" and "fd \<in> conns s"
  shows "(\<forall>bytes. bytes \<noteq> '''' \<and> length bytes < 512 \<longrightarrow> (\<exists>s'. server_step s (Receive fd bytes) s'))
    \<and> (\<forall>n. 0 \<le> n \<longrightarrow> (\<exists>s'. server_step s (Send fd n) s')) \<and> (\<exists>s'. server_step s (Close fd) s')"
proof -
  have "srv_ok s" using run_ok [OF assms(2) Server_ok [OF assms(1)]] by blast
  from step_enabled [OF this assms(3)] show ?thesis by blast
qed

text \<open>
  C19. Output keeps its order over whole runs. While a connection stays open, whatever other clients
  do, its output stream (bytes sent, then bytes queued) is only extended at its end: no byte is
  lost, repeated, reordered or sent to another connection.
\<close>

theorem output_order:
  assumes "srv_ok s" and "server_run s es s'" and "Close fd \<notin> set es"
  shows "prefix (out_stream fd s) (out_stream fd s') \<and> prefix (sent fd s') (out_stream fd s')"
  using run_stream [OF assms(2,1,3)] by (simp add: out_stream_def [of fd s'])

lemma listening_sample: "listening sample_server"
  by (simp add: listening_def)

theorem step_well_formed_witness:
  "\<exists>s'. server_step sample_server (Close 4) s' \<and> srv_ok s' \<and> listening s'"
proof -
  obtain s' where "server_step sample_server (Close 4) s'"
    using step_enabled(3) [OF srv_ok_sample, of 4] by auto
  with step_well_formed [OF this srv_ok_sample listening_sample] show ?thesis by blast
qed

theorem output_order_witness:
  "\<exists>s'. server_run sample_server [Send 4 1, Close 5] s' \<and> prefix ''hi'' (out_stream 4 s')"
proof -
  have core: "srv_core sample_server" using srv_ok_sample by (simp add: srv_ok_def)
  obtain s1 where s1: "server_step sample_server (Send 4 1) s1"
    using step_enabled(2) [OF srv_ok_sample, of 4 1] by auto
  then have "srv_ok s1" "conns s1 = conns sample_server"
    using step_facts [OF s1 srv_ok_sample] by (auto simp: conns_def)
  then obtain s2 where "server_step s1 (Close 5) s2" using step_enabled(3) [of s1 5] by auto
  then have run: "server_run sample_server ([Send 4 1] @ [Close 5]) s2" by (rule run_snoc [OF run_step [OF s1]])
  then have "prefix (out_stream 4 sample_server) (out_stream 4 s2)"
    using output_order [OF srv_ok_sample run, of 4] by simp
  with run show ?thesis by (auto simp: out_stream_def [of 4 sample_server] sent_def)
qed

theorem connections_served_witness:
  "\<exists>srv s'. Server \<lparr>sock = 3, setOption = 0, bindResult = 0, listenResult = 0\<rparr> 6667 ''pw'' = Inr srv
    \<and> server_step (acceptNewClient 7 None srv) (Receive 7 ''NICK'') s'"
proof -
  obtain srv where srv: "Server \<lparr>sock = 3, setOption = 0, bindResult = 0, listenResult = 0\<rparr> 6667 ''pw'' = Inr srv"
      "fds srv = [3]" "serverFd srv = 3"
    by (simp add: Server_result fds_def)
  then have "server_run srv [Accept 7 None] (acceptNewClient 7 None srv)"
    by (intro run_step step_accept) (simp_all add: fresh_def)
  moreover have "7 \<in> conns (acceptNewClient 7 None srv)"
    using srv by (simp add: acceptNewClient_def conns_def fds_def)
  ultimately show ?thesis using connections_served [OF srv(1)] srv(1) by auto
qed

end
