(* ===== verification/Delivery.thy ===== *)
theory Delivery
  imports Server_Events
begin

section \<open>Queued output is delivered\<close>

text \<open>
  Progress of \<open>sendData\<close> over whole runs. What is queued for a connection leaves in order, and the
  amount the system has to accept before it is all gone does not depend on what else the server
  does meanwhile: more output may be queued behind it, other connections may come, go and be served.
\<close>

text \<open>How many bytes the system accepted from a descriptor, over a sequence of events.\<close>

primrec taken_by :: "int \<Rightarrow> event \<Rightarrow> nat" where
  "taken_by fd (Accept f mem) = 0"
| "taken_by fd (Receive f bytes) = 0"
| "taken_by fd (Send f n) = (if f = fd then nat n else 0)"
| "taken_by fd (Close f) = 0"
| "taken_by fd Poll = 0"

definition taken :: "int \<Rightarrow> event list \<Rightarrow> nat" where
  "taken fd es = sum_list (map (taken_by fd) es)"

lemma taken_simps [simp]:
  "taken fd [] = 0" "taken fd (es @ [e]) = taken fd es + taken_by fd e"
  by (simp_all add: taken_def)

lemma sent_prefix [simp]: "prefix (sent fd s) (out_stream fd s)"
  by (simp add: out_stream_def)

text \<open>One event: bytes already sent stay sent, and an accepted amount is taken from the queue.\<close>

lemma step_wire:
  assumes "server_step s e s'" and "srv_ok s"
  shows "(\<exists>fd n. e = Send fd n) \<or> wire s' = wire s"
  using assms(1)
proof (cases rule: server_step.cases)
  case (step_accept fd mem)
  then show ?thesis by (auto simp: acceptNewClient_def)
next
  case (step_receive fd bytes mems)
  show ?thesis by (rule receiveData_ok [OF assms(2) step_receive(2-4), where mems = mems]) (use step_receive in simp)
next
  case (step_close fd)
  have "srv_core s" using assms(2) by (simp add: srv_ok_def)
  then show ?thesis by (rule disconnectClient_core [where fd = fd]) (use step_close in simp)
qed simp_all

lemma step_sent:
  assumes step: "server_step s e s'" and ok: "srv_ok s"
  shows "min (length (out_stream fd s)) (length (sent fd s) + taken_by fd e) \<le> length (sent fd s')"
proof (cases "\<exists>n. e = Send fd n")
  case True
  then obtain n where e: "e = Send fd n" by blast
  have core: "srv_core s" using ok by (simp add: srv_ok_def)
  have run: "fd \<in> conns s" "0 \<le> n" "sendData fd n s = Some s'"
    using step unfolding e by (simp_all add: server_step_simps)
  have "length (out_stream fd s') = length (out_stream fd s)"
    by (simp add: sendData_buffers(2) [OF core run])
  with sendData_buffers(1) [OF core run, of fd] e show ?thesis by (simp add: out_stream_def)
next
  case other: False
  show ?thesis
  proof (cases "\<exists>f n. e = Send f n")
    case False
    then have "sent fd s' = sent fd s" using step_wire [OF step ok] by (simp add: sent_def)
    moreover have "taken_by fd e = 0" using False by (cases e) auto
    ultimately show ?thesis by simp
  next
    case True
    then obtain f n where e: "e = Send f n" "f \<noteq> fd" using other by blast
    have core: "srv_core s" using ok by (simp add: srv_ok_def)
    have run: "f \<in> conns s" "0 \<le> n" "sendData f n s = Some s'"
      using step unfolding e by (simp_all add: server_step_simps)
    from sendData_buffers(1) [OF core run, of fd] sendData_buffers(2) [OF core run, of fd] e
    show ?thesis by (simp add: out_stream_def)
  qed
qed

lemma run_sent:
  "server_run s es s' \<Longrightarrow> srv_ok s \<Longrightarrow> Close fd \<notin> set es \<Longrightarrow>
    min (length (out_stream fd s)) (length (sent fd s) + taken fd es) \<le> length (sent fd s')"
proof (induction rule: server_run.induct)
  case (run_snoc s es s1 e s2)
  have "length (out_stream fd s) \<le> length (out_stream fd s1)"
    using run_stream [OF run_snoc(1,4)] run_snoc(5) by (auto dest: prefix_length_le)
  with run_snoc(3) run_snoc(4,5) step_sent [OF run_snoc(2), of fd] run_ok [OF run_snoc(1,4)]
  show ?case by simp
qed simp

lemma run_delivers:
  assumes ok: "srv_ok s" and run: "server_run s es s'" and alive: "Close fd \<notin> set es"
    and enough: "length (buf_at (sendBuffers s) fd) \<le> taken fd es"
  shows "prefix (out_stream fd s) (sent fd s')"
proof -
  have "length (out_stream fd s) \<le> length (sent fd s')"
    using run_sent [OF run ok alive] enough by (simp add: out_stream_def)
  then show ?thesis
    using prefix_length_prefix [OF run_stream [OF run ok alive] sent_prefix] by simp
qed

text \<open>
  C20. Queued output is delivered. However the events of other connections and further replies are
  interleaved, once the system has accepted as many bytes from a connection as were queued for it,
  everything that was queued has been sent, complete and in order, unless the connection was closed.
\<close>

theorem output_delivered:
  assumes "srv_ok s" and "server_run s es s'" and "Close fd \<notin> set es"
    and "length (buf_at (sendBuffers s) fd) \<le> taken fd es"
  shows "prefix (out_stream fd s) (sent fd s')"
  by (rule run_delivers [OF assms])

theorem output_delivered_witness:
  "\<exists>s'. server_run sample_server [Send 4 1, Receive 5 ''NI'', Send 4 2] s' \<and> prefix ''hi'' (sent 4 s')"
proof -
  obtain s1 where s1: "server_step sample_server (Send 4 1) s1"
    using step_enabled(2) [OF srv_ok_sample, of 4 1] by auto
  then have ok1: "srv_ok s1" "conns s1 = conns sample_server"
    using step_facts [OF s1 srv_ok_sample] by (auto simp: conns_def)
  then obtain s2 where s2: "server_step s1 (Receive 5 ''NI'') s2" using step_enabled(1) [of s1 5 "''NI''"] by auto
  then have ok2: "srv_ok s2" "conns s2 = conns sample_server"
    using step_facts [OF s2 ok1(1)] ok1(2) by (auto simp: conns_def)
  then obtain s3 where s3: "server_step s2 (Send 4 2) s3" using step_enabled(2) [of s2 4 2] by auto
  have run: "server_run sample_server (([Send 4 1] @ [Receive 5 ''NI'']) @ [Send 4 2]) s3"
    by (rule run_snoc [OF run_snoc [OF run_step [OF s1] s2] s3])
  have "prefix (out_stream 4 sample_server) (sent 4 s3)"
    by (rule output_delivered [OF srv_ok_sample run]) (simp_all add: taken_def)
  with run show ?thesis by (auto simp: out_stream_def sent_def)
qed

end
