(* ===== verification/Server_Passes.thy ===== *)
theory Server_Passes
  imports Server_Events
begin

section \<open>Passes of the poll loop\<close>

text \<open>
  A pass of the \<open>for\<close> loop of \<open>ircLoop\<close> as events, with everything that can go wrong in it: a
  connection that ends, a \<open>send\<close> that fails, an error on the listening socket. Nothing is assumed of
  the system but what it documents, and it is exactly said when a pass is undefined.
\<close>

subsection \<open>The service of one entry\<close>

text \<open>
  What happens for an entry with descriptor \<open>fd\<close> and \<open>revents\<close> \<open>r\<close>. If \<open>r\<close> has \<open>POLLIN\<close>, the listener
  accepts at most one connection, and from any other descriptor bytes are received, or
  it is closed (\<open>gone\<close>) since the stream has ended or \<open>recv\<close> failed.
\<close>

definition incoming :: "int \<Rightarrow> int \<times> short \<Rightarrow> event list \<Rightarrow> bool \<Rightarrow> bool" where
  "incoming listener x es gone \<longleftrightarrow>
     (let (fd, r) = x in
      if r AND POLLIN = 0 then es = [] \<and> \<not> gone
      else if fd = listener then (es = [] \<or> (\<exists>a mem. es = [Accept a mem])) \<and> \<not> gone
      else if gone then es = [Close fd]
      else \<exists>bytes. es = [Receive fd bytes])"

text \<open>An entry that is not gone is sent to and hung up on, as far as \<open>r\<close> says so.\<close>

definition outgoing :: "int \<Rightarrow> short \<Rightarrow> int \<Rightarrow> event list" where
  "outgoing fd r n =
     (if r AND POLLOUT \<noteq> 0 then [Send fd n] else []) @ (if erring r then [Close fd] else [])"

text \<open>\<open>N\<close> is a lower bound on what \<open>send\<close> returns in the round.\<close>

definition serves :: "int \<Rightarrow> int \<Rightarrow> int \<times> short \<Rightarrow> event list \<Rightarrow> bool" where
  "serves listener N x es \<longleftrightarrow>
     incoming listener x es True
     \<or> (\<exists>fs n. incoming listener x fs False \<and> N \<le> n \<and> 0 \<le> n \<and> es = fs @ outgoing (fst x) (snd x) n)"

text \<open>The service of an entry for which \<open>send\<close> fails: the connection is closed.\<close>

definition send_fails :: "int \<Rightarrow> int \<Rightarrow> int \<times> short \<Rightarrow> event list \<Rightarrow> bool" where
  "send_fails listener N x es \<longleftrightarrow>
     N < 0 \<and> snd x AND POLLOUT \<noteq> 0 \<and> (\<exists>fs. incoming listener x fs False \<and> es = fs @ [Close (fst x)])"

text \<open>Entries that are appended to \<open>_pollfds\<close>; \<open>poll\<close> has not reported anything for them yet.\<close>

definition news :: "event list \<Rightarrow> (int \<times> short) list" where
  "news es = concat (map (\<lambda>e. case e of Accept a mem \<Rightarrow> [(a, 0)] | _ \<Rightarrow> []) es)"

lemma news_simps [simp]:
  "news [] = []" "news (Accept a mem # es) = (a, 0) # news es" "news (Receive fd bytes # es) = news es"
  "news (Send fd n # es) = news es" "news (Close fd # es) = news es" "news (es @ fs) = news es @ news fs"
  by (simp_all add: news_def)

lemma news_outgoing [simp]: "news (outgoing fd r n) = []"
  by (simp add: outgoing_def)

lemma weight_news: "serves l N x es \<Longrightarrow> weight l (news es) < weight l [x]"
  by (cases x) (auto simp: serves_def incoming_def split: if_splits)

text \<open>
  Without a fault (a failing \<open>send\<close>, an error on the listener) a run of the loop is one of the event
  system.
\<close>

definition runs :: "bool \<Rightarrow> server \<Rightarrow> event list \<Rightarrow> server \<Rightarrow> bool" where
  "runs faultless s es s' \<longleftrightarrow> loop_run s es s' \<and> (faultless \<longrightarrow> server_run s es s')"

lemma runs_trans: "runs F s2 fs s3 \<Longrightarrow> runs F s1 es s2 \<Longrightarrow> runs F s1 (es @ fs) s3"
  unfolding runs_def using loop_trans run_trans by blast

lemma runs_server: "server_run s es s' \<Longrightarrow> runs F s es s'"
  by (simp add: runs_def run_loop)

definition quiet :: "server \<Rightarrow> bool" where
  "quiet s \<longleftrightarrow> (\<forall>(fd, r) \<in> set (ready s). fd = serverFd s \<longrightarrow> \<not> erring r)"

lemma pass_in_events:
  assumes ok: "loop_ok s" and i: "i < length (ready s)" "ready s ! i = (fd, r)" and os: "os_ok inp s"
  obtains s1 gone es where "pass_in inp r fd s = Some (s1, gone)" "loop_ok s1" "serverFd s1 = serverFd s"
    "server_run s es s1" "incoming (serverFd s) (fd, r) es gone"
    "ready s1 = (if gone then filter (\<lambda>x. fst x \<noteq> fd) (ready s) else ready s @ news es)"
proof -
  consider (none) "r AND POLLIN = 0" | (refuse) "r AND POLLIN \<noteq> 0" "fd = serverFd s" "accepted inp < 0"
    | (accept) "r AND POLLIN \<noteq> 0" "fd = serverFd s" "0 \<le> accepted inp"
    | (receive) "r AND POLLIN \<noteq> 0" "fd \<noteq> serverFd s" by linarith
  then show ?thesis
  proof cases
    case none
    with ok show ?thesis by (intro that [of s False "[]"]) (simp_all add: pass_in_def incoming_def run_nil)
  next
    case refuse
    with ok show ?thesis
      by (intro that [of s False "[]"]) (simp_all add: pass_in_def incoming_def run_nil acceptNewClient_def)
  next
    case accept
    let ?s = "acceptNewClient (accepted inp) (newClient inp) s"
    note a = acceptNewClient_loop [OF ok os]
    have "server_run s [Accept (accepted inp) (newClient inp)] ?s"
      using os accept(3) by (intro run_step step_accept) (simp_all add: os_ok_def)
    with accept a show ?thesis
      by (intro that [of ?s False "[Accept (accepted inp) (newClient inp)]"]) (simp_all add: pass_in_def incoming_def)
  next
    case receive
    have conn: "fd \<in> conns s" using receive(2) by (intro ready_conn [OF ok i]) blast
    have short: "length bytes < 512" if "received inp = Received bytes" for bytes
      using os that by (simp add: os_ok_def)
    obtain s1 where s1: "receiveData (allocs inp) fd (received inp) s = Some s1" "loop_ok s1"
        "serverFd s1 = serverFd s"
        "map_find (recvBuffers s1) fd = None \<longrightarrow> ready s1 = filter (\<lambda>x. fst x \<noteq> fd) (ready s)"
        "map_find (recvBuffers s1) fd \<noteq> None \<longrightarrow> ready s1 = ready s \<and> fd \<in> conns s1"
      by (rule receiveData_loop [OF ok conn short])
    let ?gone = "map_find (recvBuffers s1) fd = None"
    have run: "pass_in inp r fd s = Some (s1, ?gone)" using receive s1(1) by (simp add: pass_in_def)
    consider (closed) "disconnectClient fd s = Some s1"
      | (data) bytes where "received inp = Received bytes" "bytes \<noteq> ''''"
      using s1(1) by (cases "received inp") (auto simp: receiveData_def split: if_splits)
    then show ?thesis
    proof cases
      case closed
      obtain t where "disconnectClient fd s = Some t" "recvBuffers t = map_erase fd (recvBuffers s)"
        by (rule disconnectClient_loop [OF ok])
      with closed have gone: "?gone" by (simp add: map_find_simps)
      with run s1 receive run_step [OF step_close [OF conn closed]] show ?thesis
        by (intro that [of s1 True "[Close fd]"]) (simp_all add: incoming_def)
    next
      case (data bytes)
      then have step: "server_step s (Receive fd bytes) s1"
        using s1(1) short by (intro step_receive [OF conn]) simp_all
      moreover have "srv_ok s" using ok by (simp add: loop_ok_def)
      ultimately have "srv_ok s1" "fd \<in> conns s1"
        using step_facts [OF step] conn by (simp_all add: conns_def)
      then have here: "\<not> ?gone" using srv_coreD(5) [of s1 fd] by (simp add: srv_ok_def has_entry_def)
      with run s1 receive run_step [OF step] show ?thesis
        by (intro that [of s1 False "[Receive fd bytes]"]) (simp_all add: incoming_def)
    qed
  qed
qed

text \<open>The rest of a pass when \<open>send\<close> does not fail.\<close>

lemma pass_out_events:
  assumes ok: "loop_ok s1" and i: "i < length (ready s1)" "ready s1 ! i = (fd, r)"
    and n: "r AND POLLOUT \<noteq> 0 \<Longrightarrow> 0 \<le> bytesSent inp \<or> buf_at (sendBuffers s1) fd = ''''"
    and F: "F \<longrightarrow> quiet s1"
  obtains s' gone where "pass_out inp i fd False s1 = Some (s', gone)" "loop_ok s'" "serverFd s' = serverFd s1"
    "runs F s1 (outgoing fd r (max 0 (bytesSent inp))) s'"
    "drop (if gone then i else Suc i) (ready s') = drop (Suc i) (ready s1)" "set (ready s') \<subseteq> set (ready s1)"
proof -
  have at1: "revents_at s1 i = Some r" using i by (simp add: revents_ready)
  let ?n = "max 0 (bytesSent inp)"
  let ?out = "if r AND POLLOUT \<noteq> 0 then [Send fd ?n] else []"
  obtain s2 where s2: "(if r AND POLLOUT \<noteq> 0 then sendData fd (bytesSent inp) s1 else Some s1) = Some s2"
      "loop_ok s2" "serverFd s2 = serverFd s1" "server_run s1 ?out s2" "ready s2 = ready s1"
  proof (cases "r AND POLLOUT = 0")
    case True
    with that [of s1] ok run_nil show ?thesis by simp
  next
    case False
    have conn: "fd \<in> conns s1" using ready_conn [OF ok i] False by blast
    obtain s2 where "sendData fd (bytesSent inp) s1 = Some s2" "sendData fd ?n s1 = Some s2" "loop_ok s2"
        "serverFd s2 = serverFd s1" "ready s2 = ready s1"
      by (rule sendData_loop [OF ok conn n [OF False]])
    with that [of s2] run_step [OF step_send [OF conn]] False show ?thesis by simp
  qed
  have at2: "revents_at s2 i = Some r" using at1 s2(5) by (simp only: revents_ready)
  show ?thesis
  proof (cases "erring r")
    case False
    with at1 at2 s2 have "pass_out inp i fd False s1 = Some (s2, False)" by (simp add: pass_out_def)
    with that [of s2 False] s2 False runs_server show ?thesis by (simp add: outgoing_def)
  next
    case True
    obtain s3 where s3: "disconnectClient fd s2 = Some s3" "loop_ok s3" "serverFd s3 = serverFd s2"
        "ready s3 = filter (\<lambda>x. fst x \<noteq> fd) (ready s2)"
      by (rule disconnectClient_loop [OF s2(2)])
    have out: "pass_out inp i fd False s1 = Some (s3, True)" using at1 at2 s2(1) s3(1) True by (simp add: pass_out_def)
    have i2: "i < length (ready s2)" "ready s2 ! i = (fd, r)" using i s2(5) by simp_all
    have rest: "drop i (ready s3) = drop (Suc i) (ready s1)"
      using s3(4) filter_current [OF s2(2) i2] i2(1) s2(5) by simp
    have "runs F s1 (?out @ [Close fd]) s3"
    proof (cases "fd = serverFd s2")
      case listener: True
      have "(fd, r) \<in> set (ready s1)" using nth_mem [OF i(1)] i(2) by simp
      then have "\<not> F" using F True listener s2(3) by (auto simp: quiet_def)
      moreover have "listening s2"
        using nth_mem [OF i2(1)] i2(2) listener by (force simp: listening_def fds_ready)
      ultimately show ?thesis
        using loop_hangup [OF run_loop [OF s2(4)]] s3(1) listener by (simp add: runs_def)
    next
      case False
      then have "fd \<in> conns s2" by (intro ready_conn [OF s2(2) i2]) blast
      with s3(1) run_snoc [OF s2(4)] show ?thesis by (intro runs_server) (blast intro: step_close)
    qed
    with that [OF out s3(2)] s3(3,4) s2(3,5) rest True show ?thesis by (auto simp: outgoing_def)
  qed
qed

text \<open>
  When \<open>send\<close> fails, the entry is gone but the pass goes on with what is at its index now: nothing
  (undefined), an entry with an error, for which the descriptor is closed again, or any other,
  which is then passed over.
\<close>

lemma pass_out_fails:
  assumes ok: "loop_ok s1" and i: "i < length (ready s1)" "ready s1 ! i = (fd, r)"
    and n: "r AND POLLOUT \<noteq> 0" "bytesSent inp < 0" "buf_at (sendBuffers s1) fd \<noteq> ''''"
  obtains (overrun) s2 where "Suc i = length (ready s1)" "pass_out inp i fd False s1 = None"
      "loop_ok s2" "serverFd s2 = serverFd s1" "loop_run s1 [Close fd] s2"
    | (skipped) s2 where "Suc i < length (ready s1)" "\<not> erring (snd (ready s1 ! Suc i))"
      "pass_out inp i fd False s1 = Some (s2, False)" "loop_ok s2" "serverFd s2 = serverFd s1"
      "loop_run s1 [Close fd] s2" "drop (Suc i) (ready s2) = drop (Suc (Suc i)) (ready s1)"
    | (again) s2 where "Suc i < length (ready s1)" "erring (snd (ready s1 ! Suc i))"
      "pass_out inp i fd False s1 = Some (s2, True)" "loop_ok s2" "serverFd s2 = serverFd s1"
      "loop_run s1 [Close fd, Close fd] s2" "drop i (ready s2) = drop (Suc i) (ready s1)"
proof -
  have at1: "revents_at s1 i = Some r" using i by (simp add: revents_ready)
  have conn: "fd \<in> conns s1" using ready_conn [OF ok i] n(1) by blast
  have core: "srv_core s1" using ok by (simp add: loop_ok_def srv_ok_def)
  obtain s2 where s2: "disconnectClient fd s1 = Some s2" "loop_ok s2" "serverFd s2 = serverFd s1"
      "ready s2 = filter (\<lambda>x. fst x \<noteq> fd) (ready s1)"
    by (rule disconnectClient_loop [OF ok])
  have send: "sendData fd (bytesSent inp) s1 = Some s2" using sendData_fails [OF core conn n(2,3)] s2(1) by simp
  have rest: "ready s2 = take i (ready s1) @ drop (Suc i) (ready s1)" using s2(4) filter_current [OF ok i] by simp
  then have drops: "drop i (ready s2) = drop (Suc i) (ready s1)" using i(1) by simp
  have run: "loop_run s1 [Close fd] s2" using run_loop [OF run_step [OF step_close [OF conn s2(1)]]] .
  show ?thesis
  proof (cases "Suc i < length (ready s1)")
    case False
    then have "revents_at s2 i = None" "Suc i = length (ready s1)" using rest i(1) by (simp_all add: revents_ready)
    with overrun s2(2,3) run at1 send n(1) show ?thesis by (simp add: pass_out_def)
  next
    case True
    have at2: "revents_at s2 i = Some (snd (ready s1 ! Suc i))"
      using rest i(1) True by (simp add: revents_ready nth_append)
    show ?thesis
    proof (cases "erring (snd (ready s1 ! Suc i))")
      case False
      moreover have "drop (Suc i) (ready s2) = drop (Suc (Suc i)) (ready s1)"
        using drops by (metis drop_drop plus_1_eq_Suc)
      ultimately show ?thesis
        using skipped [OF True _ _ s2(2,3) run] at1 at2 send n(1) by (simp add: pass_out_def)
    next
      case err: True
      obtain s3 where s3: "disconnectClient fd s2 = Some s3" "loop_ok s3" "serverFd s3 = serverFd s2"
          "ready s3 = filter (\<lambda>x. fst x \<noteq> fd) (ready s2)"
        by (rule disconnectClient_loop [OF s2(2)])
      have "loop_run s1 ([] @ [Close fd, Close fd]) s3"
        using run conn s2(3,4) s3(1)
        by (intro loop_again [of s1 "[]" fd s2 s3]) (auto simp: conns_def fds_ready)
      moreover have "ready s3 = ready s2" using s2(4) s3(4) by simp
      ultimately show ?thesis
        using again [OF True err _ s3(2)] at1 at2 send s3(1,3) s2(3) n(1) drops err by (simp add: pass_out_def)
    qed
  qed
qed

subsection \<open>One pass\<close>

text \<open>\<open>send\<close> is called for entry \<open>i\<close> in the pass, and fails.\<close>

definition send_breaks :: "pass_input \<Rightarrow> nat \<Rightarrow> server \<Rightarrow> bool" where
  "send_breaks inp i s \<longleftrightarrow>
     (let x = pollfds s ! i in
      revents x AND POLLOUT \<noteq> 0 \<and> bytesSent inp < 0
      \<and> (\<exists>s1. pass_in inp (revents x) (pfFd x) s = Some (s1, False) \<and> buf_at (sendBuffers s1) (pfFd x) \<noteq> ''''))"

lemma poll_pass_eq:
  assumes "i < length (ready s)" and "ready s ! i = (fd, r)" and "pass_in inp r fd s = Some (s1, gone)"
  shows "poll_pass inp i s = map_option (\<lambda>(s', g). (if g then i else Suc i, s')) (pass_out inp i fd gone s1)"
proof -
  have "i < length (pollfds s)" using assms(1) by (simp add: ready_length)
  with ready_nth [OF this] assms show ?thesis
    by (cases "pass_out inp i fd gone s1") (simp_all add: poll_pass_def revents_ready Let_def split_beta)
qed

lemma breaks_eq:
  assumes "i < length (ready s)" and "ready s ! i = (fd, r)" and "pass_in inp r fd s = Some (s1, gone)"
  shows "send_breaks inp i s \<longleftrightarrow>
    \<not> gone \<and> r AND POLLOUT \<noteq> 0 \<and> bytesSent inp < 0 \<and> buf_at (sendBuffers s1) fd \<noteq> ''''"
proof -
  have "i < length (pollfds s)" using assms(1) by (simp add: ready_length)
  with ready_nth [OF this] assms show ?thesis by (auto simp: send_breaks_def Let_def)
qed

lemma quiet_mono: "quiet s \<Longrightarrow> serverFd s' = serverFd s \<Longrightarrow> set (ready s') \<subseteq> set (ready s) \<union> set (news es) \<Longrightarrow> quiet s'"
  by (auto simp: quiet_def news_def split: event.splits)

lemma poll_pass_queue:
  assumes ok: "loop_ok s" and i: "i < length (ready s)" and os: "os_ok inp s" and N: "N \<le> bytesSent inp"
    and F: "F \<longrightarrow> 0 \<le> N \<and> quiet s"
  obtains (served) i' s' es where "poll_pass inp i s = Some (i', s')" "loop_ok s'" "serverFd s' = serverFd s"
      "runs F s es s'" "serves (serverFd s) N (ready s ! i) es" "F \<longrightarrow> quiet s'"
      "drop i' (ready s') = drop (Suc i) (ready s) @ news es"
    | (skipped) s' es where "poll_pass inp i s = Some (Suc i, s')" "loop_ok s'" "serverFd s' = serverFd s"
      "loop_run s es s'" "send_fails (serverFd s) N (ready s ! i) es" "\<not> F"
      "Suc i < length (ready s)" "\<not> erring (snd (ready s ! Suc i))"
      "drop (Suc i) (ready s') = drop (Suc (Suc i)) (ready s)"
    | (again) s' es where "poll_pass inp i s = Some (i, s')" "loop_ok s'" "serverFd s' = serverFd s"
      "loop_run s (es @ [Close (fst (ready s ! i))]) s'" "send_fails (serverFd s) N (ready s ! i) es" "\<not> F"
      "Suc i < length (ready s)" "erring (snd (ready s ! Suc i))"
      "drop i (ready s') = drop (Suc i) (ready s)"
    | (overrun) s' es where "poll_pass inp i s = None" "loop_ok s'" "serverFd s' = serverFd s"
      "loop_run s es s'" "send_fails (serverFd s) N (ready s ! i) es" "\<not> F"
      "Suc i = length (ready s)" "send_breaks inp i s"
proof -
  obtain fd r where x: "ready s ! i = (fd, r)" by (cases "ready s ! i")
  obtain s1 gone es where s1: "pass_in inp r fd s = Some (s1, gone)" "loop_ok s1" "serverFd s1 = serverFd s"
      "server_run s es s1" "incoming (serverFd s) (fd, r) es gone"
      "ready s1 = (if gone then filter (\<lambda>x. fst x \<noteq> fd) (ready s) else ready s @ news es)"
    by (rule pass_in_events [OF ok i x os])
  note pass = poll_pass_eq [OF i x s1(1)] and breaks = breaks_eq [OF i x s1(1)]
  show ?thesis
  proof (cases gone)
    case True
    have "news es = []" using s1(5) True by (auto simp: incoming_def split: if_splits)
    moreover have "drop i (ready s1) = drop (Suc i) (ready s)"
      using s1(6) True filter_current [OF ok i x] i by simp
    moreover have "F \<longrightarrow> quiet s1" using F s1(3,6) True quiet_mono [of s s1 es] by auto
    ultimately show ?thesis
      using served [of i s1 es] pass s1(2,3,5) runs_server [OF s1(4)] True x
      by (simp add: pass_out_def serves_def)
  next
    case False
    then have here: "ready s1 = ready s @ news es" and inc: "incoming (serverFd s) (fd, r) es False"
      using s1(5,6) by simp_all
    have i1: "i < length (ready s1)" "ready s1 ! i = (fd, r)" using here i x by (simp_all add: nth_append)
    have F1: "F \<longrightarrow> quiet s1" using F s1(3) here quiet_mono [of s s1 es] by auto
    show ?thesis
    proof (cases "send_breaks inp i s")
      case fine: False
      have n: "0 \<le> bytesSent inp \<or> buf_at (sendBuffers s1) fd = ''''" if "r AND POLLOUT \<noteq> 0"
        using fine breaks False that by auto
      obtain s' g where o: "pass_out inp i fd False s1 = Some (s', g)" "loop_ok s'" "serverFd s' = serverFd s1"
          "runs F s1 (outgoing fd r (max 0 (bytesSent inp))) s'"
          "drop (if g then i else Suc i) (ready s') = drop (Suc i) (ready s1)" "set (ready s') \<subseteq> set (ready s1)"
        by (rule pass_out_events [OF s1(2) i1 n F1])
      let ?es = "es @ outgoing fd r (max 0 (bytesSent inp))"
      have "serves (serverFd s) N (ready s ! i) ?es" 
        using inc N x unfolding serves_def by (intro disjI2 exI [of _ es] exI [of _ "max 0 (bytesSent inp)"]) simp
      moreover have "runs F s ?es s'" using runs_trans [OF o(4) runs_server [OF s1(4)]] .
      moreover have "F \<longrightarrow> quiet s'" using F1 o(3,6) quiet_mono [of s1 s' "[]"] by auto
      moreover have "drop (if g then i else Suc i) (ready s') = drop (Suc i) (ready s) @ news ?es"
        using o(5) here i by simp
      ultimately show ?thesis using served pass o(1,2,3) s1(3) False by simp
    next
      case True
      then have f: "r AND POLLOUT \<noteq> 0" "bytesSent inp < 0" "buf_at (sendBuffers s1) fd \<noteq> ''''" using breaks by auto
      have "fd \<noteq> serverFd s" using ready_conn [OF ok i x] f(1) by (auto simp: conns_def)
      then have none: "news es = []" using inc by (auto simp: incoming_def split: if_splits)
      then have same: "ready s1 = ready s" using here by simp
      have fails: "send_fails (serverFd s) N (ready s ! i) (es @ [Close fd])"
        using f N inc x by (auto simp: send_fails_def)
      have nF: "\<not> F" using F N f(2) by auto
      note trans = loop_trans [OF _ run_loop [OF s1(4)]]
      show ?thesis
        using s1(2) i1 f
      proof (cases rule: pass_out_fails)
        case (overrun s2)
        with fails nF same pass False True s1(3) trans [OF overrun(5)] show ?thesis
          by (intro that(4) [of s2 "es @ [Close fd]"]) simp_all
      next
        case (skipped s2)
        with fails nF same pass False s1(3) trans [OF skipped(6)] show ?thesis
          by (intro that(2) [of s2 "es @ [Close fd]"]) simp_all
      next
        case (again s2)
        with fails nF same pass False s1(3) trans [OF again(6)] x show ?thesis
          by (intro that(3) [of s2 "es @ [Close fd]"]) simp_all
      qed
    qed
  qed
qed

text \<open>A pass is undefined exactly if \<open>send\<close> fails for the last entry.\<close>

lemma poll_pass_undefined:
  assumes ok: "loop_ok s" and i: "i < length (pollfds s)" and os: "os_ok inp s"
  shows "poll_pass inp i s = None \<longleftrightarrow> Suc i = length (pollfds s) \<and> send_breaks inp i s"
proof -
  have ir: "i < length (ready s)" using i by (simp add: ready_length)
  obtain fd r where x: "ready s ! i = (fd, r)" by (cases "ready s ! i")
  obtain s1 gone es where s1: "pass_in inp r fd s = Some (s1, gone)" "loop_ok s1" "serverFd s1 = serverFd s"
      "incoming (serverFd s) (fd, r) es gone"
      "ready s1 = (if gone then filter (\<lambda>x. fst x \<noteq> fd) (ready s) else ready s @ news es)"
    by (rule pass_in_events [OF ok ir x os])
  have "poll_pass inp i s = None" if last: "Suc i = length (ready s)" and b: "send_breaks inp i s"
  proof -
    have f: "\<not> gone" "r AND POLLOUT \<noteq> 0" "bytesSent inp < 0" "buf_at (sendBuffers s1) fd \<noteq> ''''"
      using b breaks_eq [OF ir x s1(1)] by auto
    have "fd \<noteq> serverFd s" using ready_conn [OF ok ir x] f(2) by (auto simp: conns_def)
    then have "news es = []" using s1(4) by (auto simp: incoming_def split: if_splits)
    then have same: "ready s1 = ready s" using s1(5) f(1) by simp
    then have i1: "i < length (ready s1)" "ready s1 ! i = (fd, r)" using ir x by simp_all
    from s1(2) i1 f(2-4) have "pass_out inp i fd False s1 = None"
      by (cases rule: pass_out_fails) (use last same in simp_all)
    with poll_pass_eq [OF ir x s1(1)] f(1) show ?thesis by simp
  qed
  moreover have "Suc i = length (ready s) \<and> send_breaks inp i s" if "poll_pass inp i s = None"
    by (rule poll_pass_queue [OF ok ir os order.refl, of False]) (use that in simp_all)
  ultimately show ?thesis by (auto simp: ready_length)
qed

end
