(* ===== verification/Server_Rounds.thy ===== *)
theory Server_Rounds
  imports Server_Passes
begin

section \<open>Rounds of the poll loop\<close>

text \<open>
  A round as the service of a queue of entries, and sequences of rounds. The \<open>for\<close> loop ends by the
  measure of \<open>Server_Loop\<close>, or a failed \<open>send\<close> makes it leave \<open>_pollfds\<close>; undefined behaviour is an
  outcome of the relation.
\<close>

subsection \<open>The \<open>for\<close> loop serves a queue\<close>

text \<open>
  The entries from the current one on, what happens for them, and whether the loop ends (or leaves
  \<open>_pollfds\<close>). Each entry is served in its turn and an accepted connection queues at the end; after a
  failed \<open>send\<close> the next entry is passed over, or (when it has an error) the descriptor is closed
  again, or (when there is none) the loop goes wrong.
\<close>

inductive served :: "int \<Rightarrow> int \<Rightarrow> (int \<times> short) list \<Rightarrow> event list \<Rightarrow> bool \<Rightarrow> bool" for l N where
  served_end: "served l N [] [] True"
| served_entry: "serves l N x es \<Longrightarrow> served l N (xs @ news es) fs ends \<Longrightarrow> served l N (x # xs) (es @ fs) ends"
| served_over: "send_fails l N x es \<Longrightarrow> \<not> erring (snd y) \<Longrightarrow> served l N xs fs ends
    \<Longrightarrow> served l N (x # y # xs) (es @ fs) ends"
| served_again: "send_fails l N x es \<Longrightarrow> erring (snd y) \<Longrightarrow> served l N (y # xs) fs ends
    \<Longrightarrow> served l N (x # y # xs) ((es @ [Close (fst x)]) @ fs) ends"
| served_wrong: "send_fails l N x es \<Longrightarrow> served l N [x] es False"

inductive_cases served_endE: "served l N [] es ends"

text \<open>The passes of the loop: which pass of which entry is reached in which state.\<close>

inductive reached :: "(nat \<Rightarrow> nat \<Rightarrow> server \<Rightarrow> pass_input) \<Rightarrow> nat \<Rightarrow> nat \<Rightarrow> server \<Rightarrow> nat \<Rightarrow> nat \<Rightarrow> server \<Rightarrow> bool"
  for os where
  reached_here: "reached os k i s k i s"
| reached_pass: "i < length (pollfds s) \<Longrightarrow> poll_pass (os k i s) i s = Some (i1, s1)
    \<Longrightarrow> reached os (k + 1) i1 s1 k' i' s' \<Longrightarrow> reached os k i s k' i' s'"

lemma poll_for_reached: "reached os k i s k' i' s' \<Longrightarrow> poll_for os k i s = poll_for os k' i' s'"
proof (induction rule: reached.induct)
  case (reached_pass i s k i1 s1 k' i' s')
  then show ?case by (simp add: poll_for.simps [of os k i s])
qed simp

definition answers_ok :: "(nat \<Rightarrow> nat \<Rightarrow> server \<Rightarrow> pass_input) \<Rightarrow> bool" where
  "answers_ok os \<longleftrightarrow> (\<forall>k i s. loop_ok s \<and> i < length (pollfds s) \<longrightarrow> os_ok (os k i s) s)"

text \<open>In some pass that is reached \<open>send\<close> fails for the entry that is the last one then.\<close>

definition overruns :: "(nat \<Rightarrow> nat \<Rightarrow> server \<Rightarrow> pass_input) \<Rightarrow> nat \<Rightarrow> nat \<Rightarrow> server \<Rightarrow> bool" where
  "overruns os k i s \<longleftrightarrow>
     (\<exists>k' i' s'. reached os k i s k' i' s' \<and> Suc i' = length (pollfds s') \<and> send_breaks (os k' i' s') i' s')"

lemma overruns_pass:
  "i < length (pollfds s) \<Longrightarrow> poll_pass (os k i s) i s = Some (i1, s1) \<Longrightarrow> overruns os (k + 1) i1 s1 \<Longrightarrow> overruns os k i s"
  unfolding overruns_def by (blast intro: reached_pass)

lemma reached_ok:
  assumes os: "answers_ok os"
  shows "reached os k i s k' i' s' \<Longrightarrow> loop_ok s \<Longrightarrow> loop_ok s'"
proof (induction rule: reached.induct)
  case (reached_pass i s k i1 s1 k' i' s')
  have i: "i < length (ready s)" using reached_pass(1) by (simp add: ready_length)
  have "os_ok (os k i s) s" using os reached_pass(1,5) by (simp add: answers_ok_def)
  then have "loop_ok s1"
    by (rule poll_pass_queue [OF reached_pass(5) i _ order.refl, of _ False]) (use reached_pass(2) in simp_all)
  with reached_pass show ?case by blast
qed

lemma overruns_undefined:
  assumes os: "answers_ok os" and ok: "loop_ok s" and "overruns os k i s"
  shows "poll_for os k i s = None"
proof -
  obtain k' i' s' where r: "reached os k i s k' i' s'" "Suc i' = length (pollfds s')" "send_breaks (os k' i' s') i' s'"
    using assms(3) unfolding overruns_def by blast
  have ok': "loop_ok s'" by (rule reached_ok [OF os r(1) ok])
  have i: "i' < length (pollfds s')" using r(2) by simp
  have "os_ok (os k' i' s') s'" using os ok' i by (simp add: answers_ok_def)
  then have "poll_pass (os k' i' s') i' s' = None" using poll_pass_undefined [OF ok' i] r by simp
  with i poll_for_reached [OF r(1)] show ?thesis by (simp add: poll_for.simps [of os k' i' s'])
qed

text \<open>The \<open>for\<close> loop ends, by the measure, or overruns; and it does what \<open>served\<close> says.\<close>

lemma poll_for_serves:
  assumes ok: "loop_ok s" and os: "answers_ok os" and N: "\<And>k i s. loop_ok s \<Longrightarrow> i < length (pollfds s) \<Longrightarrow> N \<le> bytesSent (os k i s)"
    and F: "F \<longrightarrow> 0 \<le> N \<and> quiet s"
  shows "\<exists>t es ends. served (serverFd s) N (drop i (ready s)) es ends \<and> runs F s es t \<and> loop_ok t
    \<and> serverFd t = serverFd s \<and> (ends \<or> \<not> F \<and> overruns os k i s)
    \<and> poll_for os k i s = (if ends then Some t else None)"
  using ok F
proof (induction "weight (serverFd s) (drop i (ready s))" arbitrary: k i s rule: less_induct)
  case less
  let ?l = "serverFd s"
  show ?case
  proof (cases "i < length (pollfds s)")
    case False
    then have "drop i (ready s) = []" by (simp add: ready_length)
    with False less.prems served_end runs_server [OF run_nil] show ?thesis
      by (auto simp: poll_for.simps [of os k i s] intro!: exI [of _ s] exI [of _ "[]"] exI [of _ True])
  next
    case True
    have i: "i < length (ready s)" using True by (simp add: ready_length)
    have inp: "os_ok (os k i s) s" using os less.prems(1) True by (simp add: answers_ok_def)
    have queue: "drop i (ready s) = ready s ! i # drop (Suc i) (ready s)" by (rule Cons_nth_drop_Suc [OF i, symmetric])
    have go: ?thesis
      if p: "poll_pass (os k i s) i s = Some (i1, s1)" "loop_ok s1" "serverFd s1 = ?l" "runs F s es s1" "F \<longrightarrow> quiet s1"
        and w: "weight ?l (drop i1 (ready s1)) < weight ?l (drop i (ready s))"
        and q: "\<And>fs ends. served ?l N (drop i1 (ready s1)) fs ends \<Longrightarrow> served ?l N (drop i (ready s)) (es @ fs) ends"
      for i1 s1 es
    proof -
      have "weight (serverFd s1) (drop i1 (ready s1)) < weight ?l (drop i (ready s))" "F \<longrightarrow> 0 \<le> N \<and> quiet s1"
        using w p(3,5) less.prems(2) by auto
      then obtain t fs ends where t: "served ?l N (drop i1 (ready s1)) fs ends" "runs F s1 fs t" "loop_ok t"
          "serverFd t = ?l" "ends \<or> \<not> F \<and> overruns os (k + 1) i1 s1"
          "poll_for os (k + 1) i1 s1 = (if ends then Some t else None)"
        using less.hyps [OF _ p(2), of i1 "k + 1"] p(3) by auto
      have "poll_for os k i s = (if ends then Some t else None)"
        using t(6) p(1) True by (simp add: poll_for.simps [of os k i s])
      with q [OF t(1)] runs_trans [OF t(2) p(4)] t(3-5) overruns_pass [where os = os, OF True p(1)] show ?thesis by blast
    qed
    from less.prems(1) i inp N [OF less.prems(1) True] less.prems(2) show ?thesis
    proof (cases rule: poll_pass_queue)
      case (served i1 s1 es)
      from served(7) queue have "weight ?l (drop i1 (ready s1)) < weight ?l (drop i (ready s))"
        using weight_news [OF served(5)] by (cases "ready s ! i") simp
      with served show ?thesis
        by (intro go [of i1 s1 es]) (simp_all add: queue served_entry)
    next
      case (skipped s1 es)
      have next': "drop (Suc i) (ready s) = ready s ! Suc i # drop (Suc (Suc i)) (ready s)"
        by (rule Cons_nth_drop_Suc [OF skipped(7), symmetric])
      have "weight ?l (drop (Suc i) (ready s1)) < weight ?l (drop i (ready s))"
        unfolding queue next' skipped(9) by (cases "ready s ! i"; cases "ready s ! Suc i") simp
      with skipped show ?thesis
        by (intro go [of "Suc i" s1 es]) (simp_all add: queue next' served_over runs_def)
    next
      case (again s1 es)
      have next': "drop (Suc i) (ready s) = ready s ! Suc i # drop (Suc (Suc i)) (ready s)"
        by (rule Cons_nth_drop_Suc [OF again(7), symmetric])
      have "weight ?l (drop i (ready s1)) < weight ?l (drop i (ready s))"
        unfolding queue again(9) by (cases "ready s ! i") simp
      moreover have "served ?l N (drop i (ready s)) ((es @ [Close (fst (ready s ! i))]) @ fs) ends"
        if "served ?l N (drop i (ready s1)) fs ends" for fs ends
        using that again(5,8,9) unfolding queue next' by (intro served_again) simp_all
      ultimately show ?thesis
        using again by (intro go [of i s1 "es @ [Close (fst (ready s ! i))]"]) (simp_all add: runs_def)
    next
      case (overrun t es)
      have "served ?l N (drop i (ready s)) es False"
        using overrun(5,7) unfolding queue by (simp add: served_wrong)
      moreover have "overruns os k i s"
        unfolding overruns_def using reached_here [of os k i s] overrun(7,8) by (auto simp: ready_length)
      ultimately show ?thesis
        using overrun True by (intro exI [of _ t] exI [of _ es] exI [of _ False]) (simp add: poll_for.simps [of os k i s] runs_def)
    qed
  qed
qed

subsection \<open>One round\<close>

definition polling :: "round_input \<Rightarrow> server \<Rightarrow> server" where
  "polling rd s = s\<lparr>pollfds := set_revents (pollRevents rd s) (pollfds s)\<rparr>"

definition round_ok :: "round_input \<Rightarrow> server \<Rightarrow> bool" where
  "round_ok rd s \<longleftrightarrow> poll_ok (pollRevents rd s) s \<and> answers_ok (passes rd)"

lemma polling_ready [simp]: "ready (polling rd s) = polled rd s"
  by (simp add: polling_def ready_polled)

lemma polling_fields [simp]: "serverFd (polling rd s) = serverFd s"
  by (simp add: polling_def)

lemma poll_round_serves:
  assumes ok: "srv_ok s" and rd: "round_ok rd s" and go: "pollfds s \<noteq> []" "0 \<le> pollResult rd"
    and N: "\<And>k i s. loop_ok s \<Longrightarrow> i < length (pollfds s) \<Longrightarrow> N \<le> bytesSent (passes rd k i s)"
    and F: "F \<longrightarrow> 0 \<le> N \<and> quiet (polling rd s)"
  obtains t es ends where "served (serverFd s) N (polled rd s) es ends" "runs F s (Poll # es) t" "srv_ok t"
    "serverFd t = serverFd s" "ends \<or> \<not> F \<and> overruns (passes rd) 0 0 (polling rd s)"
    "poll_round rd s = (if ends then Some (Inr t) else None)"
proof -
  have start: "loop_ok (polling rd s)" and os: "answers_ok (passes rd)"
    using rd set_revents_ok [OF ok, of "pollRevents rd s"] by (simp_all add: round_ok_def polling_def)
  obtain t es ends where t: "served (serverFd s) N (polled rd s) es ends" "runs F (polling rd s) es t" "loop_ok t"
      "serverFd t = serverFd s" "ends \<or> \<not> F \<and> overruns (passes rd) 0 0 (polling rd s)"
      "poll_for (passes rd) 0 0 (polling rd s) = (if ends then Some t else None)"
    using poll_for_serves [OF start os N F, of 0 0] by auto
  have "server_step s Poll (polling rd s)" unfolding polling_def by (rule step_poll)
  then have "runs F s ([Poll] @ es) t" using runs_trans [OF t(2) runs_server [OF run_step]] by blast
  moreover have "poll_round rd s = (if ends then Some (Inr t) else None)"
    using go t(6) by (simp add: poll_round_def polling_def)
  ultimately show ?thesis using that t by (simp add: loop_ok_def)
qed

lemma round_trace:
  assumes ok: "srv_ok s" and rd: "round_ok rd s" and go: "pollfds s \<noteq> []" "0 \<le> pollResult rd"
  obtains t es ends where "served (serverFd s) (-1) (polled rd s) es ends" "loop_run s (Poll # es) t" "srv_ok t"
    "serverFd t = serverFd s" "ends \<longleftrightarrow> \<not> overruns (passes rd) 0 0 (polling rd s)"
    "poll_round rd s = (if ends then Some (Inr t) else None)"
proof -
  have os: "answers_ok (passes rd)" and start: "loop_ok (polling rd s)"
    using rd set_revents_ok [OF ok, of "pollRevents rd s"] by (simp_all add: round_ok_def polling_def)
  have N: "-1 \<le> bytesSent (passes rd k i t)" if "loop_ok t" "i < length (pollfds t)" for k i t
    using os that by (simp add: answers_ok_def os_ok_def)
  obtain t es ends where t: "served (serverFd s) (-1) (polled rd s) es ends" "loop_run s (Poll # es) t" "srv_ok t"
      "serverFd t = serverFd s" "ends \<or> overruns (passes rd) 0 0 (polling rd s)"
      "poll_round rd s = (if ends then Some (Inr t) else None)"
    by (rule poll_round_serves [OF ok rd go N, of False]) (auto simp: runs_def)
  moreover have "poll_round rd s = None" if "overruns (passes rd) 0 0 (polling rd s)"
    using overruns_undefined [OF os start that] go by (simp add: poll_round_def polling_def)
  ultimately show ?thesis using that [of es ends t] by (metis option.distinct(1))
qed

text \<open>When a round, and a sequence of rounds, is undefined, in terms of what the system answered.\<close>

lemma poll_round_undefined:
  assumes "srv_ok s" and "round_ok rd s"
  shows "poll_round rd s = None \<longleftrightarrow>
    pollfds s = [] \<or> 0 \<le> pollResult rd \<and> overruns (passes rd) 0 0 (polling rd s)"
proof (cases "pollfds s = [] \<or> pollResult rd < 0")
  case False
  then have go: "pollfds s \<noteq> []" "0 \<le> pollResult rd" by simp_all
  show ?thesis by (rule round_trace [OF assms go]) (use go in simp)
qed (auto simp: poll_round_def)

primrec undefined_in :: "round_input list \<Rightarrow> server \<Rightarrow> bool" where
  "undefined_in [] s = False"
| "undefined_in (rd # rds) s =
     (pollfds s = []
      \<or> 0 \<le> pollResult rd \<and> overruns (passes rd) 0 0 (polling rd s)
      \<or> (case poll_round rd s of Some (Inr t) \<Rightarrow> undefined_in rds t | _ \<Rightarrow> False))"

lemma overruns_fails: "overruns os k i s \<Longrightarrow> \<exists>k i s. bytesSent (os k i s) < 0"
  by (auto simp: overruns_def send_breaks_def Let_def)

text \<open>The listening socket is closed exactly if \<open>poll\<close> reported an error on it.\<close>

lemma loop_listening:
  "loop_run s es s' \<Longrightarrow> srv_ok s \<Longrightarrow> listening s' \<longleftrightarrow> listening s \<and> Close (serverFd s) \<notin> set es"
proof (induction rule: loop_run.induct)
  case (loop_step s es s1 e s2)
  then have "srv_ok s1" "serverFd s1 = serverFd s" using loop_run_ok by blast+
  with loop_step step_listening [OF loop_step(2)] show ?case
    by (auto simp: conns_def elim: server_stepE)
next
  case (loop_again s es fd s1 s2)
  then have "srv_ok s1" "serverFd s1 = serverFd s" using loop_run_ok by blast+
  with loop_again close_ok [OF _ loop_again(4)] show ?case by (auto simp: listening_def)
next
  case (loop_hangup s es s1 s2)
  then have "srv_ok s1" "serverFd s1 = serverFd s" using loop_run_ok by blast+
  with loop_hangup close_ok [OF _ loop_hangup(3)] show ?case by (auto simp: listening_def)
qed simp

lemma serves_listener: "serves l N x es \<Longrightarrow> Close l \<in> set es \<longleftrightarrow> fst x = l \<and> erring (snd x)"
  by (cases x) (auto simp: serves_def incoming_def outgoing_def split: if_splits)

lemma fails_listener: "send_fails l N x es \<Longrightarrow> fst x = l \<or> Close l \<notin> set es"
  by (cases x) (auto simp: send_fails_def incoming_def split: if_splits)

lemma news_idle: "(l, r) \<in> set (news es) \<Longrightarrow> \<not> erring r"
  by (auto simp: news_def split: event.splits)

lemma served_listener:
  "served l N q es ends \<Longrightarrow> ends \<Longrightarrow> \<forall>r. (l, r) \<in> set q \<longrightarrow> r AND POLLOUT = 0 \<Longrightarrow>
    Close l \<in> set es \<longleftrightarrow> (\<exists>r. (l, r) \<in> set q \<and> erring r)"
proof (induction rule: served.induct)
  case (served_entry x es xs fs ends)
  have "\<forall>r. (l, r) \<in> set (xs @ news es) \<longrightarrow> r AND POLLOUT = 0"
    using served_entry.prems(2) by (auto simp: news_def split: event.splits)
  then have "Close l \<in> set fs \<longleftrightarrow> (\<exists>r. (l, r) \<in> set xs \<and> erring r)"
    using served_entry.IH served_entry.prems(1) news_idle [of l _ es] by auto
  with serves_listener [OF served_entry.hyps(1)] show ?case by (cases x) auto
next
  case (served_over x es y xs fs ends)
  moreover have "fst x \<noteq> l"
    using served_over.prems(2) served_over.hyps(1) by (cases x) (auto simp: send_fails_def)
  ultimately show ?case using fails_listener [OF served_over.hyps(1)] by (cases x; cases y) auto
next
  case (served_again x es y xs fs ends)
  moreover have "fst x \<noteq> l"
    using served_again.prems(2) served_again.hyps(1) by (cases x) (auto simp: send_fails_def)
  ultimately show ?case using fails_listener [OF served_again.hyps(1)] by (cases x; cases y) auto
qed simp_all

lemma polled_listener:
  assumes "srv_ok s" and "round_ok rd s" and "(serverFd s, r) \<in> set (polled rd s)"
  shows "r AND POLLOUT = 0"
proof -
  have "loop_ok (polling rd s)"
    using assms(1,2) set_revents_ok by (simp add: round_ok_def polling_def)
  with assms(3) show ?thesis by (auto simp: loop_ok_def ready_ok_def)
qed

subsection \<open>Rounds\<close>

text \<open>
  What a sequence of rounds does, and how it ends: by the signal flag, by a failing \<open>poll\<close>, or with
  undefined behaviour. The last is a failed \<open>send\<close> for the last entry, or a \<open>_pollfds\<close> without
  entries, which the loop gets when the listening socket and every connection have been closed.
\<close>

datatype outcome = Running | Poll_failed | Undefined

inductive rounds :: "server \<Rightarrow> round_input list \<Rightarrow> event list \<Rightarrow> server \<Rightarrow> outcome \<Rightarrow> bool" where
  rounds_end: "rounds s [] [] s Running"
| rounds_empty: "pollfds s = [] \<Longrightarrow> rounds s (rd # rds) [] s Undefined"
| rounds_failed: "pollfds s \<noteq> [] \<Longrightarrow> pollResult rd < 0 \<Longrightarrow> rounds s (rd # rds) [] s Poll_failed"
| rounds_wrong: "pollfds s \<noteq> [] \<Longrightarrow> 0 \<le> pollResult rd \<Longrightarrow> overruns (passes rd) 0 0 (polling rd s)
    \<Longrightarrow> served (serverFd s) (-1) (polled rd s) es False \<Longrightarrow> loop_run s (Poll # es) t
    \<Longrightarrow> rounds s (rd # rds) (Poll # es) t Undefined"
| rounds_next: "pollfds s \<noteq> [] \<Longrightarrow> 0 \<le> pollResult rd \<Longrightarrow> \<not> overruns (passes rd) 0 0 (polling rd s)
    \<Longrightarrow> served (serverFd s) (-1) (polled rd s) es True \<Longrightarrow> loop_run s (Poll # es) t
    \<Longrightarrow> rounds t rds fs u out \<Longrightarrow> rounds s (rd # rds) ((Poll # es) @ fs) u out"

text \<open>The value of \<open>ircLoop\<close> for an outcome and the state at the end.\<close>

definition result_of :: "outcome \<Rightarrow> server \<Rightarrow> ((string \<times> server) + server) option" where
  "result_of out s =
     (case out of Running \<Rightarrow> Some (Inr s) | Poll_failed \<Rightarrow> Some (Inl (''Poll failed.'', s)) | Undefined \<Rightarrow> None)"

definition env_ok :: "round_input list \<Rightarrow> bool" where
  "env_ok rds \<longleftrightarrow> (\<forall>rd \<in> set rds. \<forall>s. srv_ok s \<longrightarrow> round_ok rd s)"

lemma rounds_run: "rounds s rds es t out \<Longrightarrow> loop_run s es t"
proof (induction rule: rounds.induct)
  case (rounds_next s rd es t rds fs u out)
  then show ?case by (blast intro: loop_trans)
qed (simp_all add: loop_nil)

lemma rounds_poll:
  "rounds s rds es t out \<Longrightarrow> out \<noteq> Undefined \<Longrightarrow> out = Poll_failed \<longleftrightarrow> (\<exists>rd \<in> set rds. pollResult rd < 0)"
  by (induction rule: rounds.induct) auto

text \<open>\<open>ircLoop\<close> does what the relation says, from every well-formed state.\<close>

lemma ircLoop_rounds:
  assumes "srv_ok s" and "env_ok rds"
  obtains es t out where "rounds s rds es t out" "ircLoop rds s = result_of out t" "srv_ok t" "serverFd t = serverFd s"
proof -
  have "\<exists>es t out. rounds s rds es t out \<and> ircLoop rds s = result_of out t \<and> srv_ok t \<and> serverFd t = serverFd s"
    using assms
  proof (induction rds arbitrary: s)
    case Nil
    then show ?case using rounds_end by (fastforce simp: result_of_def)
  next
    case (Cons rd rds)
    have rd: "round_ok rd s" and rds: "env_ok rds" using Cons.prems by (simp_all add: env_ok_def)
    consider (empty) "pollfds s = []" | (failed) "pollfds s \<noteq> []" "pollResult rd < 0"
      | (go) "pollfds s \<noteq> []" "0 \<le> pollResult rd" by linarith
    then show ?case
    proof cases
      case empty
      with rounds_empty [OF empty] Cons.prems(1) show ?thesis by (fastforce simp: poll_round_def result_of_def)
    next
      case failed
      with rounds_failed [OF failed] Cons.prems(1) show ?thesis by (fastforce simp: poll_round_def result_of_def)
    next
      case go
      obtain t es ends where t: "served (serverFd s) (-1) (polled rd s) es ends" "loop_run s (Poll # es) t"
          "srv_ok t" "serverFd t = serverFd s" "ends \<longleftrightarrow> \<not> overruns (passes rd) 0 0 (polling rd s)"
          "poll_round rd s = (if ends then Some (Inr t) else None)"
        by (rule round_trace [OF Cons.prems(1) rd go])
      show ?thesis
      proof (cases ends)
        case False
        with rounds_wrong [OF go _ _ t(2)] t show ?thesis by (fastforce simp: result_of_def)
      next
        case True
        obtain fs u out where "rounds t rds fs u out" "ircLoop rds t = result_of out u" "srv_ok u" "serverFd u = serverFd t"
          using Cons.IH [OF t(3) rds] by blast
        with rounds_next [OF go _ _ t(2)] t True show ?thesis by fastforce
      qed
    qed
  qed
  with that show ?thesis by blast
qed

lemma ircLoop_undefined:
  assumes "srv_ok s" and "env_ok rds"
  shows "ircLoop rds s = None \<longleftrightarrow> undefined_in rds s"
  using assms
proof (induction rds arbitrary: s)
  case (Cons rd rds)
  have rd: "round_ok rd s" and rds: "env_ok rds" using Cons.prems by (simp_all add: env_ok_def)
  note undef = poll_round_undefined [OF Cons.prems(1) rd]
  show ?case
  proof (cases "pollfds s = [] \<or> pollResult rd < 0")
    case True
    then show ?thesis by (auto simp: poll_round_def)
  next
    case False
    then have go: "pollfds s \<noteq> []" "0 \<le> pollResult rd" by simp_all
    obtain t ends where "srv_ok t" "poll_round rd s = (if ends then Some (Inr t) else None)"
      by (rule round_trace [OF Cons.prems(1) rd go])
    with Cons.IH [of t] rds undef go show ?thesis by (cases ends) simp_all
  qed
qed simp

subsection \<open>A failing send\<close>

text \<open>
  \<open>sendData\<close> disconnects when \<open>send\<close> fails, but \<open>ircLoop\<close> does not notice: \<open>disconnected\<close> stays
  false, and \<open>_pollfds[i]\<close> is by then the next entry, or past the end.
\<close>

lemma pollfds_disconnected:
  assumes ok: "srv_ok srv" and i: "i < length (pollfds srv)"
  obtains srv' where "disconnectClient (pfFd (pollfds srv ! i)) srv = Some srv'" "srv_core srv'"
    "pollfds srv' = take i (pollfds srv) @ drop (Suc i) (pollfds srv)"
    "closedFds srv' = closedFds srv @ [pfFd (pollfds srv ! i)]"
proof -
  have core: "srv_core srv" using ok by (simp add: srv_ok_def)
  obtain srv' where s': "disconnectClient (pfFd (pollfds srv ! i)) srv = Some srv'" "srv_core srv'"
      "pollfds srv' = filter (\<lambda>pf. pfFd pf \<noteq> pfFd (pollfds srv ! i)) (pollfds srv)"
      "closedFds srv' = closedFds srv @ [pfFd (pollfds srv ! i)]"
    by (rule disconnectClient_core [OF core])
  have "distinct (map pfFd (pollfds srv))" using srv_coreD(4) [OF core] by (simp add: fds_def)
  from that [OF s'(1,2)] s'(3,4) filter_other [OF this i] show ?thesis by simp
qed

lemma poll_pass_failed_send:
  assumes ok: "srv_ok srv" and i: "i < length (pollfds srv)"
    and fd: "pfFd (pollfds srv ! i) = fd" "fd \<in> conns srv" "buf_at (sendBuffers srv) fd \<noteq> ''''"
    and re: "revents (pollfds srv ! i) AND POLLIN = 0" "revents (pollfds srv ! i) AND POLLOUT \<noteq> 0"
    and n: "bytesSent inp < 0" and s: "disconnectClient fd srv = Some s"
  shows "poll_pass inp i srv =
    do {
      re \<leftarrow> revents_at s i;
      if re AND (POLLERR OR POLLHUP OR POLLNVAL) \<noteq> 0
      then do { s' \<leftarrow> disconnectClient fd s; Some (i, s') } else Some (Suc i, s)
    }"
proof -
  have core: "srv_core srv" using ok by (simp add: srv_ok_def)
  have "sendData fd (bytesSent inp) srv = Some s" using sendData_fails [OF core fd(2) n fd(3)] s by simp
  moreover have "revents_at srv i = Some (revents (pollfds srv ! i))" using i by (simp add: revents_at_def)
  ultimately show ?thesis
    using fd(1) re by (cases "revents_at s i") (simp_all add: poll_pass_def pass_in_def pass_out_def Let_def split: Option.bind_splits)
qed

lemma failed_send_result:
  assumes ok: "srv_ok srv" and i: "i < length (pollfds srv)"
    and fd: "pfFd (pollfds srv ! i) = fd" "fd \<in> conns srv" "buf_at (sendBuffers srv) fd \<noteq> ''''"
    and re: "revents (pollfds srv ! i) AND POLLIN = 0" "revents (pollfds srv ! i) AND POLLOUT \<noteq> 0"
    and n: "bytesSent inp < 0"
  shows "if Suc i = length (pollfds srv) then poll_pass inp i srv = None
    else if revents (pollfds srv ! Suc i) AND (POLLERR OR POLLHUP OR POLLNVAL) \<noteq> 0
    then \<exists>s. poll_pass inp i srv = Some (i, s) \<and> closedFds s = closedFds srv @ [fd, fd]
    else \<exists>s. poll_pass inp i srv = Some (Suc i, s) \<and> closedFds s = closedFds srv @ [fd]
      \<and> pollfds s ! i = pollfds srv ! Suc i"
proof -
  obtain s where s: "disconnectClient fd srv = Some s" "srv_core s"
      "pollfds s = take i (pollfds srv) @ drop (Suc i) (pollfds srv)" "closedFds s = closedFds srv @ [fd]"
    by (rule pollfds_disconnected [OF ok i, unfolded fd(1)])
  obtain s' where s': "disconnectClient fd s = Some s'" "closedFds s' = closedFds s @ [fd]"
    by (rule disconnectClient_core [OF s(2)])
  have at: "pollfds s ! i = pollfds srv ! Suc i" using i s(3) by (simp add: nth_append)
  have "revents_at s i = (if Suc i < length (pollfds srv) then Some (revents (pollfds srv ! Suc i)) else None)"
    using i s(3) at by (auto simp: revents_at_def)
  with poll_pass_failed_send [OF ok i fd re n s(1)] s(4) s' at i show ?thesis by auto
qed

subsection \<open>A sample environment\<close>

text \<open>
  For the witnesses: everybody is ready for what it asked for, connection 9 is accepted when it is
  not open, every client sends \<open>PING x\<close>, and \<open>send\<close> takes one byte at a time.
\<close>

definition sample_os :: "nat \<Rightarrow> nat \<Rightarrow> server \<Rightarrow> pass_input" where
  "sample_os k i s = \<lparr>accepted = (if 9 \<in> set (fds s) \<or> serverFd s = 9 then -1 else 9),
     newClient = (if deref (serverState s) 40 = None then Some 40 else None),
     received = Received (''PING x'' @ [CR, LF]), bytesSent = 1, allocs = \<lambda>i j. True\<rparr>"

definition sample_round :: round_input where
  "sample_round = \<lparr>pollResult = 1, pollRevents = (\<lambda>s i. events (pollfds s ! i) AND (POLLIN OR POLLOUT)), passes = sample_os\<rparr>"

lemma answers_sample: "answers_ok sample_os"
  by (simp add: answers_ok_def sample_os_def os_ok_def fresh_def)

lemma poll_sample: "(e AND (POLLIN OR POLLOUT)) AND POLLOUT = e AND POLLOUT"
  "(e AND (POLLIN OR POLLOUT)) AND (POLLERR OR POLLHUP OR POLLNVAL) = 0" for e :: short
  by (simp_all add: and.assoc) (simp_all add: POLLIN_def POLLOUT_def POLLERR_def POLLHUP_def POLLNVAL_def)

lemma round_ok_sample: "round_ok sample_round s"
  using answers_sample by (simp add: round_ok_def sample_round_def poll_ok_def poll_sample)

lemma sample_env: "env_ok [sample_round, sample_round]"
  by (simp add: env_ok_def round_ok_sample)

subsection \<open>Properties of the loop\<close>

text \<open>
  C10. A round returns, and exactly when it does not. From any well-formed state, with system calls
  that do what they document, one iteration of \<open>ircLoop\<close> is undefined if and only if there is nothing
  to poll or some pass is reached in which \<open>send\<close> fails for the entry that is the last of \<open>_pollfds\<close>
  then. In every other case it ends, although entries are added and removed under its \<open>for\<close> loop: if
  \<open>poll\<close> failed, \<open>Poll failed.\<close> is thrown with the state as it was; otherwise the state is well formed
  again, and the server still listens unless \<open>poll\<close> reported an error on the listening socket.
\<close>

theorem poll_round_returns:
  assumes "srv_ok srv" and "round_ok rd srv"
  shows "(poll_round rd srv = None \<longleftrightarrow>
      pollfds srv = [] \<or> 0 \<le> pollResult rd \<and> overruns (passes rd) 0 0 (polling rd srv))
    \<and> (pollfds srv \<noteq> [] \<and> pollResult rd < 0 \<longrightarrow> poll_round rd srv = Some (Inl (''Poll failed.'', srv)))
    \<and> (\<forall>srv'. poll_round rd srv = Some (Inr srv') \<longrightarrow> srv_ok srv'
        \<and> (listening srv' \<longleftrightarrow> listening srv \<and> \<not> (\<exists>r. (serverFd srv, r) \<in> set (polled rd srv) \<and> erring r)))"
proof -
  have "srv_ok srv' \<and> (listening srv' \<longleftrightarrow> listening srv \<and> \<not> (\<exists>r. (serverFd srv, r) \<in> set (polled rd srv) \<and> erring r))"
    if result: "poll_round rd srv = Some (Inr srv')" for srv'
  proof -
    have go: "pollfds srv \<noteq> []" "0 \<le> pollResult rd"
      using result by (auto simp: poll_round_def split: if_splits)
    obtain t es ends where t: "served (serverFd srv) (-1) (polled rd srv) es ends" "loop_run srv (Poll # es) t"
        "srv_ok t" "poll_round rd srv = (if ends then Some (Inr t) else None)"
      by (rule round_trace [OF assms go])
    with result have ends "t = srv'" by (auto split: if_splits)
    with t(3) served_listener [OF t(1)] polled_listener [OF assms] loop_listening [OF t(2) assms(1)] show ?thesis
      by auto
  qed
  with poll_round_undefined [OF assms] show ?thesis by (simp add: poll_round_def)
qed

text \<open>
  C16. A failing \<open>send\<close> is not handled. When \<open>send\<close> fails for a connection with pending output that
  is only ready for writing, the connection is closed, but the pass goes on as if it were not: if
  its entry was the last, \<open>_pollfds\<close> is read past its end; otherwise the flags of the next entry
  are taken for its own, so that either the descriptor is closed a second time or the next entry is
  skipped in this round.
\<close>

theorem failed_send_unnoticed:
  assumes "srv_ok srv" and "i < length (pollfds srv)"
    and "pfFd (pollfds srv ! i) = fd" "fd \<in> conns srv" "buf_at (sendBuffers srv) fd \<noteq> ''''"
    and "revents (pollfds srv ! i) AND POLLIN = 0" "revents (pollfds srv ! i) AND POLLOUT \<noteq> 0"
    and "bytesSent inp < 0"
  shows "if Suc i = length (pollfds srv) then poll_pass inp i srv = None
    else if revents (pollfds srv ! Suc i) AND (POLLERR OR POLLHUP OR POLLNVAL) \<noteq> 0
    then \<exists>s. poll_pass inp i srv = Some (i, s) \<and> closedFds s = closedFds srv @ [fd, fd]
    else \<exists>s. poll_pass inp i srv = Some (Suc i, s) \<and> closedFds s = closedFds srv @ [fd]
      \<and> pollfds s ! i = pollfds srv ! Suc i"
  using assms by (rule failed_send_result)


theorem poll_round_returns_witness:
  "\<exists>srv'. poll_round sample_round sample_server = Some (Inr srv') \<and> srv_ok srv' \<and> listening srv'"
proof -
  have "\<not> overruns sample_os 0 0 (polling sample_round sample_server)"
    using overruns_fails by (fastforce simp: sample_os_def)
  moreover have go: "pollfds sample_server \<noteq> []" "0 \<le> pollResult sample_round" "passes sample_round = sample_os"
    by (simp_all add: sample_server_def sample_round_def)
  ultimately have "poll_round sample_round sample_server \<noteq> None"
    using poll_round_returns [OF srv_ok_sample round_ok_sample] by simp
  moreover have "\<not> erring r" if "(f, r) \<in> set (polled sample_round sample_server)" for f r
    using that poll_sample by (auto simp: polled_def sample_round_def)
  ultimately show ?thesis
    using poll_round_returns [OF srv_ok_sample round_ok_sample] listening_sample go(2)
    by (auto simp: poll_round_def split: if_splits Option.bind_splits)
qed

theorem failed_send_unnoticed_witness:
  "poll_pass ((sample_os 0 0 sample_server)\<lparr>bytesSent := -1\<rparr>) 2
      ((queueResponse 5 ''x'' sample_server)\<lparr>pollfds := set_revents (\<lambda>i. if i = 2 then POLLOUT else 0)
         (pollfds (queueResponse 5 ''x'' sample_server))\<rparr>) = None"
proof -
  let ?q = "queueResponse 5 ''x'' sample_server" and ?f = "\<lambda>i::nat. if i = 2 then POLLOUT else 0"
  let ?s = "?q\<lparr>pollfds := set_revents ?f (pollfds ?q)\<rparr>"
  have polls: "pollfds ?q = [\<lparr>pfFd = 3, events = POLLIN, revents = 0\<rparr>,
      \<lparr>pfFd = 4, events = POLLIN OR POLLOUT, revents = 0\<rparr>, \<lparr>pfFd = 5, events = POLLIN OR POLLOUT, revents = 0\<rparr>]"
    by (simp add: queueResponse_def sample_server_def raise_flag_def)
  have ok: "srv_ok ?q"
    using srv_ok_sample queueResponse_core [of sample_server 5 "''x''"] by (simp add: srv_ok_def)
  have "poll_ok ?f ?q"
    by (simp add: poll_ok_def polls flag_ops less_Suc_eq numeral_3_eq_3 numeral_2_eq_2)
  then have "srv_ok ?s" using set_revents_ok [OF ok] by (simp add: loop_ok_def)
  moreover have "conns ?s = conns ?q" by (simp add: conns_def fds_def)
  moreover have "buf_at (sendBuffers ?s) 5 = ''x''" by (simp add: queueResponse_def)
  moreover have "pollfds ?s ! 2 = \<lparr>pfFd = 5, events = POLLIN OR POLLOUT, revents = POLLOUT\<rparr>"
      "length (pollfds ?s) = 3"
    by (simp_all add: set_revents_nth polls)
  ultimately show ?thesis
    using failed_send_unnoticed [of ?s 2 5 "(sample_os 0 0 sample_server)\<lparr>bytesSent := -1\<rparr>"]
    by (simp add: and.commute [of POLLOUT])
qed


end
