(* ===== verification/Fairness.thy ===== *)
theory Fairness
  imports Delivery Server_Rounds
begin

section \<open>The loop serves everybody\<close>

text \<open>
  Fairness of \<open>ircLoop\<close>. A round visits every entry that \<open>poll\<close> was asked about, in the order of
  \<open>_pollfds\<close> and exactly once, although the vector shrinks and grows under the loop; so what is queued
  for a connection is sent after a number of rounds bounded by its length.
\<close>

lemma run_conns:
  "server_run s es s' \<Longrightarrow> srv_ok s \<Longrightarrow> Close fd \<notin> set es \<Longrightarrow> fd \<in> conns s \<Longrightarrow> fd \<in> conns s'"
proof (induction rule: server_run.induct)
  case (run_snoc s es s1 e s2)
  then show ?case
    using step_facts [OF run_snoc(2)] run_ok [OF run_snoc(1,4)]
    by (auto simp: conns_def split: event.splits)
qed

text \<open>\<open>poll\<close> reports \<open>POLLOUT\<close> for every entry that asks for it: the peers read.\<close>

definition writable :: "round_input \<Rightarrow> bool" where
  "writable rd \<longleftrightarrow> (\<forall>s. \<forall>i < length (pollfds s).
     events (pollfds s ! i) AND POLLOUT \<noteq> 0 \<longrightarrow> pollRevents rd s i AND POLLOUT \<noteq> 0)"

text \<open>Rounds in which \<open>send\<close> always takes something, and \<open>poll\<close> reports no error on the listener.\<close>

definition sends_some :: "round_input \<Rightarrow> bool" where
  "sends_some rd \<longleftrightarrow> (\<forall>k i s. 0 < bytesSent (passes rd k i s))"

definition listener_fine :: "round_input \<Rightarrow> bool" where
  "listener_fine rd \<longleftrightarrow> (\<forall>s. \<forall>i < length (pollfds s). pfFd (pollfds s ! i) = serverFd s \<longrightarrow> \<not> erring (pollRevents rd s i))"

definition drains :: "round_input \<Rightarrow> bool" where
  "drains rd \<longleftrightarrow> 0 \<le> pollResult rd \<and> sends_some rd \<and> writable rd \<and> listener_fine rd"

lemma fine_quiet: "listener_fine rd \<Longrightarrow> quiet (polling rd s)"
  by (auto simp: listener_fine_def quiet_def polled_def in_set_enumerate_eq)

lemma run_listening: "server_run s es s' \<Longrightarrow> srv_ok s \<Longrightarrow> listening s \<Longrightarrow> listening s'"
  by (induction rule: server_run.induct) (use run_ok step_listening in blast)+

lemma served_member:
  "served l N q es ends \<Longrightarrow> 0 \<le> N \<Longrightarrow> x \<in> set q \<Longrightarrow> \<exists>fs. serves l N x fs \<and> set fs \<subseteq> set es"
proof (induction rule: served.induct)
  case (served_entry y fs ys gs ends)
  then show ?case
  proof (cases "x = y")
    case True
    with served_entry(1) show ?thesis by (intro exI [of _ fs]) simp
  qed auto
qed (simp_all add: send_fails_def)

lemma polled_writable:
  assumes core: "srv_core s" and fd: "fd \<in> conns s" and queued: "buf_at (sendBuffers s) fd \<noteq> ''''"
    and rd: "writable rd"
  obtains r where "(fd, r) \<in> set (polled rd s)" "r AND POLLOUT \<noteq> 0"
proof -
  obtain i where i: "i < length (pollfds s)" "pfFd (pollfds s ! i) = fd"
    using fd by (auto simp: conns_def fds_def in_set_conv_nth)
  have "events (pollfds s ! i) AND POLLOUT \<noteq> 0"
    using srv_coreD(8) [OF core nth_mem [OF i(1)]] i(2) queued by (simp add: flags_ok_def)
  then have "pollRevents rd s i AND POLLOUT \<noteq> 0" using rd i(1) unfolding writable_def by blast
  moreover have "(fd, pollRevents rd s i) \<in> set (polled rd s)"
    using i by (auto simp: polled_def in_set_enumerate_eq image_iff intro!: bexI [of _ "(i, pollfds s ! i)"])
  ultimately show ?thesis by (rule that [rotated])
qed

lemma taken_member: "e \<in> set es \<Longrightarrow> taken_by fd e \<le> taken fd es"
  unfolding taken_def by (intro member_le_sum_list) auto

text \<open>A round takes at least one byte of a queue that is not empty, or closes the connection.\<close>

lemma round_progress:
  assumes ok: "srv_ok s" "listening s" and rd: "round_ok rd s" "drains rd"
  obtains s' es where "poll_round rd s = Some (Inr s')" "srv_ok s'" "listening s'" "server_run s es s'"
    "\<forall>fd \<in> conns s. Close fd \<notin> set es \<longrightarrow>
      fd \<in> conns s' \<and> min (length (out_stream fd s)) (length (sent fd s) + 1) \<le> length (sent fd s')"
proof -
  have n: "1 \<le> bytesSent (passes rd k i t)" for k i t
    using rd(2) unfolding drains_def sends_some_def by (metis int_one_le_iff_zero_less)
  have go: "0 \<le> pollResult rd" "pollfds s \<noteq> []" and w: "writable rd" and F: "True \<longrightarrow> (0::int) \<le> 1 \<and> quiet (polling rd s)"
    using rd(2) ok(2) fine_quiet by (auto simp: drains_def listening_def fds_def)
  obtain s' es where s': "poll_round rd s = Some (Inr s')" "srv_ok s'" "listening s'"
      "server_run s (Poll # es) s'" "served (serverFd s) 1 (polled rd s) es True"
    by (rule poll_round_serves [OF ok(1) rd(1) go(2,1) n F]) (auto simp: runs_def dest: run_listening [OF _ ok])
  have "min (length (out_stream fd s)) (length (sent fd s) + 1) \<le> length (sent fd s')"
    if fd: "fd \<in> conns s" and alive: "Close fd \<notin> set (Poll # es)" for fd
  proof (cases "buf_at (sendBuffers s) fd = ''''")
    case True
    then show ?thesis using run_sent [OF s'(4) ok(1) alive] by (simp add: out_stream_def)
  next
    case False
    have core: "srv_core s" using ok by (simp add: srv_ok_def)
    obtain r where r: "(fd, r) \<in> set (polled rd s)" "r AND POLLOUT \<noteq> 0"
      by (rule polled_writable [OF core fd False w])
    obtain fs where fs: "serves (serverFd s) 1 (fd, r) fs" "set fs \<subseteq> set es"
      using served_member [OF s'(5) _ r(1)] by auto
    obtain k where k: "Send fd k \<in> set fs" "1 \<le> k"
      using fs alive fd r(2) by (auto simp: serves_def incoming_def outgoing_def conns_def split: if_splits)
    have "taken_by fd (Send fd k) \<le> taken fd (Poll # es)"
      using k(1) fs(2) by (intro taken_member) auto
    then have "1 \<le> taken fd (Poll # es)" using k(2) by simp
    with run_sent [OF s'(4) ok(1) alive] show ?thesis by simp
  qed
  with that [OF s'(1,2,3,4)] run_conns [OF s'(4) ok(1)] show ?thesis by blast
qed

lemma loop_progress:
  assumes "srv_ok s" and "listening s" and "env_ok rds" and "\<forall>rd \<in> set rds. drains rd"
  shows "\<exists>s' es. ircLoop rds s = Some (Inr s') \<and> server_run s es s'
    \<and> (fd \<in> conns s \<and> Close fd \<notin> set es \<longrightarrow>
        min (length (out_stream fd s)) (length (sent fd s) + length rds) \<le> length (sent fd s'))"
  using assms
proof (induction rds arbitrary: s)
  case Nil
  then show ?case using run_nil by auto
next
  case (Cons rd rds)
  have rd: "round_ok rd s" "drains rd" and rds: "env_ok rds" "\<forall>rd \<in> set rds. drains rd"
    using Cons.prems by (simp_all add: env_ok_def)
  obtain s1 es where s1: "poll_round rd s = Some (Inr s1)" "srv_ok s1" "listening s1" "server_run s es s1"
      "\<forall>fd \<in> conns s. Close fd \<notin> set es \<longrightarrow>
        fd \<in> conns s1 \<and> min (length (out_stream fd s)) (length (sent fd s) + 1) \<le> length (sent fd s1)"
    by (rule round_progress [OF Cons.prems(1,2) rd])
  obtain s' fs where s': "ircLoop rds s1 = Some (Inr s')" "server_run s1 fs s'"
      "fd \<in> conns s1 \<and> Close fd \<notin> set fs \<longrightarrow>
        min (length (out_stream fd s1)) (length (sent fd s1) + length rds) \<le> length (sent fd s')"
    using Cons.IH [OF s1(2,3) rds] by blast
  have "min (length (out_stream fd s)) (length (sent fd s) + length (rd # rds)) \<le> length (sent fd s')"
    if fd: "fd \<in> conns s" and alive: "Close fd \<notin> set (es @ fs)"
  proof -
    have "length (out_stream fd s) \<le> length (out_stream fd s1)"
      using run_stream [OF s1(4) Cons.prems(1)] alive by (auto dest: prefix_length_le)
    with bspec [OF s1(5) fd] s'(3) alive show ?thesis by auto
  qed
  with s1(1) s'(1) run_trans [OF s'(2) s1(4)] show ?case by (intro exI [of _ s'] exI [of _ "es @ fs"]) auto
qed


text \<open>
  C12. Queued output is sent in boundedly many rounds. If \<open>poll\<close> reports the connections that can be
  written to (and no error on the listening socket) and \<open>send\<close> then takes at least a byte, as many
  rounds of \<open>ircLoop\<close> as bytes are queued for a connection are enough to send all of them in order,
  whatever everybody else does in these rounds, unless the connection is closed.
\<close>

theorem queue_drained:
  assumes ok: "srv_ok s" "listening s" and env: "env_ok rds" "\<forall>rd \<in> set rds. drains rd"
    and fd: "fd \<in> conns s" and enough: "length (buf_at (sendBuffers s) fd) \<le> length rds"
  shows "\<exists>s' es. ircLoop rds s = Some (Inr s') \<and> server_run s es s'
    \<and> (Close fd \<in> set es \<or> prefix (out_stream fd s) (sent fd s'))"
proof -
  obtain s' es where s': "ircLoop rds s = Some (Inr s')" "server_run s es s'"
      "fd \<in> conns s \<and> Close fd \<notin> set es \<longrightarrow>
        min (length (out_stream fd s)) (length (sent fd s) + length rds) \<le> length (sent fd s')"
    using loop_progress [OF ok env] by blast
  have "prefix (out_stream fd s) (sent fd s')" if alive: "Close fd \<notin> set es"
  proof -
    have "length (out_stream fd s) \<le> length (sent fd s')"
      using s'(3) fd alive enough by (simp add: out_stream_def)
    then show ?thesis
      using prefix_length_prefix [OF run_stream [OF s'(2) ok(1) alive] sent_prefix] by simp
  qed
  with s' show ?thesis by blast
qed

lemma drains_sample: "drains sample_round"
  by (simp add: drains_def sends_some_def writable_def listener_fine_def sample_round_def sample_os_def poll_sample)


theorem queue_drained_witness:
  "\<exists>s' es. ircLoop [sample_round, sample_round] sample_server = Some (Inr s') \<and> server_run sample_server es s'
    \<and> (Close 4 \<in> set es \<or> prefix ''hi'' (sent 4 s'))"
proof -
  have "out_stream 4 sample_server = ''hi''" by (simp add: out_stream_def sent_def)
  then show ?thesis
    using queue_drained [OF srv_ok_sample listening_sample sample_env(1), of 4] drains_sample by simp
qed

end
