(* ===== verification/Server_Authentication.thy ===== *)
theory Server_Authentication
  imports Server_Events
begin

section \<open>Authentication and isolation of connections\<close>

text \<open>
  End to end, from bytes to registered clients: what \<open>dispatch\<close> guarantees for one command is
  carried through \<open>processMessage\<close>, the line loop of \<open>receiveData\<close>, and runs of events. The same
  way, what a handler leaves alone becomes a guarantee about all bytes a connection may send.
\<close>

subsection \<open>Clients that passed the password check\<close>

definition accepted_at :: "int \<Rightarrow> server_state \<Rightarrow> bool" where
  "accepted_at fd s \<longleftrightarrow> getClientByFd fd s \<noteq> NULL
     \<and> (\<exists>c. deref s (getClientByFd fd s) = Some c \<and> passAccepted c)"

text \<open>A line that gives the password.\<close>

definition presents :: "string \<Rightarrow> string \<Rightarrow> bool" where
  "presents pw line \<longleftrightarrow>
     (\<exists>m. parse line = Some m \<and> command m = ''PASS'' \<and> params m \<noteq> [] \<and> params m ! 0 = pw)"

lemma dispatch_accepts:
  assumes ok: "state_ok s" and m: "message_lf_free m" and run: "dispatch mem fd m s = Some (r, s')"
    and acc: "accepted_at f s'"
  shows "accepted_at f s \<or> f = fd \<and> command m = ''PASS'' \<and> params m \<noteq> [] \<and> params m ! 0 = password s"
proof -
  have fr: "frame fd s s'" using dispatcher.returns [OF ok m TrueI, of mem fd] run by auto
  then have same: "getClientByFd f s' = getClientByFd f s" by (simp add: frame_def getClientByFd_def)
  from ok show ?thesis
  proof (cases rule: fd_cases [of s f])
    case absent
    with acc same show ?thesis by (simp add: accepted_at_def)
  next
    case (present c)
    with dispatch_pass [OF ok m present(2) run] acc same show ?thesis
      by (auto simp: accepted_at_def)
  qed
qed

lemma processMessage_accepts:
  assumes core: "srv_core srv" and line: "lf_free line" and run: "processMessage mem fd line srv = Some srv'"
  shows "password (serverState srv') = password (serverState srv)"
    and "accepted_at f (serverState srv') \<Longrightarrow>
      accepted_at f (serverState srv) \<or> f = fd \<and> presents (password (serverState srv)) line"
proof -
  have ok: "state_ok (serverState srv)" by (rule srv_coreD(1) [OF core])
  obtain m where m: "parse line = Some m" by (simp add: parse_eq_spec)
  have lf: "message_lf_free m" by (rule parse_lf_free [OF line m])
  obtain r s where d: "dispatch mem fd m (serverState srv) = Some (r, s)" "frame fd (serverState srv) s"
      "\<not> disconnect r"
    by (rule dispatcher.returns [OF ok lf TrueI])
  then have "serverState srv' = (if command m = '''' then serverState srv else s)"
    using run m by (auto simp: processMessage_def shouldDisconnect_def Let_def)
  with d(2) dispatch_accepts [OF ok lf d(1)] m
  show "password (serverState srv') = password (serverState srv)"
    and "accepted_at f (serverState srv') \<Longrightarrow>
      accepted_at f (serverState srv) \<or> f = fd \<and> presents (password (serverState srv)) line"
    by (auto simp: frame_def presents_def split: if_splits)
qed

lemma process_lines_accepts:
  assumes "srv_core srv" and "list_all lf_free ls" and "process_lines mems i fd ls srv = Some srv'"
  shows "password (serverState srv') = password (serverState srv)
    \<and> (accepted_at f (serverState srv') \<longrightarrow>
        accepted_at f (serverState srv) \<or> f = fd \<and> (\<exists>l \<in> set ls. presents (password (serverState srv)) l))"
  using assms
proof (induction ls arbitrary: i srv)
  case (Cons l ls)
  from Cons.prems have l: "lf_free l" "list_all lf_free ls" by simp_all
  obtain s1 where s1: "processMessage (mems i) fd l srv = Some s1" "srv_core s1"
    by (rule processMessage_core [OF Cons.prems(1) l(1)])
  then have "process_lines mems (Suc i) fd ls s1 = Some srv'" using Cons.prems(3) by simp
  from Cons.IH [OF s1(2) l(2) this] processMessage_accepts [OF Cons.prems(1) l(1) s1(1)]
  show ?case by auto
qed simp

subsection \<open>What a connection has sent\<close>

text \<open>The bytes of the current connection on a descriptor, without control characters.\<close>

definition hear :: "int \<Rightarrow> string \<Rightarrow> event \<Rightarrow> string" where
  "hear fd acc e = (case e of
     Accept f mem \<Rightarrow> (if f = fd then '''' else acc)
   | Receive f bytes \<Rightarrow> (if f = fd then acc @ sanitize bytes else acc)
   | _ \<Rightarrow> acc)"

definition heard :: "int \<Rightarrow> event list \<Rightarrow> string" where
  "heard fd es = foldl (hear fd) '''' es"

definition lines_of :: "int \<Rightarrow> event list \<Rightarrow> string list" where
  "lines_of fd es = fst (consume '''' (heard fd es))"

definition rest_of :: "int \<Rightarrow> event list \<Rightarrow> string" where
  "rest_of fd es = snd (consume '''' (heard fd es))"

lemma heard_simps [simp]: "heard fd [] = ''''" "heard fd (es @ [e]) = hear fd (heard fd es) e"
  by (simp_all add: heard_def)

lemma lines_of_receive:
  "lines_of fd (es @ [Receive fd bytes]) = lines_of fd es @ fst (consume (rest_of fd es) (sanitize bytes))"
  "rest_of fd (es @ [Receive fd bytes]) = snd (consume (rest_of fd es) (sanitize bytes))"
  by (simp_all add: lines_of_def rest_of_def hear_def consume_append case_prod_beta Let_def)

lemma lines_of_other:
  assumes "\<And>mem. e \<noteq> Accept fd mem" and "\<And>bytes. e \<noteq> Receive fd bytes"
  shows "lines_of fd (es @ [e]) = lines_of fd es" "rest_of fd (es @ [e]) = rest_of fd es"
  using assms by (auto simp: lines_of_def rest_of_def hear_def split: event.splits)

subsection \<open>The history of a connection explains its state\<close>

definition tracks :: "string \<Rightarrow> event list \<Rightarrow> server \<Rightarrow> bool" where
  "tracks pw es s \<longleftrightarrow> srv_ok s \<and> password (serverState s) = pw
     \<and> (\<forall>fd \<in> conns s. buf_at (recvBuffers s) fd = rest_of fd es)
     \<and> (\<forall>fd. accepted_at fd (serverState s) \<longrightarrow> (\<exists>l \<in> set (lines_of fd es). presents pw l))"

lemma tracksD:
  assumes "tracks pw es s"
  shows "srv_ok s" "password (serverState s) = pw"
    "fd \<in> conns s \<Longrightarrow> buf_at (recvBuffers s) fd = rest_of fd es"
    "accepted_at fd (serverState s) \<Longrightarrow> \<exists>l \<in> set (lines_of fd es). presents pw l"
  using assms unfolding tracks_def by blast+

lemma tracksI:
  assumes "srv_ok s" and "password (serverState s) = pw"
    and "\<And>fd. fd \<in> conns s \<Longrightarrow> buf_at (recvBuffers s) fd = rest_of fd es"
    and "\<And>fd. accepted_at fd (serverState s) \<Longrightarrow> \<exists>l \<in> set (lines_of fd es). presents pw l"
  shows "tracks pw es s"
  using assms unfolding tracks_def by blast

text \<open>Events that neither change clients nor receive buffers.\<close>

lemma tracks_frame:
  assumes "tracks pw es s" and "srv_ok s'" and "serverState s' = serverState s"
    and "recvBuffers s' = recvBuffers s" "conns s' = conns s"
    and "\<And>fd. lines_of fd (es @ [e]) = lines_of fd es \<and> rest_of fd (es @ [e]) = rest_of fd es"
  shows "tracks pw (es @ [e]) s'"
  using assms by (simp add: tracks_def)

lemma accepted_at_add:
  assumes ok: "state_ok s" and fd: "getClientByFd fd s = NULL"
    and acc: "accepted_at f (snd (addNewClient mem fd s))"
  shows "f \<noteq> fd \<and> accepted_at f s"
proof (cases "map_find (clientsByFd s) fd = None \<and> mem \<noteq> None")
  case False
  then have "snd (addNewClient mem fd s) = s" by (auto simp: addNewClient_def)
  with acc fd show ?thesis by (auto simp: accepted_at_def)
next
  case True
  then obtain p where p: "mem = Some p" by blast
  have "getClientByFd f (snd (addNewClient mem fd s)) = (if f = fd then p else getClientByFd f s)"
    "deref (snd (addNewClient mem fd s)) q = (if q = p then Some (Client fd) else deref s q)" for q
    using True p by (simp_all add: addNewClient_new getClientByFd_def map_find_simps)
  with acc show ?thesis by (auto simp: accepted_at_def Client_def split: if_splits)
qed

lemma removed_password: "password (removed fd p c s) = password s"
  by (simp add: removed_def)

lemma removeClient_accepts:
  assumes ok: "state_ok s" and run: "removeClient fd s = Some (b, s')"
  shows "password s' = password s \<and> (accepted_at f s' \<longrightarrow> f \<noteq> fd \<and> accepted_at f s)"
proof (cases "map_find (clientsByFd s) fd")
  case None
  then have "s' = s" "getClientByFd fd s = NULL"
    using run removeClient_result [OF state_ok_dir [OF ok], of fd] by (simp_all add: getClientByFd_def)
  then show ?thesis by (auto simp: accepted_at_def)
next
  case (Some p)
  then have s': "s' = removed fd p (the (deref s p)) s"
    using run removeClient_result [OF state_ok_dir [OF ok], of fd] by simp
  have "getClientByFd f s' = (if f = fd then NULL else getClientByFd f s)"
    by (simp add: s' getClientByFd_def removed_def map_find_simps)
  then show ?thesis
    by (auto simp: s' removed_password removed_deref accepted_at_def split: if_splits)
qed

lemma tracks_accept:
  assumes t: "tracks pw es s" and fd: "0 \<le> fd" "fd \<notin> set (fds s)" "fd \<noteq> serverFd s"
    and mem: "fresh mem (serverState s)"
  shows "tracks pw (es @ [Accept fd mem]) (acceptNewClient fd mem s)"
proof -
  have ok: "srv_ok s" using t by (simp add: tracks_def)
  then have core: "srv_core s" by (simp add: srv_ok_def)
  have ok': "srv_ok (acceptNewClient fd mem s)"
    using step_facts [OF step_accept [of fd s mem] ok] fd mem by blast
  have sok: "state_ok (serverState s)" by (rule srv_coreD(1) [OF core])
  have null: "getClientByFd fd (serverState s) = NULL"
    using srv_coreD(7) [OF core, of fd] fd by (auto simp: conns_def)
  have lines: "rest_of fd (es @ [Accept fd mem]) = ''''"
    "f \<noteq> fd \<Longrightarrow> lines_of f (es @ [Accept fd mem]) = lines_of f es \<and> rest_of f (es @ [Accept fd mem]) = rest_of f es" for f
    by (simp_all add: rest_of_def lines_of_def hear_def)
  have "password (snd (addNewClient mem fd (serverState s))) = password (serverState s)"
    by (auto simp: addNewClient_def store_def Let_def case_prod_beta split: option.splits)
  moreover have "conns (acceptNewClient fd mem s) = insert fd (conns s)"
    using fd by (auto simp: acceptNewClient_def conns_def fds_def)
  moreover have "f \<noteq> fd \<and> accepted_at f (serverState s)"
    if "accepted_at f (serverState (acceptNewClient fd mem s))" for f
    using that fd(1) accepted_at_add [OF sok null, of f mem] by (simp add: acceptNewClient_def)
  ultimately show ?thesis
    using t ok' lines fd(1) unfolding tracks_def by (simp add: acceptNewClient_def)
qed

lemma tracks_receive:
  assumes t: "tracks pw es s" and fd: "fd \<in> conns s" and bytes: "bytes \<noteq> ''''" "length bytes < 512"
    and run: "receiveData mems fd (Received bytes) s = Some s'"
  shows "tracks pw (es @ [Receive fd bytes]) s'"
proof -
  note ok = tracksD(1) [OF t] and pw = tracksD(2) [OF t] and buf = tracksD(3) [OF t] and acc = tracksD(4) [OF t]
  from ok have core: "srv_core s" and lf: "lf_free (rest_of fd es)"
    using buf [OF fd, symmetric] by (simp_all add: srv_ok_def)
  obtain ls rest where lines: "consume (rest_of fd es) (sanitize bytes) = (ls, rest)"
    by (cases "consume (rest_of fd es) (sanitize bytes)")
  have lsr: "list_all lf_free ls" "lf_free rest" using consume_results [OF lf, of "sanitize bytes"] lines by simp_all
  let ?s = "s\<lparr>recvBuffers := set_buf fd rest (recvBuffers s)\<rparr>"
  have core1: "srv_core ?s" by (rule srv_core_recv [OF core fd])
  have "consume '''' (buf_at (recvBuffers s) fd @ sanitize bytes) = (ls, rest)"
    using lines consume_from_rest [OF lf] by (simp add: buf [OF fd])
  then have run': "process_lines mems 0 fd ls ?s = Some s'"
    using receiveData_spec [OF core fd bytes] run by simp
  obtain s1 where "process_lines mems 0 fd ls ?s = Some s1" "recvBuffers s1 = recvBuffers ?s"
      "fds s1 = fds ?s" "serverFd s1 = serverFd ?s"
    by (rule process_lines_core [OF core1 lsr(1)])
  then have s': "recvBuffers s' = recvBuffers ?s" "conns s' = conns s"
    using run' by (simp_all add: conns_def)
  have ok': "srv_ok s'" by (rule receiveData_ok [OF ok fd bytes, of mems]) (use run in auto)
  have new: "lines_of fd (es @ [Receive fd bytes]) = lines_of fd es @ ls"
    "rest_of fd (es @ [Receive fd bytes]) = rest" by (simp_all add: lines_of_receive lines)
  have old: "lines_of f (es @ [Receive fd bytes]) = lines_of f es"
    "rest_of f (es @ [Receive fd bytes]) = rest_of f es" if "f \<noteq> fd" for f
    using that by (simp_all add: lines_of_other)
  have "buf_at (recvBuffers s') f = rest_of f (es @ [Receive fd bytes])" if "f \<in> conns s'" for f
    using that buf [of f] new(2) old(2) [of f] by (simp add: s')
  moreover have "\<exists>l \<in> set (lines_of f (es @ [Receive fd bytes])). presents pw l"
    if "accepted_at f (serverState s')" for f
    using process_lines_accepts [OF core1 lsr(1) run', of f] that acc [of f] new(1) old(1) [of f] pw
    by (cases "f = fd") auto
  ultimately show ?thesis
    using process_lines_accepts [OF core1 lsr(1) run'] pw by (intro tracksI [OF ok']) simp_all
qed

lemma tracks_close:
  assumes t: "tracks pw es s" and fd: "fd \<in> conns s" and run: "disconnectClient fd s = Some s'"
  shows "tracks pw (es @ [Close fd]) s'"
proof -
  have ok: "srv_ok s" using t by (simp add: tracks_def)
  then have sok: "state_ok (serverState s)" using srv_coreD(1) by (simp add: srv_ok_def)
  obtain b t' where t': "removeClient fd (serverState s) = Some (b, t')"
    by (rule removeClient_ok [OF sok])
  with run have "serverState s' = t'" by (auto simp: disconnectClient_def Let_def)
  with t' have rm: "removeClient fd (serverState s) = Some (b, serverState s')" by simp
  have facts: "srv_ok s'" "conns s' = conns s - {fd}"
    using step_facts [OF step_close [OF fd run] ok] by (simp_all add: conns_def) blast
  have lines: "lines_of f (es @ [Close fd]) = lines_of f es" "rest_of f (es @ [Close fd]) = rest_of f es" for f
    by (simp_all add: lines_of_other)
  show ?thesis
  proof (rule tracksI [OF facts(1)]; (unfold lines)?)
    show "password (serverState s') = pw" using removeClient_accepts [OF sok rm] tracksD(2) [OF t] by simp
    show "buf_at (recvBuffers s') f = rest_of f es" if "f \<in> conns s'" for f
      using that facts(2) tracksD(3) [OF t, of f] by (simp add: disconnect_recv [OF run])
    show "\<exists>l \<in> set (lines_of f es). presents pw l" if "accepted_at f (serverState s')" for f
      using that removeClient_accepts [OF sok rm, of f] tracksD(4) [OF t, of f] by blast
  qed
qed

lemma step_tracks: "server_step s e s' \<Longrightarrow> tracks pw es s \<Longrightarrow> tracks pw (es @ [e]) s'"
proof (induction rule: server_step.induct)
  case (step_accept fd s mem)
  then show ?case by (intro tracks_accept)
next
  case (step_receive fd s bytes mems s')
  then show ?case by (intro tracks_receive)
next
  case (step_send fd s n s')
  then have ok: "srv_ok s" by (simp add: tracks_def)
  obtain t where "sendData fd n s = Some t" "srv_ok t" "fds t = fds s" "serverFd t = serverFd s"
      "recvBuffers t = recvBuffers s" "serverState t = serverState s"
    by (rule sendData_ok [OF ok step_send(1,2)])
  with step_send show ?case
    by (intro tracks_frame [of pw es s]) (simp_all add: conns_def lines_of_other)
next
  case (step_close fd s s')
  then show ?case by (intro tracks_close)
next
  case (step_poll s f)
  then show ?case
    using set_revents_srv_ok [of s f]
    by (intro tracks_frame [of pw es s]) (simp_all add: conns_def fds_def lines_of_other tracks_def)
qed

lemma run_tracks: "server_run s es s' \<Longrightarrow> tracks pw [] s \<Longrightarrow> tracks pw es s'"
  by (induction rule: server_run.induct) (auto intro: step_tracks)

lemma tracks_start:
  assumes "Server inp p pw = Inr srv"
  shows "tracks pw [] srv"
  using Server_ok [OF assms] assms
  by (auto simp: tracks_def Server_result conns_def fds_def accepted_at_def getClientByFd_def ServerState_def
      map_find_simps split: if_splits)

subsection \<open>What one connection can do to the others\<close>

lemma processMessage_frame:
  assumes core: "srv_core srv" and line: "lf_free line" and run: "processMessage mem fd line srv = Some srv'"
  shows "frame fd (serverState srv) (serverState srv')"
proof -
  obtain m where m: "parse line = Some m" by (simp add: parse_eq_spec)
  obtain r s where "dispatch mem fd m (serverState srv) = Some (r, s)" "frame fd (serverState srv) s"
      "\<not> disconnect r"
    by (rule dispatcher.returns [OF srv_coreD(1) [OF core] parse_lf_free [OF line m] TrueI])
  with run m show ?thesis
    by (auto simp: processMessage_def shouldDisconnect_def Let_def frame_refl split: if_splits)
qed

lemma process_lines_frame:
  assumes "srv_core srv" and "list_all lf_free ls" and "process_lines mems i fd ls srv = Some srv'"
  shows "frame fd (serverState srv) (serverState srv')"
  using assms
proof (induction ls arbitrary: i srv)
  case Nil
  then show ?case by (simp add: frame_refl)
next
  case (Cons l ls)
  from Cons.prems have l: "lf_free l" "list_all lf_free ls" by simp_all
  obtain s1 where s1: "processMessage (mems i) fd l srv = Some s1" "srv_core s1"
    by (rule processMessage_core [OF Cons.prems(1) l(1)])
  then have "process_lines mems (Suc i) fd ls s1 = Some srv'" using Cons.prems(3) by simp
  from frame_trans [OF processMessage_frame [OF Cons.prems(1) l(1) s1(1)] Cons.IH [OF s1(2) l(2) this]]
  show ?case .
qed

lemma receiveData_frame:
  assumes ok: "srv_ok s" and fd: "fd \<in> conns s" and bytes: "bytes \<noteq> ''''" "length bytes < 512"
    and run: "receiveData mems fd (Received bytes) s = Some s'"
  shows "frame fd (serverState s) (serverState s')"
proof -
  have core: "srv_core s" using ok by (simp add: srv_ok_def)
  obtain ls rest where lines: "consume '''' (buf_at (recvBuffers s) fd @ sanitize bytes) = (ls, rest)"
    by (cases "consume '''' (buf_at (recvBuffers s) fd @ sanitize bytes)")
  then have "list_all lf_free ls"
    using consume_results [of "[]" "buf_at (recvBuffers s) fd @ sanitize bytes"] by (simp add: lf_simps)
  then show ?thesis
    using process_lines_frame [OF srv_core_recv [OF core fd]] run receiveData_spec [OF core fd bytes lines]
    by fastforce
qed

text \<open>A whole login through the receive path, for the witness.\<close>

definition sample_login :: string where
  "sample_login = ''PASS pw'' @ [CR, LF] @ ''NICK ada'' @ [CR, LF] @ ''USER ann 0 * Ann'' @ [LF]"

definition sample_start :: server where
  "sample_start = \<lparr>port = 6667, serverPassword = ''pw'', pollfds = [\<lparr>pfFd = 3, events = POLLIN, revents = 0\<rparr>],
     serverFd = 3, recvBuffers = [], sendBuffers = [], serverState = ServerState ''pw'', closedFds = [], wire = []\<rparr>"

lemma sample_start_ctor:
  "Server \<lparr>sock = 3, setOption = 0, bindResult = 0, listenResult = 0\<rparr> 6667 ''pw'' = Inr sample_start"
  by (simp add: Server_result sample_start_def)

lemma sample_login_result:
  "map_option (\<lambda>s. (getClientByFd 7 (serverState s), deref (serverState s) 40))
      (receiveData (\<lambda>i j. True) 7 (Received sample_login) (acceptNewClient 7 (Some 40) sample_start))
    = Some (40, Some \<lparr>socketFd = 7, username = ''ann'', nickname = ''ada'', realname = ''Ann'',
        passAccepted = True, registered = True\<rparr>)"
  by code_simp

text \<open>A connection on descriptor 7 is accepted and sends one piece of input.\<close>

lemma sample_session:
  assumes "receiveData (\<lambda>i j. True) 7 (Received bytes) (acceptNewClient 7 (Some 40) sample_start) = Some s"
    and "bytes \<noteq> ''''" and "length bytes < 512"
  shows "server_run sample_start [Accept 7 (Some 40), Receive 7 bytes] s"
proof -
  let ?a = "acceptNewClient 7 (Some 40) sample_start"
  have "server_step sample_start (Accept 7 (Some 40)) ?a"
    by (rule step_accept) (simp_all add: sample_start_def fds_def fresh_def ServerState_def deref_def map_find_simps)
  moreover have "7 \<in> conns ?a" by (simp add: sample_start_def acceptNewClient_def conns_def fds_def)
  then have "server_step ?a (Receive 7 bytes) s" by (rule step_receive [OF _ assms(2,3,1)])
  ultimately have "server_run sample_start ([Accept 7 (Some 40)] @ [Receive 7 bytes]) s"
    by (intro run_snoc run_step)
  then show ?thesis by simp
qed

lemma sample_login_run:
  obtains s where "server_run sample_start [Accept 7 (Some 40), Receive 7 sample_login] s"
    "getClientByFd 7 (serverState s) = 40" "deref (serverState s) 40 = Some \<lparr>socketFd = 7, username = ''ann'',
      nickname = ''ada'', realname = ''Ann'', passAccepted = True, registered = True\<rparr>"
proof -
  obtain s where s: "receiveData (\<lambda>i j. True) 7 (Received sample_login) (acceptNewClient 7 (Some 40) sample_start) = Some s"
      "getClientByFd 7 (serverState s) = 40" "deref (serverState s) 40 = Some \<lparr>socketFd = 7, username = ''ann'',
        nickname = ''ada'', realname = ''Ann'', passAccepted = True, registered = True\<rparr>"
    using sample_login_result by auto
  have "server_run sample_start [Accept 7 (Some 40), Receive 7 sample_login] s"
    by (rule sample_session [OF s(1)]) (simp_all add: sample_login_def)
  then show ?thesis using s(2,3) by (rule that)
qed

subsection \<open>Authentication, end to end\<close>

text \<open>
  C5. Nobody is let in without the password. In any state that a constructed server reaches, by any
  interleaving of accepting, receiving, sending and closing on all its connections and however the
  bytes were cut into pieces, a client that is registered has passed the password check, and a
  client that passed it belongs to a connection that since it was accepted has sent a complete line
  \<open>PASS\<close> with the server's password.
\<close>

theorem server_authentication:
  assumes start: "Server inp p pw = Inr srv" and run: "server_run srv es s"
    and c: "getClientByFd fd (serverState s) = q" "deref (serverState s) q = Some c"
  shows "fd \<in> conns s \<and> (registered c \<longrightarrow> passAccepted c)
    \<and> (passAccepted c \<longrightarrow> (\<exists>line m. line \<in> set (fst (consume '''' (heard fd es)))
        \<and> parse line = Some m \<and> command m = ''PASS'' \<and> params m \<noteq> [] \<and> params m ! 0 = pw))"
proof -
  have t: "tracks pw es s" by (rule run_tracks [OF run tracks_start [OF start]])
  have core: "srv_core s" using tracksD(1) [OF t] by (simp add: srv_ok_def)
  have d: "dir_ok (serverState s)" by (rule state_ok_dir [OF srv_coreD(1) [OF core]])
  have q: "getClientByFd fd (serverState s) \<noteq> NULL" using dirs.live_not_null [OF d c(2)] c(1) by simp
  have "client_ok c" by (rule live_client_ok [OF d c(2)])
  then have "registered c \<longrightarrow> passAccepted c" by (simp add: client_ok_def complete_def)
  moreover have "passAccepted c \<Longrightarrow> \<exists>l \<in> set (lines_of fd es). presents pw l"
    using c q by (intro tracksD(4) [OF t]) (auto simp: accepted_at_def)
  ultimately show ?thesis
    using srv_coreD(7) [OF core q] unfolding lines_of_def presents_def by blast
qed

theorem server_authentication_witness:
  "\<exists>s c. server_run sample_start [Accept 7 (Some 40), Receive 7 sample_login] s
    \<and> deref (serverState s) 40 = Some c \<and> registered c \<and> passAccepted c
    \<and> (\<exists>line \<in> set (fst (consume '''' (heard 7 [Accept 7 (Some 40), Receive 7 sample_login]))).
        \<exists>m. parse line = Some m \<and> command m = ''PASS'')"
proof -
  obtain s where run: "server_run sample_start [Accept 7 (Some 40), Receive 7 sample_login] s"
    and s: "getClientByFd 7 (serverState s) = 40" "deref (serverState s) 40 = Some \<lparr>socketFd = 7, username = ''ann'',
      nickname = ''ada'', realname = ''Ann'', passAccepted = True, registered = True\<rparr>"
    by (rule sample_login_run)
  obtain line m where "line \<in> set (fst (consume [] (heard 7 [Accept 7 (Some 40), Receive 7 sample_login])))"
      "parse line = Some m" "command m = ''PASS''"
    using server_authentication [OF sample_start_ctor run s] by auto
  with run s(2) show ?thesis by (intro exI [of _ s]) (simp, blast)
qed

text \<open>
  C17. Connections are isolated. Whatever bytes one connection sends, with whatever effect on
  channels, the record of every other client (nickname, names, registration, password check) is
  exactly as before, every connection keeps its client, nothing is closed, and all other receive
  buffers are untouched.
\<close>

theorem client_isolation:
  assumes ok: "srv_ok s" and fd: "fd \<in> conns s" and bytes: "bytes \<noteq> ''''" "length bytes < 512"
  shows "\<exists>s'. receiveData mems fd (Received bytes) s = Some s' \<and> srv_ok s'
    \<and> fds s' = fds s \<and> closedFds s' = closedFds s
    \<and> (\<forall>f. getClientByFd f (serverState s') = getClientByFd f (serverState s))
    \<and> (\<forall>p. p \<noteq> getClientByFd fd (serverState s) \<longrightarrow> deref (serverState s') p = deref (serverState s) p)"
proof -
  obtain s' where s': "receiveData mems fd (Received bytes) s = Some s'" "srv_ok s'" "fds s' = fds s"
      "closedFds s' = closedFds s"
    by (rule receiveData_ok [OF ok fd bytes])
  with receiveData_frame [OF ok fd bytes s'(1)] show ?thesis
    by (auto simp: frame_fd) (simp add: frame_def)
qed

theorem client_isolation_witness:
  "\<exists>s'. receiveData (\<lambda>i j. True) 4 (Received (''NG'' @ [LF] @ ''KICK #lobby bob'' @ [LF])) sample_server = Some s'
    \<and> deref (serverState s') 2 = deref (serverState sample_server) 2"
  using client_isolation [OF srv_ok_sample, of 4 "''NG'' @ [LF] @ ''KICK #lobby bob'' @ [LF]" "\<lambda>i j. True"]
  by auto

end
