(* ===== verification/Banner.thy ===== *)
theory Banner
  imports Prelude
begin

section \<open>The banner\<close>

text \<open>
  \<open>Banner.cpp\<close>: six large letters, written one more with every frame. A C string is its sequence of
  bytes in the UTF-8 encoding of the file, and what goes to \<open>std::cout\<close> is the string of bytes
  written. An index past the end of one of the tables is undefined behaviour, \<open>None\<close>; the lemmas show
  that there is none. The empty counting loop that delays the next frame has no effect and is left
  out (its counter stays below \<open>2 ^ 31\<close>).
\<close>

subsection \<open>Letters\<close>

text \<open>
  The box-drawing characters of the tables, three bytes each. The rows below spell them in ASCII:
  \<open>#\<close> is the full block; \<open>=\<close> and \<open>I\<close> are the horizontal and the vertical double line; \<open>r\<close>, \<open>7\<close>, \<open>L\<close> and \<open>J\<close>
  are the upper left, upper right, lower left and lower right corner.
\<close>

definition box_char :: "char \<Rightarrow> string" where
  "box_char c =
     (if c = CHR ''#'' then [CHR 0xE2, CHR 0x96, CHR 0x88]
      else if c = CHR ''='' then [CHR 0xE2, CHR 0x95, CHR 0x90]
      else if c = CHR ''I'' then [CHR 0xE2, CHR 0x95, CHR 0x91]
      else if c = CHR ''r'' then [CHR 0xE2, CHR 0x95, CHR 0x94]
      else if c = CHR ''7'' then [CHR 0xE2, CHR 0x95, CHR 0x97]
      else if c = CHR ''L'' then [CHR 0xE2, CHR 0x95, CHR 0x9A]
      else if c = CHR ''J'' then [CHR 0xE2, CHR 0x95, CHR 0x9D]
      else [c])"

definition row_bytes :: "string \<Rightarrow> string" where
  "row_bytes r = concat (map box_char r)"

definition letter_F :: "string list" where
  "letter_F = map row_bytes
     [''#######7'',
      ''##r====J'',
      ''#####7  '',
      ''##r==J  '',
      ''##I     '',
      ''L=J     '']"

definition letter_T :: "string list" where
  "letter_T = map row_bytes
     [''########7'',
      ''L==##r==J'',
      ''   ##I   '',
      ''   ##I   '',
      ''   ##I   '',
      ''   L=J   '']"

definition letter_U :: "string list" where
  "letter_U = map row_bytes
     [''        '',
      ''        '',
      ''        '',
      ''        '',
      ''#######7'',
      ''L======J'']"

definition letter_I :: "string list" where
  "letter_I = map row_bytes
     [''##7'',
      ''##I'',
      ''##I'',
      ''##I'',
      ''##I'',
      ''L=J'']"

definition letter_R :: "string list" where
  "letter_R = map row_bytes
     [''######7 '',
      ''##r==##7'',
      ''######rJ'',
      ''##r==##7'',
      ''##I  ##I'',
      ''L=J  L=J'']"

definition letter_C :: "string list" where
  "letter_C = map row_bytes
     ['' ######7'',
      ''##r====J'',
      ''##I     '',
      ''##I     '',
      ''L######7'',
      '' L=====J'']"

definition banner_chars :: "string list list" where
  "banner_chars = [letter_F, letter_T, letter_U, letter_I, letter_R, letter_C]"

subsection \<open>Printing\<close>

text \<open>\<open>chars[col][row]\<close>, and the two nested loops of \<open>printFrame\<close>.\<close>

definition glyph_at :: "string list list \<Rightarrow> nat \<Rightarrow> nat \<Rightarrow> string option" where
  "glyph_at chars col row =
     (if col < length chars \<and> row < length (chars ! col) then Some (chars ! col ! row) else None)"

function frame_cols :: "string list list \<Rightarrow> nat \<Rightarrow> nat \<Rightarrow> nat \<Rightarrow> string \<Rightarrow> string option" where
  "frame_cols chars count row col out =
     (if col < count then do {
        g \<leftarrow> glyph_at chars col row;
        frame_cols chars count row (col + 1) (out @ g @ ''  '')
      }
      else Some out)"
  by pat_completeness auto
termination by (relation "measure (\<lambda>(_, count, _, col, _). count - col)") auto

function frame_rows :: "string list list \<Rightarrow> nat \<Rightarrow> nat \<Rightarrow> string \<Rightarrow> string option" where
  "frame_rows chars count row out =
     (if row < 6 then do {
        out \<leftarrow> frame_cols chars count row 0 out;
        frame_rows chars count (row + 1) (out @ [LF])
      }
      else Some out)"
  by pat_completeness auto
termination by (relation "measure (\<lambda>(_, _, row, _). 6 - row)") auto

definition printFrame :: "string list list \<Rightarrow> nat \<Rightarrow> string option" where
  "printFrame chars count = frame_rows chars count 0 ''''"

text \<open>The terminal sequence \<open>\033[H\033[J\<close> moves to the top left corner and clears the screen.\<close>

definition clear_screen :: string where
  "clear_screen = [CHR 0x1B] @ ''[H'' @ [CHR 0x1B] @ ''[J''"

function banner_frames :: "nat \<Rightarrow> string \<Rightarrow> string option" where
  "banner_frames frame out =
     (if frame \<le> 6 then do {
        f \<leftarrow> printFrame banner_chars frame;
        banner_frames (frame + 1) (out @ clear_screen @ f)
      }
      else Some out)"
  by pat_completeness auto
termination by (relation "measure (\<lambda>(frame, _). 7 - frame)") auto

definition printBannerTypewriter :: "string option" where
  "printBannerTypewriter = banner_frames 1 ''''"

declare frame_cols.simps [simp del] frame_rows.simps [simp del] banner_frames.simps [simp del]

subsection \<open>The output\<close>

text \<open>A frame is the rows of the first \<open>count\<close> letters side by side, one line for each of six rows.\<close>

definition frame_line :: "string list list \<Rightarrow> nat \<Rightarrow> nat \<Rightarrow> string" where
  "frame_line chars count row = concat (map (\<lambda>l. l ! row @ ''  '') (take count chars)) @ [LF]"

definition frame_text :: "string list list \<Rightarrow> nat \<Rightarrow> string" where
  "frame_text chars count = concat (map (frame_line chars count) [0..<6])"

lemma frame_cols_result:
  assumes "count \<le> length chars" "\<forall>l \<in> set chars. length l = 6" "row < 6" "col \<le> count"
  shows "frame_cols chars count row col out
    = Some (out @ concat (map (\<lambda>l. l ! row @ ''  '') (drop col (take count chars))))"
  using assms
proof (induction chars count row col out rule: frame_cols.induct)
  case (1 chars count row col out)
  show ?case
  proof (cases "col < count")
    case True
    then have "drop col (take count chars) = chars ! col # drop (col + 1) (take count chars)"
      using 1(2) by (subst Cons_nth_drop_Suc [symmetric]) auto
    moreover have "glyph_at chars col row = Some (chars ! col ! row)"
      using True 1(2-4) by (simp add: glyph_at_def)
    ultimately show ?thesis using True 1 by (subst frame_cols.simps) simp
  next
    case False
    with 1(2,5) show ?thesis by (subst frame_cols.simps) simp
  qed
qed

lemma frame_rows_result:
  assumes "count \<le> length chars" "\<forall>l \<in> set chars. length l = 6" "row \<le> 6"
  shows "frame_rows chars count row out = Some (out @ concat (map (frame_line chars count) [row..<6]))"
  using assms
proof (induction chars count row out rule: frame_rows.induct)
  case (1 chars count row out)
  show ?case
  proof (cases "row < 6")
    case True
    let ?cells = "concat (map (\<lambda>l. l ! row @ ''  '') (take count chars))"
    have "frame_cols chars count row 0 out = Some (out @ ?cells)"
      using frame_cols_result [OF 1(2,3) True, of 0 out] by simp
    moreover have "?cells @ LF # xs = frame_line chars count row @ xs" for xs
      by (simp add: frame_line_def)
    ultimately show ?thesis using True 1 by (subst frame_rows.simps) (simp add: upt_rec [of row])
  next
    case False
    with 1(4) show ?thesis by (subst frame_rows.simps) simp
  qed
qed

lemma printFrame_result:
  "count \<le> length chars \<Longrightarrow> \<forall>l \<in> set chars. length l = 6 \<Longrightarrow>
    printFrame chars count = Some (frame_text chars count)"
  by (simp add: printFrame_def frame_rows_result frame_text_def)

lemma banner_chars_shape: "length banner_chars = 6" "\<forall>l \<in> set banner_chars. length l = 6"
  by (simp_all add: banner_chars_def letter_F_def letter_T_def letter_U_def letter_I_def letter_R_def
      letter_C_def)

lemma banner_frames_result:
  "frame \<le> 7 \<Longrightarrow> banner_frames frame out =
    Some (out @ concat (map (\<lambda>k. clear_screen @ frame_text banner_chars k) [frame..<7]))"
proof (induction frame out rule: banner_frames.induct)
  case (1 frame out)
  show ?case
  proof (cases "frame \<le> 6")
    case True
    with 1 printFrame_result [of frame banner_chars] banner_chars_shape show ?thesis
      by (subst banner_frames.simps) (simp add: upt_rec [of frame])
  next
    case False
    with 1(2) show ?thesis by (subst banner_frames.simps) simp
  qed
qed

lemma printBannerTypewriter_result:
  "printBannerTypewriter =
    Some (concat (map (\<lambda>k. clear_screen @ frame_text banner_chars k) [1..<7]))"
  by (simp add: printBannerTypewriter_def banner_frames_result)

text \<open>
  The letters stay aligned: within a letter all rows have the same number of characters, where a
  character is counted at its first byte (a byte that is not of the form \<open>10xxxxxx\<close>).
\<close>

definition columns :: "string \<Rightarrow> nat" where
  "columns s = length (filter (\<lambda>c. byte c div 64 \<noteq> 2) s)"

lemma columns_row_bytes: "list_all (\<lambda>c. byte c < 128) r \<Longrightarrow> columns (row_bytes r) = length r"
proof (induction r)
  case Nil
  then show ?case by (simp add: columns_def row_bytes_def)
next
  case (Cons c r)
  have "columns (box_char c) = 1" if "byte c < 128"
    using that by (auto simp: box_char_def columns_def byte_def)
  moreover have "columns (row_bytes (c # r)) = columns (box_char c) + columns (row_bytes r)"
    by (simp add: row_bytes_def columns_def)
  ultimately show ?case using Cons by simp
qed

lemma banner_aligned:
  "map (map columns) banner_chars = map (replicate 6) [8, 9, 8, 3, 8, 8]"
  by (simp add: banner_chars_def letter_F_def letter_T_def letter_U_def letter_I_def letter_R_def
      letter_C_def columns_row_bytes byte_def numeral_eq_Suc)

end
