(* ===== verification/Program.thy ===== *)
theory Program
  imports Fairness Server_Authentication Banner
begin

section \<open>The program\<close>

text \<open>
  \<open>main.cpp\<close>: the command line, the exceptions that reach \<open>main\<close>, and the exit status. Arguments
  of the model are the argument vector, what the system answers while the socket is set up, and the
  rounds of the loop until the signal handler clears \<open>g_server_running\<close>. The lines are those that
  \<open>main\<close> itself writes (debug output aside); the last component is the server after its destructor, if one was built.
\<close>

definition BANNER :: int where "BANNER = 0"
definition PORTMIN :: int where "PORTMIN = 6665"
definition PORTMAX :: int where "PORTMAX = 6669"

definition show_long :: "int \<Rightarrow> string" where
  "show_long n = (if n < 0 then ''-'' @ decimal (nat (- n)) else decimal (nat n))"

definition atol :: "string \<Rightarrow> int" where
  "atol s = strtol s"

definition usage :: string where
  "usage = ''./Usage: ./ircserv <port[6665-6669]> <password>''"

definition main_program ::
  "string list \<Rightarrow> setup_input \<Rightarrow> round_input list \<Rightarrow> (int \<times> string list \<times> server option) option" where
  "main_program argv inp rds =
     (if length argv \<noteq> 3 then Some (1, [usage], None)
      else
        (let portInput = atol (argv ! 1) in
         if portInput < PORTMIN \<or> portInput > PORTMAX
         then Some (1, [''Error: Invalid Port ['' @ show_long portInput @ ''] detected.''], None)
         else
           (let p = sint (word_of_int portInput :: c_int) in
            case Server inp p (argv ! 2) of
              Inl e \<Rightarrow> Some (1, [''Error: '' @ e], None)
            | Inr srv \<Rightarrow>
                do {
                  shown \<leftarrow> (if BANNER \<noteq> 0 then map_option (\<lambda>b. [b]) printBannerTypewriter else Some []);
                  out \<leftarrow> ircLoop rds srv;
                  case out of
                    Inl (e, srv) \<Rightarrow>
                      do { srv \<leftarrow> destroy_Server srv; Some (1, shown @ [''Error: '' @ e], Some srv) }
                  | Inr srv \<Rightarrow> do { srv \<leftarrow> destroy_Server srv; Some (0, shown, Some srv) }
                })))"

subsection \<open>Results\<close>

text \<open>The calls of the socket set-up all succeed.\<close>

definition setup_works :: "setup_input \<Rightarrow> bool" where
  "setup_works inp \<longleftrightarrow> 0 \<le> sock inp \<and> 0 \<le> setOption inp \<and> 0 \<le> bindResult inp \<and> 0 \<le> listenResult inp"

lemma Server_works: "setup_works inp \<longleftrightarrow> (\<exists>srv. Server inp p pw = Inr srv)"
  by (auto simp: Server_result setup_works_def)

text \<open>
  C25. The program ends properly. With system calls that do what they document, \<open>main\<close> shows undefined
  behaviour if and only if \<open>ircLoop\<close> does: in some round \<open>send\<close> fails for the last entry of \<open>_pollfds\<close>,
  or there is nothing left to poll. Otherwise its exit status is 0 exactly if there are two arguments,
  the first reads as a port from 6665 to 6669, the socket was set up and no \<open>poll\<close> failed. If it is 1, one
  line says why, and whenever a server was built, its destructor has run to its end and freed every
  client.
\<close>

theorem main_status:
  assumes "env_ok rds"
  shows "case main_program argv inp rds of
      None \<Rightarrow> length argv = 3 \<and> atol (argv ! 1) \<in> {6665..6669}
        \<and> (\<exists>srv. Server inp (atol (argv ! 1)) (argv ! 2) = Inr srv \<and> undefined_in rds srv)
    | Some (status, ls, srv) \<Rightarrow>
        \<not> (length argv = 3 \<and> atol (argv ! 1) \<in> {6665..6669}
          \<and> (\<exists>srv. Server inp (atol (argv ! 1)) (argv ! 2) = Inr srv \<and> undefined_in rds srv))
        \<and> status = (if length argv = 3 \<and> atol (argv ! 1) \<in> {6665..6669} \<and> setup_works inp
          \<and> \<not> (\<exists>rd \<in> set rds. pollResult rd < 0) then 0 else 1)
        \<and> length ls = nat status
        \<and> (case srv of None \<Rightarrow> status = 1 | Some s \<Rightarrow> heap (serverState s) = [])"
proof (cases "length argv = 3 \<and> atol (argv ! 1) \<in> {6665..6669} \<and> setup_works inp")
  case False
  then show ?thesis
    by (auto simp: main_program_def Let_def PORTMIN_def PORTMAX_def setup_works_def Server_result)
next
  case True
  have p: "sint (word_of_int (atol (argv ! Suc 0)) :: c_int) = atol (argv ! Suc 0)"
    using True by (intro sint_of_small) auto
  obtain srv where srv: "Server inp (atol (argv ! 1)) (argv ! 2) = Inr srv" using True Server_works by blast
  obtain es t out where t: "rounds srv rds es t out" "ircLoop rds srv = result_of out t" "srv_ok t"
    by (rule ircLoop_rounds [OF Server_ok [OF srv] assms])
  have undef: "undefined_in rds srv \<longleftrightarrow> out = Undefined"
    using ircLoop_undefined [OF Server_ok [OF srv] assms] t(2) by (cases out) (simp_all add: result_of_def)
  have args: "length argv = 3" "\<not> (atol (argv ! 1) < PORTMIN \<or> atol (argv ! 1) > PORTMAX)"
    using True by (auto simp: PORTMIN_def PORTMAX_def)
  have run: "main_program argv inp rds =
      (case out of Undefined \<Rightarrow> None
       | Poll_failed \<Rightarrow> map_option (\<lambda>s. (1, [''Error: Poll failed.''], Some s)) (destroy_Server t)
       | Running \<Rightarrow> map_option (\<lambda>s. (0, [], Some s)) (destroy_Server t))"
    using args srv t(2) destroy_Server_ok [OF t(3)] unfolding main_program_def
    by (cases out) (simp_all add: Let_def p result_of_def BANNER_def)
  show ?thesis
    using run True srv undef rounds_poll [OF t(1)] destroy_Server_ok [OF t(3)]
    by (cases out) (simp_all add: ServerState_def)
qed

theorem main_status_witness:
  "\<exists>srv. main_program [''ircserv'', ''6667'', ''pw''] \<lparr>sock = 3, setOption = 0, bindResult = 0, listenResult = 0\<rparr>
     [sample_round, sample_round] = Some (0, [], srv)"
proof -
  let ?inp = "\<lparr>sock = 3, setOption = 0, bindResult = 0, listenResult = 0\<rparr>"
  have port: "atol ''6667'' = 6667" by code_simp
  have fine: "\<not> undefined_in [sample_round, sample_round] srv" if "Server ?inp 6667 ''pw'' = Inr srv" for srv
    using loop_progress [OF Server_ok [OF that] Server_listening [OF that] sample_env]
      ircLoop_undefined [OF Server_ok [OF that] sample_env] drains_sample by auto
  then show ?thesis
    using main_status [OF sample_env, of "[''ircserv'', ''6667'', ''pw'']" ?inp] port
    by (auto simp: setup_works_def sample_round_def split: option.splits)
qed

end
