(* ===== verification/Chat.thy ===== *)
theory Chat
  imports Handlers_Mode
begin

section \<open>The chat service\<close>

text \<open>
  What the server is for, without its data structures: a finite set of users, known by the descriptor
  of their connection, and the rooms they share. There is no heap, no nickname dictionary, no ordered
  set of pointers and no reply here, and a room is a value: who is in it, who runs it, who is invited
  and which restrictions apply. \<open>chat_step\<close> says what each command of a user means for the service.
  \<open>Chat_Refinement\<close> shows that the code implements it.
\<close>

subsection \<open>Users and rooms\<close>

record user =
  uNick :: string
  uName :: string
  uReal :: string
  uPass :: bool
  uIn :: bool

record room =
  rTopic :: string
  rInviteOnly :: bool
  rRestricted :: bool
  rKey :: "string option"
  rLimit :: "nat option"
  rMembers :: "int set"
  rOps :: "int set"
  rInvited :: "int set"

record chat =
  cPass :: string
  cUsers :: "int \<Rightarrow> user option"
  cRooms :: "string \<Rightarrow> room option"

definition put_user :: "int \<Rightarrow> user \<Rightarrow> chat \<Rightarrow> chat" where
  "put_user fd u C = C\<lparr>cUsers := (cUsers C)(fd := Some u)\<rparr>"

definition put_room :: "string \<Rightarrow> room option \<Rightarrow> chat \<Rightarrow> chat" where
  "put_room n R C = C\<lparr>cRooms := (cRooms C)(n := R)\<rparr>"

text \<open>The users with a nickname: at most one, as long as only commands change the service.\<close>

definition bearers :: "string \<Rightarrow> chat \<Rightarrow> int set" where
  "bearers n C = {fd. \<exists>u. cUsers C fd = Some u \<and> uNick u = n \<and> n \<noteq> ''''}"

subsection \<open>Coming and going\<close>

definition stranger :: user where
  "stranger = \<lparr>uNick = '''', uName = '''', uReal = '''', uPass = False, uIn = False\<rparr>"

definition chat_arrive :: "int \<Rightarrow> chat \<Rightarrow> chat" where
  "chat_arrive fd C = (if cUsers C fd = None then put_user fd stranger C else C)"

text \<open>A room without \<open>T\<close>; a room that nobody is left in ends.\<close>

definition without :: "int set \<Rightarrow> room \<Rightarrow> room option" where
  "without T R =
     (if rMembers R \<subseteq> T then None
      else Some (R\<lparr>rMembers := rMembers R - T, rOps := rOps R - T, rInvited := rInvited R - T\<rparr>))"

definition chat_leave :: "int \<Rightarrow> chat \<Rightarrow> chat" where
  "chat_leave fd C =
     C\<lparr>cUsers := (cUsers C)(fd := None),
       cRooms := (\<lambda>n. Option.bind (cRooms C n) (without {fd}))\<rparr>"

subsection \<open>Registering\<close>

definition enrol :: "user \<Rightarrow> user" where
  "enrol u = u\<lparr>uIn := uIn u \<or> uPass u \<and> uName u \<noteq> '''' \<and> uNick u \<noteq> ''''\<rparr>"

definition chat_pass :: "int \<Rightarrow> user \<Rightarrow> string list \<Rightarrow> chat \<Rightarrow> chat" where
  "chat_pass fd u ps C =
     (if ps \<noteq> [] \<and> \<not> uIn u \<and> ps ! 0 = cPass C then put_user fd (enrol (u\<lparr>uPass := True\<rparr>)) C else C)"

definition chat_nick :: "int \<Rightarrow> user \<Rightarrow> string list \<Rightarrow> chat \<Rightarrow> chat" where
  "chat_nick fd u ps C =
     (if ps \<noteq> [] \<and> isValidNick (ps ! 0) \<and> bearers (ps ! 0) C \<subseteq> {fd}
      then put_user fd (enrol (u\<lparr>uNick := ps ! 0\<rparr>)) C else C)"

definition chat_user :: "int \<Rightarrow> user \<Rightarrow> string list \<Rightarrow> chat \<Rightarrow> chat" where
  "chat_user fd u ps C =
     (if 4 \<le> length ps \<and> \<not> uIn u
      then put_user fd (enrol (u\<lparr>uName := ps ! 0, uReal := ps ! 3\<rparr>)) C else C)"

subsection \<open>Rooms\<close>

definition new_room :: "int \<Rightarrow> room" where
  "new_room fd = \<lparr>rTopic = '''', rInviteOnly = False, rRestricted = False, rKey = None, rLimit = None,
     rMembers = {fd}, rOps = {fd}, rInvited = {}\<rparr>"

definition admits :: "int \<Rightarrow> string \<Rightarrow> room \<Rightarrow> bool" where
  "admits fd key R \<longleftrightarrow>
     (rInviteOnly R \<longrightarrow> fd \<in> rInvited R)
     \<and> (case rKey R of None \<Rightarrow> True | Some k \<Rightarrow> key = k)
     \<and> (case rLimit R of None \<Rightarrow> True | Some l \<Rightarrow> card (rMembers R) < l)"

text \<open>\<open>mem\<close>: whether there is memory for a new room.\<close>

definition chat_enter :: "bool \<Rightarrow> int \<Rightarrow> string \<Rightarrow> string \<Rightarrow> chat \<Rightarrow> chat" where
  "chat_enter mem fd key n C =
     (if \<not> isValidChannelName n then C
      else
        (case cRooms C n of
           None \<Rightarrow> if mem then put_room n (Some (new_room fd)) C else C
         | Some R \<Rightarrow>
             if fd \<in> rMembers R \<or> \<not> admits fd key R then C
             else put_room n (Some (R\<lparr>rMembers := insert fd (rMembers R)\<rparr>)) C))"

definition chat_join :: "(nat \<Rightarrow> bool) \<Rightarrow> int \<Rightarrow> string list \<Rightarrow> chat \<Rightarrow> chat" where
  "chat_join mem fd ps C =
     (if ps = [] then C
      else
        (let keys = (if 1 < length ps then comma_split (ps ! 1) else []) in
         fold (\<lambda>(i, n). chat_enter (mem i) fd (if i < length keys then keys ! i else '''') n)
           (enumerate 0 (comma_split (ps ! 0))) C))"

definition chat_topic :: "int \<Rightarrow> string list \<Rightarrow> chat \<Rightarrow> chat" where
  "chat_topic fd ps C =
     (if length ps < 2 then C
      else
        (case cRooms C (ps ! 0) of
           None \<Rightarrow> C
         | Some R \<Rightarrow>
             if fd \<in> rMembers R \<and> (rRestricted R \<longrightarrow> fd \<in> rOps R)
             then put_room (ps ! 0) (Some (R\<lparr>rTopic := ps ! 1\<rparr>)) C else C))"

definition chat_invite :: "int \<Rightarrow> string list \<Rightarrow> chat \<Rightarrow> chat" where
  "chat_invite fd ps C =
     (if length ps < 2 then C
      else
        (case cRooms C (ps ! 1) of
           None \<Rightarrow> C
         | Some R \<Rightarrow>
             if fd \<in> rOps R
             then put_room (ps ! 1)
                    (Some (R\<lparr>rInvited := rInvited R \<union> (bearers (ps ! 0) C - rMembers R)\<rparr>)) C
             else C))"

definition chat_drop :: "int \<Rightarrow> string \<Rightarrow> string \<Rightarrow> chat \<Rightarrow> chat" where
  "chat_drop fd n nick C =
     (case cRooms C n of
        None \<Rightarrow> C
      | Some R \<Rightarrow> if fd \<in> rOps R then put_room n (without (bearers nick C \<inter> rMembers R) R) C else C)"

definition chat_kick :: "int \<Rightarrow> string list \<Rightarrow> chat \<Rightarrow> chat" where
  "chat_kick fd ps C =
     (if length ps < 2 then C else fold (chat_drop fd (ps ! 0)) (comma_split (ps ! 1)) C)"

subsection \<open>Modes\<close>

text \<open>One character of a mode string: the sign in force, the arguments left, and the room.\<close>

fun mode_char :: "chat \<Rightarrow> char \<Rightarrow> bool \<times> string list \<times> room \<Rightarrow> bool \<times> string list \<times> room" where
  "mode_char C x (add, ps, R) =
     (if x = CHR ''+'' then (True, ps, R)
      else if x = CHR ''-'' then (False, ps, R)
      else if x = CHR ''i'' then (add, ps, R\<lparr>rInviteOnly := add\<rparr>)
      else if x = CHR ''t'' then (add, ps, R\<lparr>rRestricted := add\<rparr>)
      else if x = CHR ''k'' then
        (if add then (case ps of [] \<Rightarrow> (add, [], R) | k # ps \<Rightarrow> (add, ps, R\<lparr>rKey := Some k\<rparr>))
         else if rKey R = None then (add, ps, R) else (add, tl ps, R\<lparr>rKey := None\<rparr>))
      else if x = CHR ''l'' then
        (if add then
           (case ps of [] \<Rightarrow> (add, [], R)
            | l # ps \<Rightarrow>
                (add, ps, if 0 <s atoi l then R\<lparr>rLimit := Some (nat (sint (atoi l)))\<rparr> else R))
         else (add, ps, R\<lparr>rLimit := None\<rparr>))
      else if x = CHR ''o'' then
        (case ps of [] \<Rightarrow> (add, [], R)
         | n # ps \<Rightarrow>
             (let T = bearers n C \<inter> rMembers R
              in (add, ps, R\<lparr>rOps := (if add then rOps R \<union> T else rOps R - T)\<rparr>)))
      else (add, ps, R))"

definition chat_mode :: "int \<Rightarrow> string list \<Rightarrow> chat \<Rightarrow> chat" where
  "chat_mode fd ps C =
     (if length ps < 2 then C
      else
        (case cRooms C (ps ! 0) of
           None \<Rightarrow> C
         | Some R \<Rightarrow>
             if fd \<in> rOps R
             then put_room (ps ! 0) (Some (snd (snd (fold (mode_char C) (ps ! 1) (True, drop 2 ps, R))))) C
             else C))"

subsection \<open>Commands\<close>

text \<open>
  Unknown users do nothing, users that are not registered only register, and every command not listed
  leaves the service as it is.
\<close>

definition chat_step :: "(nat \<Rightarrow> bool) \<Rightarrow> int \<Rightarrow> message \<Rightarrow> chat \<Rightarrow> chat" where
  "chat_step mem fd m C =
     (case cUsers C fd of
        None \<Rightarrow> C
      | Some u \<Rightarrow>
          (let cmd = command m; ps = params m in
           if cmd = ''PASS'' then chat_pass fd u ps C
           else if cmd = ''NICK'' then chat_nick fd u ps C
           else if cmd = ''USER'' then chat_user fd u ps C
           else if \<not> uIn u then C
           else if cmd = ''JOIN'' then chat_join mem fd ps C
           else if cmd = ''TOPIC'' then chat_topic fd ps C
           else if cmd = ''INVITE'' then chat_invite fd ps C
           else if cmd = ''KICK'' then chat_kick fd ps C
           else if cmd = ''MODE'' then chat_mode fd ps C
           else C))"

lemma put_user_simps [simp]:
  "cPass (put_user fd u C) = cPass C" "cRooms (put_user fd u C) = cRooms C"
  "cUsers (put_user fd u C) = (cUsers C)(fd := Some u)"
  by (simp_all add: put_user_def)

lemma put_room_simps [simp]:
  "cPass (put_room n R C) = cPass C" "cUsers (put_room n R C) = cUsers C"
  "cRooms (put_room n R C) = (cRooms C)(n := R)"
  by (simp_all add: put_room_def)

lemma put_room_same: "cRooms C n = R \<Longrightarrow> put_room n R C = C"
  by (auto simp: put_room_def)

lemma chat_eqI:
  "cPass C = cPass D \<Longrightarrow> (\<And>fd. cUsers C fd = cUsers D fd) \<Longrightarrow> (\<And>n. cRooms C n = cRooms D n) \<Longrightarrow> C = (D :: chat)"
  by (simp add: fun_eq_iff)

lemma bearers_put_room [simp]: "bearers n (put_room k R C) = bearers n C"
  by (simp add: bearers_def)

end
