(* ===== verification/Chat_Refinement.thy ===== *)
theory Chat_Refinement
  imports Chat Dispatcher
begin

section \<open>The server implements the chat service\<close>

text \<open>
  The abstraction function reads the chat service off a server state: a connection is its descriptor,
  a pointer in a channel is the descriptor of the client it points to. Every operation of
  \<open>ServerState\<close> and every command handler commutes with it.
\<close>

subsection \<open>Abstraction\<close>

definition abs_user :: "client \<Rightarrow> user" where
  "abs_user c = \<lparr>uNick = nickname c, uName = username c, uReal = realname c, uPass = passAccepted c,
     uIn = registered c\<rparr>"

definition abs_room :: "server_state \<Rightarrow> channel \<Rightarrow> room" where
  "abs_room s ch = \<lparr>rTopic = chTopic ch, rInviteOnly = inviteOnly (chModes ch),
     rRestricted = topicRestricted (chModes ch),
     rKey = (if channelProtected (chModes ch) then Some (channelPass (chModes ch)) else None),
     rLimit = (if memberLimited (chModes ch) then Some (limit_of (chModes ch)) else None),
     rMembers = fd_of s ` set (members ch), rOps = fd_of s ` set (operators ch),
     rInvited = fd_of s ` set (invited ch)\<rparr>"

definition abs_chat :: "server_state \<Rightarrow> chat" where
  "abs_chat s = \<lparr>cPass = password s,
     cUsers = (\<lambda>fd. map_option abs_user (deref s (getClientByFd fd s))),
     cRooms = (\<lambda>n. map_option (abs_room s) (findChannel n s))\<rparr>"

lemma abs_user_simps [simp]:
  "uNick (abs_user c) = nickname c" "uName (abs_user c) = username c" "uReal (abs_user c) = realname c"
  "uPass (abs_user c) = passAccepted c" "uIn (abs_user c) = registered c"
  by (simp_all add: abs_user_def)

lemma abs_chat_simps [simp]:
  "cPass (abs_chat s) = password s"
  "cUsers (abs_chat s) fd = map_option abs_user (deref s (getClientByFd fd s))"
  "cRooms (abs_chat s) n = map_option (abs_room s) (findChannel n s)"
  by (simp_all add: abs_chat_def)

lemma abs_room_simps [simp]:
  "rTopic (abs_room s ch) = chTopic ch" "rInviteOnly (abs_room s ch) = inviteOnly (chModes ch)"
  "rRestricted (abs_room s ch) = topicRestricted (chModes ch)"
  "rMembers (abs_room s ch) = fd_of s ` set (members ch)"
  "rOps (abs_room s ch) = fd_of s ` set (operators ch)"
  "rInvited (abs_room s ch) = fd_of s ` set (invited ch)"
  by (simp_all add: abs_room_def)

text \<open>A room depends only on the descriptors of the clients in it.\<close>

lemma abs_room_cong:
  "(\<And>p. p \<in> set (members ch) \<union> set (operators ch) \<union> set (invited ch) \<Longrightarrow> fd_of s' p = fd_of s p) \<Longrightarrow>
    abs_room s' ch = abs_room s ch"
  by (simp add: abs_room_def)

lemma fd_of_same: "deref s' p = deref s p \<Longrightarrow> fd_of s' p = fd_of s p"
  by (simp add: fd_of_def)

lemma abs_room_heap: "heap s' = heap s \<Longrightarrow> abs_room s' = abs_room s"
  using deref_cong [of s' s] by (auto simp: fun_eq_iff intro!: abs_room_cong fd_of_same)

lemma entry_ok_refs:
  "entry_ok s n ch \<Longrightarrow> p \<in> set (members ch) \<union> set (operators ch) \<union> set (invited ch) \<Longrightarrow> deref s p \<noteq> None"
  unfolding entry_ok_def channel_ok_def by blast

lemma fd_of_mem:
  assumes "dir_ok s" "deref s p = Some c" and "\<And>q. q \<in> A \<Longrightarrow> deref s q \<noteq> None"
  shows "socketFd c \<in> fd_of s ` A \<longleftrightarrow> p \<in> A"
proof -
  have "inj_on (fd_of s) (insert p A)" by (rule fd_of_inj) (use assms in auto)
  moreover have "fd_of s p = socketFd c" using assms(2) by (simp add: fd_of_def)
  ultimately show ?thesis by (metis inj_on_image_mem_iff insertI1 subset_insertI)
qed

lemma abs_room_mem:
  assumes "dir_ok s" "entry_ok s n ch" "deref s p = Some c"
  shows "socketFd c \<in> fd_of s ` set (members ch) \<longleftrightarrow> p \<in> set (members ch)"
    "socketFd c \<in> fd_of s ` set (operators ch) \<longleftrightarrow> p \<in> set (operators ch)"
    "socketFd c \<in> fd_of s ` set (invited ch) \<longleftrightarrow> p \<in> set (invited ch)"
  using entry_ok_refs [OF assms(2)] by (auto intro!: fd_of_mem [OF assms(1,3)] del: iffI)

lemma abs_put_room: "abs_chat (putChannel n ch s) = put_room n (Some (abs_room s ch)) (abs_chat s)"
  by (rule chat_eqI) (simp_all add: abs_room_heap [of "putChannel n ch s" s])

text \<open>The nickname dictionary finds the bearer of a nickname.\<close>

lemma bearers_abs:
  assumes "dir_ok s"
  shows "bearers n (abs_chat s)
    = (if getClientByNick n s = NULL then {} else {fd_of s (getClientByNick n s)})"
proof -
  let ?q = "getClientByNick n s"
  have live: "\<exists>c. deref s ?q = Some c \<and> nickname c = n \<and> n \<noteq> [] \<and> getClientByFd (socketFd c) s = ?q
      \<and> fd_of s ?q = socketFd c" if "?q \<noteq> NULL"
    using dirs.by_nick_live [OF assms that] dirs.live_by_fd [OF assms] by (auto simp: fd_of_def)
  have found: "?q \<noteq> NULL \<and> fd = fd_of s ?q"
    if "deref s (getClientByFd fd s) = Some c" "nickname c = n" "n \<noteq> []" for fd c
    using that dirs.live_by_nick [OF assms that(1)] dirs.live_not_null [OF assms that(1)]
      dirs.by_fd_live [OF assms, of fd] by (auto simp: fd_of_def)
  have "f \<in> (if ?q = NULL then {} else {fd_of s ?q})" if "f \<in> bearers n (abs_chat s)" for f
  proof -
    from that obtain c where "deref s (getClientByFd f s) = Some c" "nickname c = n" "n \<noteq> []"
      by (auto simp: bearers_def)
    from found [OF this] show ?thesis by (metis singletonI)
  qed
  then have "bearers n (abs_chat s) \<subseteq> (if ?q = NULL then {} else {fd_of s ?q})" by (rule subsetI)
  moreover have "fd_of s ?q \<in> bearers n (abs_chat s)" if "?q \<noteq> NULL"
    using live [OF that] by (auto simp: bearers_def)
  ultimately show ?thesis by auto
qed

text \<open>Writing a client whose descriptor stays the same is writing a user.\<close>

lemma abs_store:
  assumes ok: "dir_ok s" and c: "deref s p = Some c" and fd: "socketFd c' = socketFd c"
  shows "abs_chat (store p c' s) = put_user (socketFd c) (abs_user c') (abs_chat s)"
proof (rule chat_eqI)
  fix f
  have "getClientByFd f s = p \<longleftrightarrow> f = socketFd c"
    using dirs.live_by_fd [OF ok c] dirs.by_fd_live [OF ok, of f] dirs.live_not_null [OF ok c] c
    by (metis option.inject)
  then show "cUsers (abs_chat (store p c' s)) f = cUsers (put_user (socketFd c) (abs_user c') (abs_chat s)) f"
    by simp
next
  fix n
  have "fd_of (store p c' s) q = fd_of s q" for q using c fd by (simp add: fd_of_def)
  then have "abs_room (store p c' s) = abs_room s" by (intro ext abs_room_cong)
  then show "cRooms (abs_chat (store p c' s)) n = cRooms (put_user (socketFd c) (abs_user c') (abs_chat s)) n"
    by simp
qed simp

subsection \<open>Registering\<close>

text \<open>The client that issues a command: found by its descriptor, and live.\<close>

definition issuer :: "server_state \<Rightarrow> int \<Rightarrow> ptr \<Rightarrow> client \<Rightarrow> bool" where
  "issuer s fd p c \<longleftrightarrow> state_ok s \<and> getClientByFd fd s = p \<and> p \<noteq> NULL \<and> deref s p = Some c"

lemma issuerD:
  assumes "issuer s fd p c"
  shows "state_ok s" "dir_ok s" "getClientByFd fd s = p" "p \<noteq> NULL" "0 < p" "deref s p = Some c" "socketFd c = fd"
    "client_ok c"
  using assms dirs.by_fd_live [of s fd] dirs.live_ok [of s p c]
  by (auto simp: issuer_def state_ok_dir)

lemma put_user_twice [simp]: "put_user fd u (put_user fd v C) = put_user fd u C"
  by (simp add: put_user_def)

lemma enrol_abs: "abs_user (snd (tryRegister c)) = enrol (abs_user c)"
  by (auto simp: abs_user_def enrol_def tryRegister_registered complete_def)

lemma register_refines:
  assumes "dir_ok s" "deref s p = Some c" "register_step fd p r s = Some (r', s')"
  shows "abs_chat s' = put_user (socketFd c) (enrol (abs_user c)) (abs_chat s)"
  using assms register_step_result [OF assms(2), of fd r] abs_store [OF assms(1,2), of "snd (tryRegister c)"]
  by (auto simp: enrol_abs Let_def)

lemma pass_refines:
  assumes i: "issuer s fd p c" and run: "handlePass fd m s = Some (r, s')"
  shows "abs_chat s' = chat_pass fd (abs_user c) (params m) (abs_chat s)"
proof (cases "params m \<noteq> [] \<and> \<not> registered c \<and> params m ! 0 = password s")
  case False
  with run issuerD [OF i] show ?thesis
    by (auto simp: handlePass_def chat_pass_def getParamCount_def getSingleParam_def isRegistered_def
        isCorrectPassword_def Let_def split: if_splits)
next
  case True
  note I = issuerD [OF i]
  let ?c = "acceptPassword c"
  have c: "socketFd ?c = socketFd c" "nickname ?c = nickname c" "client_ok ?c"
      "abs_user ?c = (abs_user c)\<lparr>uPass := True\<rparr>"
    using I(8) by (simp_all add: acceptPassword_def abs_user_def client_ok_pass [unfolded acceptPassword_def])
  have "register_step fd p CommandResult (store p ?c s) = Some (r, s')"
    using run True I by (simp add: handlePass_def getParamCount_def getSingleParam_def isRegistered_def
        isCorrectPassword_def Let_def)
  from register_refines [OF dir_ok_store [OF I(2,6)] _ this] c I True abs_store [OF I(2,6), of ?c]
  show ?thesis by (simp add: chat_pass_def)
qed

lemma user_refines:
  assumes i: "issuer s fd p c" and m: "message_lf_free m" and run: "handleUser fd m s = Some (r, s')"
  shows "abs_chat s' = chat_user fd (abs_user c) (params m) (abs_chat s)"
proof (cases "4 \<le> length (params m) \<and> \<not> registered c")
  case False
  with run issuerD [OF i] show ?thesis
    by (auto simp: handleUser_def chat_user_def getParamCount_def getSingleParam_def isRegistered_def
        Let_def split: if_splits)
next
  case True
  note I = issuerD [OF i]
  let ?c = "setRealName (params m ! 3) (setUserName (params m ! 0) c)"
  have len: "0 < length (params m)" "3 < length (params m)" "\<not> length (params m) < 4"
    using True by linarith+
  have c: "socketFd ?c = socketFd c" "nickname ?c = nickname c" "client_ok ?c"
      "abs_user ?c = (abs_user c)\<lparr>uName := params m ! 0, uReal := params m ! 3\<rparr>"
    using I(8) True len param_lf_free [OF m]
    by (simp_all add: setRealName_def setUserName_def abs_user_def
        client_ok_user [unfolded setRealName_def setUserName_def])
  have "register_step fd p CommandResult (store p ?c s) = Some (r, s')"
    using run True len I by (simp add: handleUser_def getParamCount_def getSingleParam_def isRegistered_def Let_def)
  from register_refines [OF dir_ok_store [OF I(2,6)] _ this] c I True abs_store [OF I(2,6), of ?c]
  show ?thesis by (simp add: chat_user_def)
qed

lemma abs_nicks [simp]: "abs_chat (s\<lparr>clientsByNick := X\<rparr>) = abs_chat s"
  by (rule chat_eqI) (simp_all add: getClientByFd_def abs_room_heap [of "s\<lparr>clientsByNick := X\<rparr>" s])

lemma store_nicks: "store p c (s\<lparr>clientsByNick := X\<rparr>) = (store p c s)\<lparr>clientsByNick := X\<rparr>"
  by (simp add: store_def)

lemma free_nick:
  assumes i: "issuer s fd p c"
  shows "bearers n (abs_chat s) \<subseteq> {fd} \<longleftrightarrow> getClientByNick n s = NULL \<or> getClientByNick n s = p"
proof -
  note I = issuerD [OF i]
  have "fd_of s p = fd" using I by (simp add: fd_of_def)
  moreover have "getClientByNick n s = p" if q: "getClientByNick n s \<noteq> NULL" "fd_of s (getClientByNick n s) = fd"
  proof -
    obtain d where d: "deref s (getClientByNick n s) = Some d"
      using dirs.by_nick_live [OF I(2) q(1)] by blast
    with q(2) have "socketFd d = fd" by (simp add: fd_of_def)
    with dirs.live_by_fd [OF I(2) d] I(3) show ?thesis by simp
  qed
  ultimately show ?thesis by (auto simp: bearers_abs [OF I(2)])
qed

lemma nick_refines:
  assumes i: "issuer s fd p c" and run: "handleNick fd m s = Some (r, s')"
  shows "abs_chat s' = chat_nick fd (abs_user c) (params m) (abs_chat s)"
proof -
  note I = issuerD [OF i]
  let ?n = "params m ! 0" and ?c = "c\<lparr>nickname := params m ! 0\<rparr>"
  have ex: "isNicknameExist ?n s \<longleftrightarrow> getClientByNick ?n s \<noteq> NULL"
    using getClientByNick_NULL [OF I(2), of ?n] by (auto simp: isNicknameExist_def split: option.split)
  show ?thesis
  proof (cases "params m \<noteq> [] \<and> isValidNick ?n \<and> bearers ?n (abs_chat s) \<subseteq> {fd}")
    case False
    with run I ex free_nick [OF i] show ?thesis
      by (auto simp: handleNick_def chat_nick_def getParamCount_def getSingleParam_def Let_def split: if_splits)
  next
    case True
    then have n: "isValidNick ?n" and free: "getClientByNick ?n s \<in> {NULL, p}" and len: "0 < length (params m)"
      using free_nick [OF i] by auto
    obtain s1 where s1: "updateNickname p ?n s = Some (True, s1)" "state_ok s1" "deref s1 p = Some ?c"
      using updateNickname_effect [OF I(1,6) n] free by auto
    have "abs_chat s1 = put_user fd (abs_user ?c) (abs_chat s)"
    proof (cases "?n = nickname c")
      case same: True
      then have "s1 = s" using s1(1) free unfolding updateNickname_result [OF I(2,6)]
        by (auto split: if_splits)
      moreover have "put_user fd (abs_user ?c) (abs_chat s) = abs_chat s"
        using I same by (intro chat_eqI) (auto simp: abs_user_def)
      ultimately show ?thesis by simp
    next
      case False
      then have "abs_chat s1 = abs_chat (store p (setNickByServerState ?n c) s)"
        using s1(1) unfolding updateNickname_result [OF I(2,6)]
        by (auto simp: store_nicks simp del: id_apply split: if_split_asm)
      then show ?thesis
        using abs_store [OF I(2,6), of "setNickByServerState ?n c"] I
        by (simp add: setNickByServerState_def)
    qed
    moreover have "register_step fd p CommandResult s1 = Some (r, s')"
      using run True n free len s1 I
      by (auto simp: handleNick_def getParamCount_def getSingleParam_def Let_def)
    note register_refines [OF state_ok_dir [OF s1(2)] s1(3) this]
    moreover have "abs_user ?c = (abs_user c)\<lparr>uNick := ?n\<rparr>" by (simp add: abs_user_def)
    ultimately show ?thesis using True I by (simp add: chat_nick_def)
  qed
qed

subsection \<open>Topics and invitations\<close>

lemma issuer_in_room:
  assumes i: "issuer s fd p c" and ch: "findChannel n s = Some ch"
  shows "fd \<in> fd_of s ` set (members ch) \<longleftrightarrow> p \<in> set (members ch)"
    "fd \<in> fd_of s ` set (operators ch) \<longleftrightarrow> p \<in> set (operators ch)"
    "fd \<in> fd_of s ` set (invited ch) \<longleftrightarrow> p \<in> set (invited ch)"
  using abs_room_mem [of s n ch p c] issuerD [OF i] findChannel_entry [of s n ch] ch by auto

lemma operators_members: "state_ok s \<Longrightarrow> findChannel n s = Some ch \<Longrightarrow> set (operators ch) \<subseteq> set (members ch)"
  using findChannel_entry [of s n ch] by (auto simp: entry_ok_def channel_ok_def)

lemma topic_refines:
  assumes i: "issuer s fd p c" and run: "handleTopic fd m s = Some (r, s')"
  shows "abs_chat s' = chat_topic fd (params m) (abs_chat s)"
proof -
  note I = issuerD [OF i]
  have topic: "abs_room s (setChannelTopic t ch) = (abs_room s ch)\<lparr>rTopic := t\<rparr>" for t ch
    by (simp add: abs_room_def setChannelTopic_def)
  show ?thesis
  proof (cases "topic_change p (params m) s")
    case None
    with run handleTopic_result [OF I(1,3,4,6), of m] have "s' = s" by simp
    with None issuer_in_room [OF i, of "params m ! 0"] show ?thesis
      by (cases "findChannel (params m ! 0) s") (auto simp: chat_topic_def topic_change_def split: if_splits)
  next
    case (Some x)
    then obtain ch t where x: "topic_change p (params m) s = Some (ch, t)" by (cases x) simp
    with run handleTopic_result [OF I(1,3,4,6), of m]
    have "s' = putChannel (params m ! 0) (setChannelTopic t ch) s" by simp
    with topic_changeD [OF x] issuer_in_room [OF i, of "params m ! 0" ch] show ?thesis
      by (simp add: chat_topic_def abs_put_room topic)
  qed
qed

lemma at_most_one:
  assumes B: "B = (if q = z then {} else {f q})" and z: "z \<notin> A" and mem: "q \<noteq> z \<Longrightarrow> f q \<in> f ` A \<longleftrightarrow> q \<in> A"
  shows "B \<inter> f ` A = (if q \<in> A then {f q} else {}) \<and> B - f ` A = (if q = z \<or> q \<in> A then {} else {f q})"
proof (cases "q = z")
  case True
  with B z show ?thesis by simp
next
  case False
  with B mem show ?thesis by (cases "q \<in> A") (simp_all add: insert_Diff_if)
qed

lemma bearer_in_room:
  assumes ok: "state_ok s" and ch: "findChannel n s = Some ch"
  shows "bearers k (abs_chat s) \<inter> fd_of s ` set (members ch)
    = (if getClientByNick k s \<in> set (members ch) then {fd_of s (getClientByNick k s)} else {})"
    "bearers k (abs_chat s) - fd_of s ` set (members ch)
    = (if getClientByNick k s = NULL \<or> getClientByNick k s \<in> set (members ch) then {}
       else {fd_of s (getClientByNick k s)})"
proof -
  let ?q = "getClientByNick k s"
  note d = state_ok_dir [OF ok]
  have e: "entry_ok s n ch" using findChannel_entry [OF ok ch] by blast
  have null: "NULL \<notin> set (members ch)" using entry_ok_live [OF e, of NULL] dir_ok_null [OF d] by blast
  have mem: "fd_of s ?q \<in> fd_of s ` set (members ch) \<longleftrightarrow> ?q \<in> set (members ch)" if q: "?q \<noteq> NULL"
  proof -
    obtain t where t: "deref s ?q = Some t" using dirs.by_nick_live [OF d q] by metis
    with abs_room_mem(1) [OF d e t] show ?thesis by (simp add: fd_of_Some)
  qed
  show "bearers k (abs_chat s) \<inter> fd_of s ` set (members ch)
      = (if ?q \<in> set (members ch) then {fd_of s ?q} else {})"
    and "bearers k (abs_chat s) - fd_of s ` set (members ch)
      = (if ?q = NULL \<or> ?q \<in> set (members ch) then {} else {fd_of s ?q})"
    using at_most_one [OF bearers_abs [OF d] null mem] by blast+
qed

lemma invite_refines:
  assumes i: "issuer s fd p c" and run: "handleInvite fd m s = Some (r, s')"
  shows "abs_chat s' = chat_invite fd (params m) (abs_chat s)"
proof -
  note I = issuerD [OF i]
  have inv: "abs_room s (invite_in q ch) = (abs_room s ch)\<lparr>rInvited := rInvited (abs_room s ch) \<union> {fd_of s q}\<rparr>"
    for q ch
    by (simp add: abs_room_def invite_in_def std_set_simps)
  have already: "(abs_room s ch)\<lparr>rInvited := rInvited (abs_room s ch) \<union> {fd_of s q}\<rparr> = abs_room s ch"
    if "q \<in> set (invited ch)" for q ch
    using that by (simp add: abs_room_def insert_absorb)
  show ?thesis
  proof (cases "invite_change p (params m) s")
    case None
    with run handleInvite_refused [OF I(3,4,6)] have "s' = s" by simp
    moreover have "(abs_room s ch)\<lparr>rInvited := rInvited (abs_room s ch) \<union> {}\<rparr> = abs_room s ch" for ch
      by simp
    ultimately show ?thesis
    proof (cases "2 \<le> length (params m) \<and> findChannel (params m ! 1) s \<noteq> None")
      case True
      then obtain ch where ch: "2 \<le> length (params m)" "findChannel (params m ! 1) s = Some ch" by blast
      have "bearers (params m ! 0) (abs_chat s) - fd_of s ` set (members ch) = {}" if "p \<in> set (operators ch)"
        using that operators_members [OF I(1) ch(2)] None ch bearer_in_room(2) [OF I(1) ch(2), of "params m ! 0"]
        by (auto simp: invite_change_def Let_def split: if_splits)
      then have "p \<in> set (operators ch) \<Longrightarrow> (abs_room s ch)\<lparr>rInvited := fd_of s ` set (invited ch)
          \<union> (bearers (params m ! 0) (abs_chat s) - fd_of s ` set (members ch))\<rparr> = abs_room s ch"
        by (auto simp: abs_room_def)
      with ch issuer_in_room [OF i ch(2)] \<open>s' = s\<close> show ?thesis
        by (simp add: chat_invite_def put_room_same)
    qed (auto simp: chat_invite_def)
  next
    case (Some x)
    then obtain ch q where x: "invite_change p (params m) s = Some (ch, q)" by (cases x) simp
    note X = invite_changeD [OF x]
    then obtain t where "deref s q = Some t" using dirs.by_nick_live [OF I(2)] by blast
    with run handleInvite_accepted [OF I(1,3,4,6) x]
    have s': "s' = (if q \<in> set (invited ch) then s else putChannel (params m ! 1) (invite_in q ch) s)"
      by (simp split: if_splits)
    have spec: "chat_invite fd (params m) (abs_chat s) = put_room (params m ! 1)
        (Some ((abs_room s ch)\<lparr>rInvited := rInvited (abs_room s ch) \<union> {fd_of s q}\<rparr>)) (abs_chat s)"
    proof -
      have "bearers (params m ! 0) (abs_chat s) - fd_of s ` set (members ch) = {fd_of s q}"
        using X bearer_in_room(2) [OF I(1), of "params m ! 1" ch "params m ! 0"] by auto
      then show ?thesis
        using X issuer_in_room [OF i, of "params m ! 1" ch] by (simp add: chat_invite_def)
    qed
    show ?thesis
    proof (cases "q \<in> set (invited ch)")
      case True
      with X show ?thesis unfolding s' spec by (simp only: already) (simp add: put_room_same)
    next
      case False
      then show ?thesis unfolding s' spec by (simp only: if_False abs_put_room inv)
    qed
  qed
qed

subsection \<open>Joining\<close>

lemma room_size:
  assumes "state_ok s" "findChannel n s = Some ch"
  shows "card (fd_of s ` set (members ch)) = length (members ch)"
proof -
  have e: "entry_ok s n ch" using findChannel_entry [OF assms] by blast
  have "inj_on (fd_of s) (set (members ch))"
    using entry_ok_live [OF e] by (intro fd_of_inj state_ok_dir [OF assms(1)])
  moreover have "distinct (members ch)"
    using e set_ok_distinct by (auto simp: entry_ok_def channel_ok_def)
  ultimately show ?thesis by (simp add: card_image distinct_card)
qed

lemma admits_abs:
  assumes i: "issuer s fd p c" and ch: "findChannel n s = Some ch"
  shows "admits fd key (abs_room s ch) \<longleftrightarrow> join_error p key ch = None"
proof -
  have "card (rMembers (abs_room s ch)) = length (members ch)"
    using room_size [OF _ ch] issuerD(1) [OF i] by simp
  then show ?thesis
    using issuer_in_room(3) [OF i ch]
    by (simp add: admits_def join_error_def abs_room_def not_le)
qed

lemma abs_room_joined:
  "abs_room s (joined p ch) = (abs_room s ch)\<lparr>rMembers := insert (fd_of s p) (fd_of s ` set (members ch))\<rparr>"
  by (simp add: abs_room_def joined_def std_set_simps)

lemma abs_room_created: "abs_room s (created n p) = new_room (fd_of s p)"
  by (simp add: abs_room_def created_def Channel_def ChannelModes_def new_room_def)

lemma join_one_refines:
  assumes i: "issuer s fd p c"
  shows "abs_chat (snd (join_spec mem fd p c n key s)) = chat_enter mem fd key n (abs_chat s)"
proof -
  note I = issuerD [OF i]
  have p: "fd_of s p = fd" using I by (simp add: fd_of_Some)
  show ?thesis
  proof (cases "isValidChannelName n \<and> findChannel n s \<noteq> None")
    case False
    then show ?thesis
      by (auto simp: join_spec_def chat_enter_def abs_put_room abs_room_created p Let_def)
  next
    case True
    then obtain ch where ch: "isValidChannelName n" "findChannel n s = Some ch" by blast
    with issuer_in_room(1) [OF i ch(2)] admits_abs [OF i ch(2)] show ?thesis
      by (cases "p \<in> set (members ch)"; cases "join_error p key ch")
        (simp_all add: join_spec_def chat_enter_def abs_put_room abs_room_joined p Let_def)
  qed
qed

lemma join_spec_issuer:
  assumes "issuer s fd p c" "registered c"
  shows "issuer (snd (join_spec mem fd p c n key s)) fd p c"
proof -
  note I = issuerD [OF assms(1)]
  have "heap (snd (join_spec mem fd p c n key s)) = heap s"
    "clientsByFd (snd (join_spec mem fd p c n key s)) = clientsByFd s"
    by (auto simp: join_spec_def Let_def split: option.split)
  then show ?thesis
    using I assms(2) state_ok_join_spec [OF I(1,6)]
    by (simp add: issuer_def deref_def getClientByFd_def)
qed

lemma join_all_refines:
  assumes "issuer s fd p c" "registered c" "for_each (join_target mem fd p m) xs (r, s) = Some (r', s')"
  shows "abs_chat s' = fold (\<lambda>(i, n). chat_enter (mem i) fd
      (if i < length (join_keys m) then join_keys m ! i else '''') n) xs (abs_chat s)"
  using assms
proof (induction xs arbitrary: r s)
  case Nil
  then show ?case by simp
next
  case (Cons x xs)
  obtain j n where x: "x = (j, n)" by (cases x)
  let ?key = "if j < length (join_keys m) then join_keys m ! j else ''''"
  let ?j = "join_spec (mem j) fd p c n ?key s"
  note I = issuerD [OF Cons.prems(1)]
  have "join_target mem fd p m x (r, s) = Some (addReplies (fst ?j) r, snd ?j)"
    using joinSingleChannel_result [OF I(1,6) Cons.prems(2)] by (simp add: join_target_def x)
  with Cons.prems(3) have "for_each (join_target mem fd p m) xs (addReplies (fst ?j) r, snd ?j) = Some (r', s')"
    by simp
  from Cons.IH [OF join_spec_issuer [OF Cons.prems(1,2)] Cons.prems(2) this]
    join_one_refines [OF Cons.prems(1)]
  show ?case by (simp add: x)
qed

lemma join_refines:
  assumes i: "issuer s fd p c" and reg: "registered c" and run: "handleJoin mem fd m s = Some (r, s')"
  shows "abs_chat s' = chat_join mem fd (params m) (abs_chat s)"
proof (cases "params m = []")
  case True
  with run issuerD [OF i] show ?thesis
    by (auto simp: handleJoin_def getParamCount_def chat_join_def Let_def)
next
  case False
  note I = issuerD [OF i]
  have "for_each (join_target mem fd p m) (enumerate 0 (comma_split (params m ! 0))) (CommandResult, s)
      = Some (r, s')"
    using run handleJoin_loop [of fd s c m mem] I False by simp
  from join_all_refines [OF i reg this] False show ?thesis
    by (simp add: chat_join_def join_keys_def Let_def case_prod_beta' cong: if_cong)
qed

subsection \<open>Kicking\<close>

lemma abs_room_dropped:
  assumes "state_ok s" "findChannel n s = Some ch" "deref s q = Some t"
  shows "map_option (abs_room s) (if members (drop_client q ch) = [] then None else Some (drop_client q ch))
    = without {fd_of s q} (abs_room s ch)"
proof -
  note d = state_ok_dir [OF assms(1)]
  have e: "entry_ok s n ch" using findChannel_entry [OF assms(1,2)] by blast
  have minus: "fd_of s ` (A - {q}) = fd_of s ` A - {fd_of s q}"
    if "A \<subseteq> set (members ch) \<union> set (operators ch) \<union> set (invited ch)" for A
  proof -
    have "inj_on (fd_of s) (insert q A)"
      by (rule fd_of_inj [OF d]) (use that entry_ok_refs [OF e] assms(3) in blast)
    then show ?thesis by (auto simp: inj_on_def)
  qed
  have sets: "fd_of s ` set (members (drop_client q ch)) = fd_of s ` set (members ch) - {fd_of s q}"
    "fd_of s ` set (operators (drop_client q ch)) = fd_of s ` set (operators ch) - {fd_of s q}"
    "fd_of s ` set (invited (drop_client q ch)) = fd_of s ` set (invited ch) - {fd_of s q}"
    using minus [of "set (members ch)"] minus [of "set (operators ch)"] minus [of "set (invited ch)"]
    by (simp_all add: std_set_simps le_supI1)
  then have none: "members (drop_client q ch) = [] \<longleftrightarrow> fd_of s ` set (members ch) \<subseteq> {fd_of s q}"
    by (metis Diff_eq_empty_iff image_is_empty set_empty)
  have "abs_room s (drop_client q ch) = (abs_room s ch)\<lparr>rMembers := fd_of s ` set (members ch) - {fd_of s q},
      rOps := fd_of s ` set (operators ch) - {fd_of s q}, rInvited := fd_of s ` set (invited ch) - {fd_of s q}\<rparr>"
    using sets by (simp only: abs_room_def drop_client_simps(5,6) room.update_convs)
  with none show ?thesis by (simp only: without_def abs_room_simps option.map split: if_split) blast
qed

lemma without_nothing: "rMembers R \<noteq> {} \<Longrightarrow> without {} R = Some R"
  by (simp add: without_def)

lemma kick_one_refines:
  assumes i: "issuer s fd p c"
  shows "abs_chat (snd (kick_spec fd p c n reason nick s)) = chat_drop fd n nick (abs_chat s)"
proof (rule chat_eqI)
  note I = issuerD [OF i]
  let ?s = "snd (kick_spec fd p c n reason nick s)" and ?q = "getClientByNick nick s"
  show "cPass (abs_chat ?s) = cPass (chat_drop fd n nick (abs_chat s))"
    by (simp add: chat_drop_def split: option.split)
  show "cUsers (abs_chat ?s) f = cUsers (chat_drop fd n nick (abs_chat s)) f" for f
    by (simp add: chat_drop_def getClientByFd_def deref_def split: option.split)
  show "cRooms (abs_chat ?s) k = cRooms (chat_drop fd n nick (abs_chat s)) k" for k
  proof (cases "k = n \<and> findChannel n s \<noteq> None")
    case False
    then show ?thesis
      using kick_spec_channel [OF I(1,6), of k fd n reason nick] abs_room_heap [of ?s s]
      by (auto simp: chat_drop_def kick_one_def split: option.split)
  next
    case True
    then obtain ch where ch: "k = n" "findChannel n s = Some ch" by blast
    have ne: "members ch \<noteq> []" using findChannel_entry [OF I(1) ch(2)] by blast
    have "map_option (abs_room s) (kick_one p ?q (Some ch)) =
        (if p \<in> set (operators ch) then without (bearers nick (abs_chat s) \<inter> fd_of s ` set (members ch)) (abs_room s ch)
         else Some (abs_room s ch))"
    proof (cases "p \<in> set (operators ch) \<and> ?q \<in> set (members ch)")
      case True
      then obtain t where "deref s ?q = Some t"
        using findChannel_entry [OF I(1) ch(2)] entry_ok_live by blast
      from abs_room_dropped [OF I(1) ch(2) this] True bearer_in_room(1) [OF I(1) ch(2), of nick]
      show ?thesis by (simp add: kick_one_def)
    next
      case False
      with ne bearer_in_room(1) [OF I(1) ch(2), of nick] show ?thesis
        by (simp add: kick_one_def without_nothing)
    qed
    then show ?thesis
      using kick_spec_channel [OF I(1,6), of k fd n reason nick] abs_room_heap [of ?s s] ch
        issuer_in_room(2) [OF i ch(2)]
      by (simp add: chat_drop_def)
  qed
qed

lemma kick_all_refines:
  assumes "issuer s fd p c" "for_each (kickSingleTarget fd p n reason) nicks (r, s) = Some (r', s')"
  shows "abs_chat s' = fold (chat_drop fd n) nicks (abs_chat s)"
  using assms
proof (induction nicks arbitrary: r s)
  case Nil
  then show ?case by simp
next
  case (Cons x nicks)
  let ?k = "kick_spec fd p c n reason x s"
  note I = issuerD [OF Cons.prems(1)]
  have "issuer (snd ?k) fd p c"
    using I state_ok_kick [OF I(1)] by (simp add: issuer_def deref_def getClientByFd_def)
  moreover have "for_each (kickSingleTarget fd p n reason) nicks (addReplies (fst ?k) r, snd ?k) = Some (r', s')"
    using Cons.prems(2) by (simp add: kickSingle_result [OF I(1,6)])
  ultimately show ?case using Cons.IH kick_one_refines [OF Cons.prems(1)] by simp
qed

lemma fold_id: "(\<And>x. x \<in> set xs \<Longrightarrow> f x a = a) \<Longrightarrow> fold f xs a = a"
  by (induction xs) auto

lemma kick_refines:
  assumes i: "issuer s fd p c" and run: "handleKick fd m s = Some (r, s')"
  shows "abs_chat s' = chat_kick fd (params m) (abs_chat s)"
proof -
  note I = issuerD [OF i]
  show ?thesis
  proof (cases "2 \<le> length (params m) \<and> findChannel (params m ! 0) s \<noteq> None")
    case False
    have "s' = s"
      using run False I by (auto simp: handleKick_def getParamCount_def getSingleParam_def Let_def
          split: if_splits Option.bind_splits)
    moreover have "chat_kick fd (params m) (abs_chat s) = abs_chat s"
      using False by (auto simp: chat_kick_def chat_drop_def intro!: fold_id)
    ultimately show ?thesis by simp
  next
    case True
    then obtain ch where ch: "2 \<le> length (params m)" "findChannel (params m ! 0) s = Some ch" by blast
    obtain reason where "for_each (kickSingleTarget fd p (params m ! 0) reason) (comma_split (params m ! 1))
        (CommandResult, s) = Some (r, s')"
      using handleKick_loop [of fd s c m ch] I ch run by auto
    from kick_all_refines [OF i this] ch show ?thesis by (simp add: chat_kick_def)
  qed
qed

subsection \<open>Modes\<close>

text \<open>What the loop of \<open>_handleMode\<close> carries, seen from the service.\<close>

definition abs_run :: "server_state \<Rightarrow> message \<Rightarrow> mode_run \<Rightarrow> bool \<times> string list \<times> room" where
  "abs_run s m run = (adding run, drop (paramIndex run) (params m), abs_room s (runChannel run))"

lemma next_arg:
  "paramIndex run < getParamCount m \<Longrightarrow>
    drop (paramIndex run) (params m) = params m ! paramIndex run # drop (Suc (paramIndex run)) (params m)"
  "\<not> paramIndex run < getParamCount m \<Longrightarrow> drop (paramIndex run) (params m) = []"
  by (simp_all add: getParamCount_def Cons_nth_drop_Suc)

lemma abs_room_modes:
  "abs_room s (ch\<lparr>chModes := setInviteOnly (chModes ch)\<rparr>) = (abs_room s ch)\<lparr>rInviteOnly := True\<rparr>"
  "abs_room s (ch\<lparr>chModes := unsetInviteOnly (chModes ch)\<rparr>) = (abs_room s ch)\<lparr>rInviteOnly := False\<rparr>"
  "abs_room s (ch\<lparr>chModes := setTopicRestricted (chModes ch)\<rparr>) = (abs_room s ch)\<lparr>rRestricted := True\<rparr>"
  "abs_room s (ch\<lparr>chModes := unsetTopicRestricted (chModes ch)\<rparr>) = (abs_room s ch)\<lparr>rRestricted := False\<rparr>"
  "abs_room s (ch\<lparr>chModes := setChannelProtected k (chModes ch)\<rparr>) = (abs_room s ch)\<lparr>rKey := Some k\<rparr>"
  "abs_room s (ch\<lparr>chModes := unsetChannelProtected (chModes ch)\<rparr>) = (abs_room s ch)\<lparr>rKey := None\<rparr>"
  "abs_room s (ch\<lparr>chModes := setMemberLimit w (chModes ch)\<rparr>) = (abs_room s ch)\<lparr>rLimit := Some (nat (sint w))\<rparr>"
  "abs_room s (ch\<lparr>chModes := unsetMemberLimit (chModes ch)\<rparr>) = (abs_room s ch)\<lparr>rLimit := None\<rparr>"
  using getMemberLimit_setMemberLimit [of w "chModes ch"]
  by (simp_all add: abs_room_def mode_defs limit_of_def getMemberLimit_def)

lemma abs_room_flags:
  "inviteOnly (chModes ch) = b \<Longrightarrow> (abs_room s ch)\<lparr>rInviteOnly := b\<rparr> = abs_room s ch"
  "topicRestricted (chModes ch) = b \<Longrightarrow> (abs_room s ch)\<lparr>rRestricted := b\<rparr> = abs_room s ch"
  "\<not> memberLimited (chModes ch) \<Longrightarrow> (abs_room s ch)\<lparr>rLimit := None\<rparr> = abs_room s ch"
  "rKey (abs_room s ch) = None \<longleftrightarrow> \<not> channelProtected (chModes ch)"
  by (auto simp: abs_room_def)

lemma mode_it_refines:
  "mode_i run = (b, prm, run') \<Longrightarrow> abs_run s m run' = mode_char C CHR ''i'' (abs_run s m run)"
  "mode_t run = (b, prm, run') \<Longrightarrow> abs_run s m run' = mode_char C CHR ''t'' (abs_run s m run)"
  by (auto simp: abs_run_def mode_i_def mode_t_def abs_room_modes abs_room_flags Let_def split: if_splits)

lemma mode_k_refines:
  assumes "mode_k m run = Some (b, prm, run')"
  shows "abs_run s m run' = mode_char C CHR ''k'' (abs_run s m run)"
proof (cases "paramIndex run < getParamCount m")
  case True
  with assms next_arg(1) [OF True] show ?thesis
    by (auto simp: abs_run_def mode_k_def next_param_result abs_room_modes abs_room_flags Let_def split: if_splits)
next
  case False
  with assms next_arg(2) [OF False] show ?thesis
    by (auto simp: abs_run_def mode_k_def abs_room_modes abs_room_flags Let_def split: if_splits)
qed

lemma mode_l_refines:
  assumes "mode_l m run = Some (b, prm, run')"
  shows "abs_run s m run' = mode_char C CHR ''l'' (abs_run s m run)"
proof (cases "paramIndex run < getParamCount m")
  case True
  with assms next_arg(1) [OF True] show ?thesis
    by (auto simp: abs_run_def mode_l_def next_param_result abs_room_modes abs_room_flags Let_def split: if_splits)
next
  case False
  with assms next_arg(2) [OF False] show ?thesis
    by (auto simp: abs_run_def mode_l_def abs_room_modes abs_room_flags Let_def split: if_splits)
qed

lemma abs_room_ops:
  assumes ok: "state_ok s" and ch: "findChannel n s = Some ch" and room: "same_room ch ch'" "channel_ok ch'"
    and q: "q \<in> set (members ch)"
  shows "abs_room s (snd (addOperator q ch')) = (abs_room s ch')\<lparr>rOps := rOps (abs_room s ch') \<union> {fd_of s q}\<rparr>"
    "abs_room s (snd (removeOperator q ch')) = (abs_room s ch')\<lparr>rOps := rOps (abs_room s ch') - {fd_of s q}\<rparr>"
proof -
  note d = state_ok_dir [OF ok]
  have e: "entry_ok s n ch" using findChannel_entry [OF ok ch] by blast
  have "set (operators ch') \<subseteq> set (members ch)" using room by (simp add: same_room_def channel_ok_def)
  then have "inj_on (fd_of s) (insert q (set (operators ch')))"
    by (intro fd_of_inj [OF d]) (use entry_ok_live [OF e] q in blast)
  then have "fd_of s ` (set (operators ch') - {q}) = fd_of s ` set (operators ch') - {fd_of s q}"
    by (auto simp: inj_on_def)
  then show "abs_room s (snd (removeOperator q ch')) = (abs_room s ch')\<lparr>rOps := rOps (abs_room s ch') - {fd_of s q}\<rparr>"
    by (simp add: abs_room_def remove_results std_set_simps)
  show "abs_room s (snd (addOperator q ch')) = (abs_room s ch')\<lparr>rOps := rOps (abs_room s ch') \<union> {fd_of s q}\<rparr>"
    by (auto simp: abs_room_def add_results std_set_simps)
qed

lemma mode_o_refines:
  assumes ok: "state_ok s" and ch: "findChannel n s = Some ch"
    and room: "same_room ch (runChannel run)" "channel_ok (runChannel run)"
    and run: "mode_o fd c t m s run = Some (b, prm, run')"
  shows "abs_run s m run' = mode_char (abs_chat s) CHR ''o'' (abs_run s m run)"
proof (cases "paramIndex run < getParamCount m")
  case False
  with run next_arg(2) [OF False] show ?thesis by (simp add: mode_o_def abs_run_def)
next
  case True
  let ?n = "params m ! paramIndex run" and ?R = "abs_room s (runChannel run)"
  let ?q = "getClientByNick ?n s" and ?T = "bearers ?n (abs_chat s) \<inter> rMembers ?R"
  have mem: "members (runChannel run) = members ch" using room by (simp add: same_room_def)
  have T: "?T = (if ?q \<in> set (members ch) then {fd_of s ?q} else {})"
    using bearer_in_room(1) [OF ok ch, of ?n] mem by simp
  have "NULL \<notin> set (members ch)"
    using findChannel_entry [OF ok ch] entry_ok_live dir_ok_null [OF state_ok_dir [OF ok]] by blast
  then have "adding run' = adding run \<and> paramIndex run' = Suc (paramIndex run) \<and> runChannel run' =
      (if ?q \<notin> set (members ch) then runChannel run
       else snd ((if adding run then addOperator else removeOperator) ?q (runChannel run)))"
    using run True mem by (auto simp: mode_o_def next_param_result member_tests case_prod_beta Let_def split: if_splits)
  moreover have "?R\<lparr>rOps := rOps ?R\<rparr> = ?R" by simp
  ultimately show ?thesis
    using next_arg(1) [OF True] T abs_room_ops [OF ok ch room, of ?q]
    by (cases "?q \<in> set (members ch)") (simp_all add: abs_run_def Let_def del: abs_room_simps)
qed

lemma mode_step_refines:
  assumes ok: "state_ok s" and ch: "findChannel n s = Some ch" and inv: "mode_inv f s ch run"
    and run: "mode_step fd c t m s x run = Some run'"
  shows "abs_run s m run' = mode_char (abs_chat s) x (abs_run s m run)"
proof (cases "x = CHR ''+'' \<or> x = CHR ''-''")
  case True
  then show ?thesis
  proof
    assume x: "x = CHR ''+''"
    with run have "run\<lparr>adding := True\<rparr> = run'" by (simp add: mode_step_def)
    then show ?thesis unfolding x by (elim subst) (simp add: abs_run_def)
  next
    assume x: "x = CHR ''-''"
    with run have "run\<lparr>adding := False\<rparr> = run'" by (simp add: mode_step_def)
    then show ?thesis unfolding x by (elim subst) (simp add: abs_run_def)
  qed
next
  case False
  then obtain b prm r1 where sw: "mode_switch fd c t m s x run = Some (b, prm, r1)"
      and "run' = (if b then note_change x prm r1 else r1)"
    using run by (auto simp: mode_step_def split: Option.bind_splits)
  then have "abs_run s m run' = abs_run s m r1"
    by (simp add: abs_run_def note_change_def Let_def)
  moreover have room: "same_room ch (runChannel run)" "channel_ok (runChannel run)"
    using inv by (simp_all add: mode_inv_def mode_core_def)
  have "abs_run s m r1 = mode_char (abs_chat s) x (abs_run s m run)"
  proof -
    consider "x = CHR ''i''" | "x = CHR ''t''" | "x = CHR ''k''" | "x = CHR ''l''" | "x = CHR ''o''"
      | (other) "x \<notin> {CHR ''i'', CHR ''t'', CHR ''k'', CHR ''l'', CHR ''o''}" by blast
    then show ?thesis
    proof cases
      case 1
      with sw have "mode_i run = (b, prm, r1)" by (simp add: mode_switch_def)
      then show ?thesis unfolding 1 by (rule mode_it_refines)
    next
      case 2
      with sw have "mode_t run = (b, prm, r1)" by (simp add: mode_switch_def)
      then show ?thesis unfolding 2 by (rule mode_it_refines)
    next
      case 3
      with sw have "mode_k m run = Some (b, prm, r1)" by (simp add: mode_switch_def)
      then show ?thesis unfolding 3 by (rule mode_k_refines)
    next
      case 4
      with sw have "mode_l m run = Some (b, prm, r1)" by (simp add: mode_switch_def)
      then show ?thesis unfolding 4 by (rule mode_l_refines)
    next
      case 5
      with sw have "mode_o fd c t m s run = Some (b, prm, r1)" by (simp add: mode_switch_def)
      then show ?thesis unfolding 5 by (rule mode_o_refines [OF ok ch room])
    next
      case other
      with sw have "abs_run s m r1 = abs_run s m run" by (auto simp: mode_switch_def abs_run_def)
      with other False show ?thesis by (simp add: abs_run_def)
    qed
  qed
  ultimately show ?thesis by simp
qed

lemma mode_loop_refines:
  assumes "state_ok s" "findChannel n s = Some ch" "message_lf_free m" "getClientByFd fd s \<noteq> NULL" "client_ok c"
    and "lf_free t" and "mode_inv fd s ch run" "lf_free cs" "for_each (mode_step fd c t m s) cs run = Some run'"
  shows "abs_run s m run' = fold (mode_char (abs_chat s)) cs (abs_run s m run)"
  using assms(7-)
proof (induction cs arbitrary: run)
  case Nil
  then show ?case by simp
next
  case (Cons x cs)
  then have "x \<noteq> LF" "lf_free cs" by (auto simp: lf_free_def)
  then obtain r1 where r1: "mode_step fd c t m s x run = Some r1" "mode_inv fd s ch r1"
    using mode_step_ok [OF Cons.prems(1) assms(3-6)] by blast
  with Cons.prems(3) have "for_each (mode_step fd c t m s) cs r1 = Some run'" by simp
  from Cons.IH [OF r1(2) \<open>lf_free cs\<close> this] mode_step_refines [OF assms(1,2) Cons.prems(1) r1(1)]
  show ?case by simp
qed

lemma mode_refines:
  assumes i: "issuer s fd p c" and m: "message_lf_free m" and run: "handleMode fd m s = Some (r, s')"
  shows "abs_chat s' = chat_mode fd (params m) (abs_chat s)"
proof -
  note I = issuerD [OF i]
  show ?thesis
  proof (cases "mode_target p (params m) s")
    case None
    with run handleMode_refused [OF I(3,4,6)] have "s' = s" by simp
    with None issuer_in_room(2) [OF i] show ?thesis
      by (cases "findChannel (params m ! 0) s") (auto simp: chat_mode_def mode_target_def split: if_splits)
  next
    case (Some ch)
    note T = mode_targetD [OF Some]
    obtain w where w: "for_each (mode_step fd c (params m ! 0) m s) (params m ! 1) (mode_init ch CommandResult) = Some w"
        "handleMode fd m s = Some (mode_outcome m c s ch w, putChannel (params m ! 0) (runChannel w) s)"
      by (rule handleMode_run [OF I(1) m I(3,4,6) Some])
    have lf: "lf_free (params m ! 0)" "lf_free (params m ! 1)" using params2_lf_free [OF m] T by blast+
    have ch: "findChannel (params m ! 0) s = Some ch" using T by simp
    have "channel_ok ch" using findChannel_entry [OF I(1) ch] by (simp add: entry_ok_def)
    then have inv: "mode_inv fd s ch (mode_init ch CommandResult)"
      using mode_inv_init acc_ok_init [OF I(1)] by blast
    have "getClientByFd fd s \<noteq> NULL" using I by simp
    from mode_loop_refines [OF I(1) ch m this I(8) lf(1) inv lf(2) w(1)]
    have "abs_room s (runChannel w) = snd (snd (fold (mode_char (abs_chat s)) (params m ! 1)
        (True, drop 2 (params m), abs_room s ch)))"
      by (cases "fold (mode_char (abs_chat s)) (params m ! 1) (True, drop 2 (params m), abs_room s ch)")
        (simp add: abs_run_def mode_init_def numeral_2_eq_2)
    with w(2) run T issuer_in_room(2) [OF i ch] show ?thesis
      by (simp add: chat_mode_def abs_put_room)
  qed
qed

subsection \<open>Every command\<close>

lemma switch_absent:
  assumes "getClientByFd fd s = NULL"
  shows "dispatch_switch mem n fd m s = Some (CommandResult, s)"
  using assms
  by (simp add: dispatch_switch_def handlePass_def handleNick_def handleUser_def handleJoin_def
      handlePrivMsg_def handleKick_def handleInvite_def handleTopic_def handleMode_def handlePing_def
      handleCap_def handleInvalidCommand_def Let_def)

lemma name_numbers:
  "cmdNameToNumber cmds x = command_number CMD_PASS \<longleftrightarrow> x = ''PASS''"
  "cmdNameToNumber cmds x = command_number CMD_NICK \<longleftrightarrow> x = ''NICK''"
  "cmdNameToNumber cmds x = command_number CMD_USER \<longleftrightarrow> x = ''USER''"
  "cmdNameToNumber cmds x = command_number CMD_JOIN \<longleftrightarrow> x = ''JOIN''"
  "cmdNameToNumber cmds x = command_number CMD_PRIVMSG \<longleftrightarrow> x = ''PRIVMSG''"
  "cmdNameToNumber cmds x = command_number CMD_KICK \<longleftrightarrow> x = ''KICK''"
  "cmdNameToNumber cmds x = command_number CMD_INVITE \<longleftrightarrow> x = ''INVITE''"
  "cmdNameToNumber cmds x = command_number CMD_TOPIC \<longleftrightarrow> x = ''TOPIC''"
  "cmdNameToNumber cmds x = command_number CMD_MODE \<longleftrightarrow> x = ''MODE''"
  "cmdNameToNumber cmds x = command_number CMD_PING \<longleftrightarrow> x = ''PING''"
  "cmdNameToNumber cmds x = command_number CMD_CAP \<longleftrightarrow> x = ''CAP''"
  by (simp_all add: name_search_result)

text \<open>The \<open>switch\<close>, seen through the names of the commands.\<close>

lemma switch_by_name:
  "dispatch_switch mem (cmdNameToNumber cmds x) =
    (if x = ''PASS'' then handlePass else if x = ''NICK'' then handleNick
     else if x = ''USER'' then handleUser else if x = ''JOIN'' then handleJoin mem
     else if x = ''PRIVMSG'' then handlePrivMsg else if x = ''KICK'' then handleKick
     else if x = ''INVITE'' then handleInvite else if x = ''TOPIC'' then handleTopic
     else if x = ''MODE'' then handleMode else if x = ''PING'' then handlePing
     else if x = ''CAP'' then handleCap else handleInvalidCommand)"
  unfolding dispatch_switch_def name_numbers by (rule refl)

lemma gated_by_name:
  "gated (cmdNameToNumber cmds x) \<longleftrightarrow> x \<notin> {''PASS'', ''NICK'', ''USER'', ''CAP''} \<and> x \<in> set cmds - {''INVALID''}"
  by (simp add: gated_def name_search_result set_cmds)

lemma guest_refines:
  assumes i: "issuer s fd p c" and guest: "\<not> registered c" and m: "message_lf_free m"
    and run: "dispatch mem fd m s = Some (r, s')"
  shows "abs_chat s' = chat_step mem fd m (abs_chat s)"
proof -
  note I = issuerD [OF i]
  consider "command m = ''PASS''" | "command m = ''NICK''" | "command m = ''USER''"
    | (other) "command m \<notin> {''PASS'', ''NICK'', ''USER''}" by blast
  then show ?thesis
  proof cases
    case 1
    then have "handlePass fd m s = Some (r, s')"
      using run by (simp add: dispatch_open gated_by_name switch_by_name)
    from pass_refines [OF i this] 1 I show ?thesis by (simp add: chat_step_def)
  next
    case 2
    then have "handleNick fd m s = Some (r, s')"
      using run by (simp add: dispatch_open gated_by_name switch_by_name)
    from nick_refines [OF i this] 2 I show ?thesis by (simp add: chat_step_def)
  next
    case 3
    then have "handleUser fd m s = Some (r, s')"
      using run by (simp add: dispatch_open gated_by_name switch_by_name)
    from user_refines [OF i m this] 3 I show ?thesis by (simp add: chat_step_def)
  next
    case other
    have "s' = s"
    proof (cases "gated (cmdNameToNumber cmds (command m))")
      case True
      with dispatch_guest [of fd s c m mem] I guest run show ?thesis by simp
    next
      case False
      then have "command m = ''CAP'' \<or> command m \<notin> set cmds - {''INVALID''}"
        using other by (simp only: gated_by_name) blast
      then have "handleCap fd m s = Some (r, s') \<or> handleInvalidCommand fd m s = Some (r, s')"
        using run False other by (auto simp: dispatch_open switch_by_name set_cmds split: if_splits)
      with readers(3,4) show ?thesis by blast
    qed
    with other I guest show ?thesis by (simp add: chat_step_def)
  qed
qed

lemma user_step_refines:
  assumes i: "issuer s fd p c" and user: "registered c" and m: "message_lf_free m"
    and run: "dispatch mem fd m s = Some (r, s')"
  shows "abs_chat s' = chat_step mem fd m (abs_chat s)"
proof -
  note I = issuerD [OF i]
  have "dispatch_switch mem (cmdNameToNumber cmds (command m)) fd m s = Some (r, s')"
    using run I user by (simp add: dispatch_open)
  then have h: "(if command m = ''PASS'' then handlePass else if command m = ''NICK'' then handleNick
     else if command m = ''USER'' then handleUser else if command m = ''JOIN'' then handleJoin mem
     else if command m = ''PRIVMSG'' then handlePrivMsg else if command m = ''KICK'' then handleKick
     else if command m = ''INVITE'' then handleInvite else if command m = ''TOPIC'' then handleTopic
     else if command m = ''MODE'' then handleMode else if command m = ''PING'' then handlePing
     else if command m = ''CAP'' then handleCap else handleInvalidCommand) fd m s = Some (r, s')"
    unfolding switch_by_name .
  have step: "chat_step mem fd m (abs_chat s) =
      (if command m = ''PASS'' then chat_pass fd (abs_user c) (params m) (abs_chat s)
       else if command m = ''NICK'' then chat_nick fd (abs_user c) (params m) (abs_chat s)
       else if command m = ''USER'' then chat_user fd (abs_user c) (params m) (abs_chat s)
       else if command m = ''JOIN'' then chat_join mem fd (params m) (abs_chat s)
       else if command m = ''TOPIC'' then chat_topic fd (params m) (abs_chat s)
       else if command m = ''INVITE'' then chat_invite fd (params m) (abs_chat s)
       else if command m = ''KICK'' then chat_kick fd (params m) (abs_chat s)
       else if command m = ''MODE'' then chat_mode fd (params m) (abs_chat s) else abs_chat s)"
    using I user by (simp add: chat_step_def Let_def)
  consider "command m = ''PASS''" | "command m = ''NICK''" | "command m = ''USER''"
    | "command m = ''JOIN''" | "command m = ''TOPIC''" | "command m = ''INVITE''"
    | "command m = ''KICK''" | "command m = ''MODE''"
    | (other) "command m \<notin> {''PASS'', ''NICK'', ''USER'', ''JOIN'', ''TOPIC'', ''INVITE'', ''KICK'', ''MODE''}"
    by blast
  then show ?thesis
  proof cases
    case 1
    then show ?thesis using h pass_refines [OF i, of m r s'] by (simp add: step)
  next
    case 2
    then show ?thesis using h nick_refines [OF i, of m r s'] by (simp add: step)
  next
    case 3
    then show ?thesis using h user_refines [OF i m, of r s'] by (simp add: step)
  next
    case 4
    then show ?thesis using h join_refines [OF i user, of mem m r s'] by (simp add: step)
  next
    case 5
    then show ?thesis using h topic_refines [OF i, of m r s'] by (simp add: step)
  next
    case 6
    then show ?thesis using h invite_refines [OF i, of m r s'] by (simp add: step)
  next
    case 7
    then show ?thesis using h kick_refines [OF i, of m r s'] by (simp add: step)
  next
    case 8
    then show ?thesis using h mode_refines [OF i m, of r s'] by (simp add: step)
  next
    case other
    then have "handlePrivMsg fd m s = Some (r, s') \<or> handlePing fd m s = Some (r, s')
        \<or> handleCap fd m s = Some (r, s') \<or> handleInvalidCommand fd m s = Some (r, s')"
      using h by (simp split: if_splits)
    then have "s' = s" using readers by blast
    with other show ?thesis by (simp add: step)
  qed
qed

lemma dispatch_refines:
  assumes ok: "state_ok s" and m: "message_lf_free m" and run: "dispatch mem fd m s = Some (r, s')"
  shows "abs_chat s' = chat_step mem fd m (abs_chat s)"
  using ok
proof (cases rule: unregistered_cases [where fd = fd])
  case gone
  then have "s' = s" using switch_absent [OF gone] run by (simp add: dispatch_open)
  with gone dir_ok_null [OF state_ok_dir [OF ok]] show ?thesis by (simp add: chat_step_def)
next
  case (guest c)
  then have "issuer s fd (getClientByFd fd s) c" using ok by (simp add: issuer_def)
  from guest_refines [OF this guest(5) m run] show ?thesis .
next
  case (user c)
  then have "issuer s fd (getClientByFd fd s) c" using ok by (simp add: issuer_def)
  from user_step_refines [OF this user(5) m run] show ?thesis .
qed

text \<open>
  C2. The dispatcher implements the chat service. On every well-formed state, for every connection
  and every message without line feeds, what \<open>dispatch\<close> does to the state is exactly what the command
  means for the service: nothing the server keeps (heap, dictionaries, ordered sets of pointers,
  64-bit limits) changes in any other way.
\<close>

theorem dispatch_refines_chat:
  assumes ok: "state_ok s" and m: "message_lf_free m"
  shows "\<exists>r s'. dispatch mem fd m s = Some (r, s') \<and> state_ok s'
    \<and> abs_chat s' = chat_step mem fd m (abs_chat s)"
proof -
  obtain r s' where run: "dispatch mem fd m s = Some (r, s')" "state_ok s'"
    by (rule dispatcher.returns [OF ok m TrueI])
  with dispatch_refines [OF ok m run(1)] show ?thesis by blast
qed

theorem dispatch_refines_chat_witness:
  "\<exists>r s'. dispatch (\<lambda>i. True) 4 \<lparr>command = ''INVITE'', params = [''bob'', ''#lobby'']\<rparr> sample_state = Some (r, s')
    \<and> map_option invited (findChannel ''#lobby'' s') = Some [2]
    \<and> abs_chat s' = chat_step (\<lambda>i. True) 4 \<lparr>command = ''INVITE'', params = [''bob'', ''#lobby'']\<rparr> (abs_chat sample_state)"
proof -
  let ?m = "\<lparr>command = ''INVITE'', params = [''bob'', ''#lobby'']\<rparr>"
  have "map_option (\<lambda>(r, s'). map_option invited (findChannel ''#lobby'' s')) (dispatch (\<lambda>i. True) 4 ?m sample_state)
      = Some (Some [2])"
    by code_simp
  moreover have "message_lf_free ?m" by (simp add: message_lf_free_def lf_simps)
  ultimately show ?thesis
    using dispatch_refines_chat [OF state_ok_sample, of ?m "\<lambda>i. True" 4] by auto
qed

end
