(* ===== verification/Audience.thy ===== *)
theory Audience
  imports Chat_Refinement
begin

section \<open>Who hears a command\<close>

text \<open>
  Confidentiality of a command: a reply goes to its issuer, to somebody who shares a room with the
  issuer, or to the user that a \<open>PRIVMSG\<close> or \<open>INVITE\<close> names, and to nobody else.
\<close>

subsection \<open>The audience\<close>

definition shares_room :: "int \<Rightarrow> int \<Rightarrow> chat \<Rightarrow> bool" where
  "shares_room fd f C \<longleftrightarrow> (\<exists>n R. cRooms C n = Some R \<and> fd \<in> rMembers R \<and> f \<in> rMembers R)"

definition addressed :: "message \<Rightarrow> chat \<Rightarrow> int set" where
  "addressed m C =
     (if params m = [] then {}
      else if command m = ''PRIVMSG'' then (\<Union>n \<in> set (comma_split (params m ! 0)). bearers n C)
      else if command m = ''INVITE'' then bearers (params m ! 0) C
      else {})"

definition replies_within :: "int set \<Rightarrow> command_result \<Rightarrow> bool" where
  "replies_within A r \<longleftrightarrow> (\<forall>t \<in> set (replies r). replyFd t \<in> A)"

lemma replies_within_simps [simp]:
  "replies_within A CommandResult" "replies_within A (addReply f t r) \<longleftrightarrow> f \<in> A \<and> replies_within A r"
  "replies_within A (addReplies ts r) \<longleftrightarrow> (\<forall>t \<in> set ts. replyFd t \<in> A) \<and> replies_within A r"
  by (auto simp: replies_within_def)

lemma replies_within_mono: "replies_within A r \<Longrightarrow> A \<subseteq> B \<Longrightarrow> replies_within B r"
  by (auto simp: replies_within_def)

definition company :: "int \<Rightarrow> chat \<Rightarrow> int set" where
  "company fd C = insert fd {f. shares_room fd f C}"

lemma issuer_company [simp]: "fd \<in> company fd C"
  by (simp add: company_def)

lemma member_company:
  assumes "findChannel n s = Some ch" "fd \<in> fd_of s ` set (members ch)" "q \<in> set (members ch)"
  shows "fd_of s q \<in> company fd (abs_chat s)"
proof -
  have "cRooms (abs_chat s) n = Some (abs_room s ch)" using assms(1) by simp
  moreover have "fd \<in> rMembers (abs_room s ch)" "fd_of s q \<in> rMembers (abs_room s ch)" using assms by simp_all
  ultimately show ?thesis unfolding company_def shares_room_def by blast
qed

lemma company_mono:
  assumes "\<And>n R. cRooms C n = Some R \<Longrightarrow> \<exists>R'. cRooms D n = Some R' \<and> rMembers R \<subseteq> rMembers R'"
  shows "company fd C \<subseteq> company fd D"
  using assms unfolding company_def shares_room_def by blast

subsection \<open>Commands answered to the issuer alone\<close>

lemma welcome_within: "replies_within A r \<Longrightarrow> fd \<in> A \<Longrightarrow> replies_within A (welcome_replies fd c r)"
  by (simp add: welcome_replies_def)

lemma register_within:
  "register_step fd p r s = Some (r', s') \<Longrightarrow> replies_within A r \<Longrightarrow> fd \<in> A \<Longrightarrow> replies_within A r'"
  by (auto simp: register_step_def Let_def case_prod_beta welcome_within split: Option.bind_splits if_splits)

lemma registering_within:
  "handlePass fd m s = Some (r, s') \<Longrightarrow> replies_within {fd} r"
  "handleNick fd m s = Some (r, s') \<Longrightarrow> replies_within {fd} r"
  "handleUser fd m s = Some (r, s') \<Longrightarrow> replies_within {fd} r"
  by (auto simp: handlePass_def handleNick_def handleUser_def Let_def
      split: if_splits Option.bind_splits prod.splits elim!: register_within)

lemma reading_within:
  "handleCap fd m s = Some (r, s') \<Longrightarrow> replies_within {fd} r"
  "handlePing fd m s = Some (r, s') \<Longrightarrow> replies_within {fd} r"
  "handleInvalidCommand fd m s = Some (r, s') \<Longrightarrow> replies_within {fd} r"
  by (auto simp: handleCap_def handlePing_def handleInvalidCommand_def Let_def
      split: if_splits Option.bind_splits)

subsection \<open>Commands heard in rooms\<close>

lemma to_all_within:
  assumes "findChannel n s = Some ch" "fd \<in> fd_of s ` set (members ch)"
  shows "\<forall>t \<in> set (to_all s ch x). replyFd t \<in> company fd (abs_chat s)"
  using member_company [OF assms] by (auto simp: to_all_def)

lemma topic_within:
  assumes i: "issuer s fd p c" and run: "handleTopic fd m s = Some (r, s')"
  shows "replies_within (company fd (abs_chat s)) r"
proof (cases "topic_change p (params m) s")
  case None
  with run handleTopic_result [OF issuerD(1,3,4,6) [OF i], of m] show ?thesis by auto
next
  case (Some x)
  then obtain ch t where x: "topic_change p (params m) s = Some (ch, t)" by (cases x) simp
  with topic_changeD [OF x] issuer_in_room(1) [OF i] run handleTopic_result [OF issuerD(1,3,4,6) [OF i], of m]
    to_all_within [of "params m ! 0" s ch fd]
  show ?thesis by auto
qed

lemma invite_within:
  assumes i: "issuer s fd p c" and run: "handleInvite fd m s = Some (r, s')"
  shows "replies_within (insert fd (bearers (params m ! 0) (abs_chat s))) r"
proof (cases "invite_change p (params m) s")
  case None
  with run handleInvite_refused [OF issuerD(3,4,6) [OF i]] show ?thesis by auto
next
  case (Some x)
  note I = issuerD [OF i]
  obtain ch q where x: "invite_change p (params m) s = Some (ch, q)" using Some by (cases x) simp
  note X = invite_changeD [OF x]
  then obtain t where t: "deref s q = Some t" using dirs.by_nick_live [OF I(2)] by blast
  with X have "bearers (params m ! 0) (abs_chat s) = {socketFd t}"
    by (simp add: bearers_abs [OF I(2)] fd_of_Some)
  with run handleInvite_accepted [OF I(1,3,4,6) x t] show ?thesis
    by (auto simp: invite_replies_def split: if_splits)
qed

lemma privmsg_within:
  assumes i: "issuer s fd p c" and run: "handlePrivMsg fd m s = Some (r, s')"
  shows "replies_within (company fd (abs_chat s)
    \<union> (if params m = [] then {} else \<Union>n \<in> set (comma_split (params m ! 0)). bearers n (abs_chat s))) r"
proof (cases "2 \<le> length (params m) \<and> params m ! 1 \<noteq> ''''")
  case False
  with run issuerD [OF i] show ?thesis
    by (auto simp: handlePrivMsg_def getParamCount_def getSingleParam_def Let_def split: if_splits)
next
  case True
  note I = issuerD [OF i]
  from True have len: "0 < length (params m)" "1 < length (params m)" by linarith+
  let ?ts = "\<lambda>n. privmsg_spec fd p c (params m ! 1) s n"
  have r: "r = addReplies (concat (map ?ts (comma_split (params m ! 0)))) CommandResult"
    using run True len I by (auto simp: handlePrivMsg_def getParamCount_def getSingleParam_def splitByComma_eq
        privmsg_loop [OF I(1,6)] Let_def)
  have "replyFd t \<in> company fd (abs_chat s) \<union> bearers n (abs_chat s)" if "t \<in> set (?ts n)" for n t
  proof -
    have "fd_of s q \<in> company fd (abs_chat s)"
      if "findChannel k s = Some ch" "p \<in> set (members ch)" "q \<in> set (members ch)" for k ch q
      using that member_company [OF that(1) _ that(3)] issuer_in_room(1) [OF i that(1)] by simp
    with that show ?thesis
      by (auto simp: privmsg_spec_def bearers_abs [OF I(2)] split: if_splits option.splits)
  qed
  with len show ?thesis by (fastforce simp: r)
qed

subsection \<open>JOIN\<close>

lemma join_grows:
  "findChannel k s = Some ch \<Longrightarrow> \<exists>ch'. findChannel k (snd (join_spec mem fd p c n key s)) = Some ch'
    \<and> set (members ch) \<subseteq> set (members ch')"
  by (auto simp: join_spec_def joined_def std_set_simps Let_def split: option.split)

lemma join_heap [simp]: "heap (snd (join_spec mem fd p c n key s)) = heap s"
  by (auto simp: join_spec_def Let_def split: option.split)

lemma join_company:
  "company fd (abs_chat s) \<subseteq> company fd (abs_chat (snd (join_spec mem f p c n key s)))"
proof (rule company_mono)
  fix k R assume R: "cRooms (abs_chat s) k = Some R"
  then obtain ch where ch: "findChannel k s = Some ch" "R = abs_room s ch" by auto
  with join_grows [OF ch(1), of mem f p c n key] abs_room_heap [of "snd (join_spec mem f p c n key s)" s]
  show "\<exists>R'. cRooms (abs_chat (snd (join_spec mem f p c n key s))) k = Some R' \<and> rMembers R \<subseteq> rMembers R'"
    by (auto intro!: imageI)
qed

lemma join_replies_within:
  assumes "findChannel n s = Some ch" "fd \<in> fd_of s ` set (members ch)"
  shows "\<forall>t \<in> set (join_replies s fd c ch). replyFd t \<in> company fd (abs_chat s)"
  using member_company [OF assms] by (auto simp: join_replies_def)

lemma join_one_within:
  assumes i: "issuer s fd p c"
  shows "\<forall>t \<in> set (fst (join_spec mem fd p c n key s)).
    replyFd t \<in> company fd (abs_chat (snd (join_spec mem fd p c n key s)))"
proof -
  have p: "fd_of s p = fd" using issuerD [OF i] by (simp add: fd_of_Some)
  have new: "\<forall>t \<in> set (join_replies (putChannel n ch s) fd c ch). replyFd t \<in> company fd (abs_chat (putChannel n ch s))"
    if "p \<in> set (members ch)" for ch
    using that p by (intro join_replies_within [of n]) auto
  show ?thesis
    using new [of "created n p"] new [of "joined p ch" for ch]
    by (auto simp: join_spec_def created_def joined_def std_set_simps Let_def split: option.split)
qed

lemma join_all_within:
  assumes "issuer s fd p c" "registered c" "for_each (join_target mem fd p m) xs (r, s) = Some (r', s')"
    and "replies_within (company fd (abs_chat s)) r"
  shows "replies_within (company fd (abs_chat s')) r'"
  using assms
proof (induction xs arbitrary: r s)
  case Nil
  then show ?case by simp
next
  case (Cons x xs)
  obtain j n where x: "x = (j, n)" by (cases x)
  let ?key = "if j < length (join_keys m) then join_keys m ! j else ''''"
  let ?j = "join_spec (mem j) fd p c n ?key s"
  note I = issuerD [OF Cons.prems(1)]
  have "join_target mem fd p m x (r, s) = Some (addReplies (fst ?j) r, snd ?j)"
    using joinSingleChannel_result [OF I(1,6) Cons.prems(2)] by (simp add: join_target_def x)
  with Cons.prems(3) have run: "for_each (join_target mem fd p m) xs (addReplies (fst ?j) r, snd ?j) = Some (r', s')"
    by simp
  have "replies_within (company fd (abs_chat (snd ?j))) (addReplies (fst ?j) r)"
    using join_one_within [OF Cons.prems(1)] replies_within_mono [OF Cons.prems(4) join_company] by simp
  from Cons.IH [OF join_spec_issuer [OF Cons.prems(1,2)] Cons.prems(2) run this] show ?case .
qed

lemma join_within:
  assumes i: "issuer s fd p c" and reg: "registered c" and run: "handleJoin mem fd m s = Some (r, s')"
  shows "replies_within (company fd (abs_chat s')) r"
proof (cases "params m = []")
  case True
  with run issuerD [OF i] show ?thesis by (auto simp: handleJoin_def getParamCount_def Let_def)
next
  case False
  note I = issuerD [OF i]
  have "for_each (join_target mem fd p m) (enumerate 0 (comma_split (params m ! 0))) (CommandResult, s)
      = Some (r, s')"
    using run handleJoin_loop [of fd s c m mem] I False by simp
  from join_all_within [OF i reg this] show ?thesis by simp
qed

subsection \<open>KICK\<close>

lemma kick_shrinks:
  assumes "state_ok s" "deref s p = Some c"
  shows "company fd (abs_chat (snd (kick_spec f p c n reason nick s))) \<subseteq> company fd (abs_chat s)"
proof (rule company_mono)
  let ?s = "snd (kick_spec f p c n reason nick s)"
  fix k R assume "cRooms (abs_chat ?s) k = Some R"
  then obtain ch where ch: "findChannel k ?s = Some ch" "R = abs_room s ch"
    using abs_room_heap [of ?s s] by auto
  have "\<exists>ch0. findChannel k s = Some ch0 \<and> set (members ch) \<subseteq> set (members ch0)"
    using ch(1) kick_spec_channel [OF assms, of k f n reason nick]
    by (auto simp: kick_one_def std_set_simps split: if_splits option.splits)
  with ch(2) show "\<exists>R'. cRooms (abs_chat s) k = Some R' \<and> rMembers R \<subseteq> rMembers R'"
    by (auto intro!: imageI)
qed

lemma kick_one_within:
  assumes i: "issuer s fd p c"
  shows "\<forall>t \<in> set (fst (kick_spec fd p c n reason nick s)). replyFd t \<in> company fd (abs_chat s)"
proof -
  have "\<forall>t \<in> set (to_all s ch x). replyFd t \<in> company fd (abs_chat s)"
    if "findChannel n s = Some ch" "p \<in> set (members ch)" for ch x
    using that issuer_in_room(1) [OF i that(1)] by (intro to_all_within) simp_all
  then show ?thesis by (auto simp: kick_spec_def Let_def split: option.split)
qed

lemma kick_all_within:
  assumes "issuer s fd p c" "for_each (kickSingleTarget fd p n reason) nicks (r, s) = Some (r', s')"
    and "company fd (abs_chat s) \<subseteq> A" "replies_within A r"
  shows "replies_within A r'"
  using assms
proof (induction nicks arbitrary: r s)
  case Nil
  then show ?case by simp
next
  case (Cons x nicks)
  let ?k = "kick_spec fd p c n reason x s"
  note I = issuerD [OF Cons.prems(1)]
  have i: "issuer (snd ?k) fd p c"
    using I state_ok_kick [OF I(1)] by (simp add: issuer_def deref_def getClientByFd_def)
  have run: "for_each (kickSingleTarget fd p n reason) nicks (addReplies (fst ?k) r, snd ?k) = Some (r', s')"
    using Cons.prems(2) by (simp add: kickSingle_result [OF I(1,6)])
  have "replies_within A (addReplies (fst ?k) r)"
    using kick_one_within [OF Cons.prems(1)] Cons.prems(3,4) by auto
  with Cons.IH [OF i run _ this] kick_shrinks [OF I(1,6)] Cons.prems(3) show ?case by blast
qed

lemma kick_within:
  assumes i: "issuer s fd p c" and run: "handleKick fd m s = Some (r, s')"
  shows "replies_within (company fd (abs_chat s)) r"
proof (cases "2 \<le> length (params m) \<and> findChannel (params m ! 0) s \<noteq> None")
  case False
  with run issuerD [OF i] show ?thesis
    by (auto simp: handleKick_def getParamCount_def getSingleParam_def Let_def
        split: if_splits Option.bind_splits)
next
  case True
  note I = issuerD [OF i]
  obtain ch where ch: "2 \<le> length (params m)" "findChannel (params m ! 0) s = Some ch" using True by blast
  obtain reason where "for_each (kickSingleTarget fd p (params m ! 0) reason) (comma_split (params m ! 1))
      (CommandResult, s) = Some (r, s')"
    using handleKick_loop [of fd s c m ch] I ch run by auto
  from kick_all_within [OF i this] show ?thesis by simp
qed

subsection \<open>MODE\<close>

lemma switch_within:
  assumes "mode_switch fd c t m s x run = Some (b, prm, run')" "replies_within {fd} (runResult run)"
  shows "replies_within {fd} (runResult run')"
  using assms
  by (auto simp: mode_switch_def mode_i_def mode_t_def mode_k_def mode_l_def mode_o_def next_param_result
      case_prod_beta Let_def split: if_splits)

lemma mode_step_within:
  assumes "mode_step fd c t m s x run = Some run'" "replies_within {fd} (runResult run)"
  shows "replies_within {fd} (runResult run')"
  using assms switch_within [of fd c t m s x run]
  by (auto simp: mode_step_def split: if_splits Option.bind_splits)

lemma mode_loop_within:
  "for_each (mode_step fd c t m s) cs run = Some run' \<Longrightarrow> replies_within {fd} (runResult run) \<Longrightarrow>
    replies_within {fd} (runResult run')"
  by (induction cs arbitrary: run) (auto dest: mode_step_within split: Option.bind_splits)

lemma mode_within:
  assumes i: "issuer s fd p c" and m: "message_lf_free m" and run: "handleMode fd m s = Some (r, s')"
  shows "replies_within (company fd (abs_chat s)) r"
proof (cases "mode_target p (params m) s")
  case None
  with run handleMode_refused [OF issuerD(3,4,6) [OF i]] show ?thesis by auto
next
  case (Some ch)
  note I = issuerD [OF i] and T = mode_targetD [OF Some]
  obtain w where w: "for_each (mode_step fd c (params m ! 0) m s) (params m ! 1) (mode_init ch CommandResult) = Some w"
      "handleMode fd m s = Some (mode_outcome m c s ch w, putChannel (params m ! 0) (runChannel w) s)"
    by (rule handleMode_run [OF I(1) m I(3,4,6) Some])
  have "replies_within {fd} (runResult w)"
    using mode_loop_within [OF w(1)] by (simp add: mode_init_def)
  then have "replies_within (company fd (abs_chat s)) (runResult w)"
    by (rule replies_within_mono) simp
  moreover have "fd \<in> fd_of s ` set (members ch)"
    using T issuer_in_room(1) [OF i, of "params m ! 0" ch] operators_members [OF I(1), of "params m ! 0" ch]
    by blast
  ultimately show ?thesis
    using run w(2) to_all_within [of "params m ! 0" s ch fd] T by (auto simp: mode_outcome_def)
qed

subsection \<open>Every command\<close>

lemma user_within:
  assumes i: "issuer s fd p c" and user: "registered c" and m: "message_lf_free m"
    and run: "dispatch mem fd m s = Some (r, s')"
  shows "replies_within (company fd (abs_chat s) \<union> company fd (abs_chat s') \<union> addressed m (abs_chat s)) r"
proof -
  let ?A = "company fd (abs_chat s) \<union> company fd (abs_chat s') \<union> addressed m (abs_chat s)"
  have h: "dispatch_switch mem (cmdNameToNumber cmds (command m)) fd m s = Some (r, s')"
    using run issuerD [OF i] user by (simp add: dispatch_open)
  have one: "replies_within ?A r" if "replies_within {fd} r"
    using that by (rule replies_within_mono) simp
  have mine: "replies_within ?A r" if "replies_within (company fd (abs_chat s)) r"
    using that by (rule replies_within_mono) blast
  consider "command m = ''JOIN''" | "command m = ''PRIVMSG''" | "command m = ''TOPIC''" | "command m = ''INVITE''"
    | "command m = ''KICK''" | "command m = ''MODE''"
    | (other) "command m \<notin> {''JOIN'', ''PRIVMSG'', ''TOPIC'', ''INVITE'', ''KICK'', ''MODE''}" by blast
  then show ?thesis
  proof cases
    case 1
    then have "handleJoin mem fd m s = Some (r, s')" using h by (simp add: switch_by_name)
    from join_within [OF i user this] show ?thesis by (rule replies_within_mono) blast
  next
    case 2
    then have "handlePrivMsg fd m s = Some (r, s')" using h by (simp add: switch_by_name)
    from privmsg_within [OF i this] show ?thesis
      by (rule replies_within_mono) (use 2 in \<open>auto simp: addressed_def\<close>)
  next
    case 3
    then have "handleTopic fd m s = Some (r, s')" using h by (simp add: switch_by_name)
    with topic_within [OF i] mine show ?thesis by blast
  next
    case 4
    then have "handleInvite fd m s = Some (r, s')" using h by (simp add: switch_by_name)
    show ?thesis
    proof (cases "params m = []")
      case True
      with \<open>handleInvite fd m s = _\<close> issuerD [OF i] have "replies_within {fd} r"
        by (auto simp: handleInvite_def getParamCount_def Let_def)
      then show ?thesis by (rule one)
    next
      case False
      from invite_within [OF i \<open>handleInvite fd m s = _\<close>] show ?thesis
        by (rule replies_within_mono) (use 4 False in \<open>auto simp: addressed_def\<close>)
    qed
  next
    case 5
    then have "handleKick fd m s = Some (r, s')" using h by (simp add: switch_by_name)
    with kick_within [OF i] mine show ?thesis by blast
  next
    case 6
    then have "handleMode fd m s = Some (r, s')" using h by (simp add: switch_by_name)
    with mode_within [OF i m] mine show ?thesis by blast
  next
    case other
    then have "handlePass fd m s = Some (r, s') \<or> handleNick fd m s = Some (r, s') \<or> handleUser fd m s = Some (r, s')
        \<or> handlePing fd m s = Some (r, s') \<or> handleCap fd m s = Some (r, s') \<or> handleInvalidCommand fd m s = Some (r, s')"
      using h by (simp add: switch_by_name split: if_splits)
    with registering_within [of fd m s r s'] reading_within [of fd m s r s'] have "replies_within {fd} r" by blast
    then show ?thesis by (rule one)
  qed
qed

lemma guest_within:
  assumes i: "issuer s fd p c" and guest: "\<not> registered c" and run: "dispatch mem fd m s = Some (r, s')"
  shows "replies_within {fd} r"
proof (cases "gated (cmdNameToNumber cmds (command m))")
  case True
  with dispatch_guest [of fd s c m mem] issuerD [OF i] guest run show ?thesis by auto
next
  case False
  then have "dispatch_switch mem (cmdNameToNumber cmds (command m)) fd m s = Some (r, s')"
    using run by (simp add: dispatch_open)
  with False have "handlePass fd m s = Some (r, s') \<or> handleNick fd m s = Some (r, s')
      \<or> handleUser fd m s = Some (r, s') \<or> handleCap fd m s = Some (r, s') \<or> handleInvalidCommand fd m s = Some (r, s')"
    by (auto simp: switch_by_name gated_by_name set_cmds split: if_splits)
  with registering_within [of fd m s r s'] reading_within [of fd m s r s'] show ?thesis by blast
qed

text \<open>
  C6. Nobody listens in. Whatever a connection sends, every reply of the dispatcher goes to that
  connection itself, to a user who is in a room together with it (before or after the command), or,
  for \<open>PRIVMSG\<close> and \<open>INVITE\<close>, to the user the command names; nobody else is sent anything. A
  connection that is not registered is heard by nobody but itself.
\<close>

theorem dispatch_audience:
  assumes ok: "state_ok s" and m: "message_lf_free m" and t: "t \<in> set (replies r)"
    and run: "dispatch mem fd m s = Some (r, s')"
  shows "replyFd t = fd \<or> registered_at fd s
    \<and> (shares_room fd (replyFd t) (abs_chat s) \<or> shares_room fd (replyFd t) (abs_chat s')
       \<or> replyFd t \<in> addressed m (abs_chat s))"
  using ok
proof (cases rule: unregistered_cases [where fd = fd])
  case gone
  with switch_absent [OF gone] run t show ?thesis by (simp add: dispatch_open)
next
  case (guest c)
  then have "issuer s fd (getClientByFd fd s) c" using ok by (simp add: issuer_def)
  with guest_within [OF _ guest(5) run] t show ?thesis by (auto simp: replies_within_def)
next
  case (user c)
  then have "issuer s fd (getClientByFd fd s) c" using ok by (simp add: issuer_def)
  from user_within [OF this user(5) m run] t user show ?thesis
    by (auto simp: replies_within_def company_def registered_at_def isRegistered_def)
qed

theorem dispatch_audience_witness:
  "\<exists>r s' t. dispatch (\<lambda>i. True) 4 \<lparr>command = ''PRIVMSG'', params = [''bob'', ''hi'']\<rparr> shared_state = Some (r, s')
    \<and> replies r = [t] \<and> replyFd t = 5
    \<and> (shares_room 4 5 (abs_chat shared_state) \<or> shares_room 4 5 (abs_chat s') \<or> 5 \<in> bearers ''bob'' (abs_chat shared_state))"
proof -
  let ?m = "\<lparr>command = ''PRIVMSG'', params = [''bob'', ''hi'']\<rparr>"
  have "map_option (\<lambda>(r, s'). map replyFd (replies r)) (dispatch (\<lambda>i. True) 4 ?m shared_state) = Some [5]"
    by code_simp
  then obtain r s' t where run: "dispatch (\<lambda>i. True) 4 ?m shared_state = Some (r, s')" "replies r = [t]" "replyFd t = 5"
    by (auto simp: map_eq_Cons_conv)
  have "message_lf_free ?m" by (simp add: message_lf_free_def lf_simps)
  from dispatch_audience [OF state_ok_shared this, of t r "\<lambda>i. True" 4 s'] run
  have "shares_room 4 5 (abs_chat shared_state) \<or> shares_room 4 5 (abs_chat s') \<or> 5 \<in> addressed ?m (abs_chat shared_state)"
    by simp
  moreover have "addressed ?m (abs_chat shared_state) = bearers ''bob'' (abs_chat shared_state)"
    by (simp add: addressed_def)
  ultimately show ?thesis using run by (intro exI [of _ r] exI [of _ s'] exI [of _ t]) simp
qed

end
