(* ===== verification/Authenticity.thy ===== *)
theory Authenticity
  imports Audience "HOL-Library.Sublist"
begin

section \<open>Nobody speaks for somebody else\<close>

text \<open>
  Where a message comes from. Whatever a client makes the server send to another one starts with
  the client's own prefix, and the prefix of no other client fits: names cannot be forged.
\<close>

definition signed_by :: "int \<Rightarrow> client \<Rightarrow> t_reply \<Rightarrow> bool" where
  "signed_by fd c t \<longleftrightarrow> replyFd t = fd \<or> prefix (buildPrefix c @ '' '') (replyText t)"

definition all_signed :: "int \<Rightarrow> client \<Rightarrow> command_result \<Rightarrow> bool" where
  "all_signed fd c r \<longleftrightarrow> (\<forall>t \<in> set (replies r). signed_by fd c t)"

lemma all_signed_simps [simp]:
  "all_signed fd c CommandResult" "all_signed fd c (addReply fd x r) \<longleftrightarrow> all_signed fd c r"
  "all_signed fd c (addReplies ts r) \<longleftrightarrow> (\<forall>t \<in> set ts. signed_by fd c t) \<and> all_signed fd c r"
  by (auto simp: all_signed_def signed_by_def)

lemma within_signed: "replies_within {fd} r \<Longrightarrow> all_signed fd c r"
  by (auto simp: replies_within_def all_signed_def signed_by_def)

lemma signed_issuer [simp]: "signed_by fd c (reply_to x fd)"
  by (simp add: signed_by_def)

lemma relay_signed [simp]:
  "signed_by fd c (reply_to (reply_join c n) f)" "signed_by fd c (reply_to (reply_privMsg c n x) f)"
  "signed_by fd c (reply_to (reply_topic c n x) f)" "signed_by fd c (reply_to (reply_invite c d n) f)"
  "signed_by fd c (reply_to (reply_kick c d n x) f)" "signed_by fd c (reply_to (reply_mode c n x) f)"
  by (simp_all add: signed_by_def reply_to_def reply_join_def reply_privMsg_def reply_topic_def reply_invite_def
      reply_kick_def reply_mode_def)

subsection \<open>The commands that are heard by others\<close>

lemma topic_signed:
  assumes i: "issuer s fd p c" and run: "handleTopic fd m s = Some (r, s')"
  shows "all_signed fd c r"
  using run handleTopic_result [OF issuerD(1,3,4,6) [OF i], of m]
  by (auto simp: to_all_def split: option.splits)

lemma invite_signed:
  assumes i: "issuer s fd p c" and run: "handleInvite fd m s = Some (r, s')"
  shows "all_signed fd c r"
proof (cases "invite_change p (params m) s")
  case None
  with run handleInvite_refused [OF issuerD(3,4,6) [OF i]] show ?thesis by auto
next
  case (Some x)
  note I = issuerD [OF i]
  obtain ch q where x: "invite_change p (params m) s = Some (ch, q)" using Some by (cases x) simp
  then obtain t where t: "deref s q = Some t" using invite_changeD [OF x] dirs.by_nick_live [OF I(2)] by blast
  with run handleInvite_accepted [OF I(1,3,4,6) x t] show ?thesis
    by (auto simp: invite_replies_def split: if_splits)
qed

lemma privmsg_signed:
  assumes i: "issuer s fd p c" and run: "handlePrivMsg fd m s = Some (r, s')"
  shows "all_signed fd c r"
proof (cases "2 \<le> length (params m) \<and> params m ! 1 \<noteq> ''''")
  case False
  with run issuerD [OF i] show ?thesis
    by (auto simp: handlePrivMsg_def getParamCount_def getSingleParam_def Let_def split: if_splits)
next
  case True
  note I = issuerD [OF i]
  from True have len: "0 < length (params m)" "1 < length (params m)" by linarith+
  have "r = addReplies (concat (map (privmsg_spec fd p c (params m ! 1) s) (comma_split (params m ! 0)))) CommandResult"
    using run True len I by (auto simp: handlePrivMsg_def getParamCount_def getSingleParam_def splitByComma_eq
        privmsg_loop [OF I(1,6)] Let_def)
  then show ?thesis by (auto simp: privmsg_spec_def split: if_splits option.splits)
qed

lemma join_one_signed: "\<forall>t \<in> set (fst (join_spec mem fd p c n key s)). signed_by fd c t"
  by (auto simp: join_spec_def join_replies_def Let_def split: option.split)

lemma join_all_signed:
  assumes "issuer s fd p c" "registered c" "for_each (join_target mem fd p m) xs (r, s) = Some (r', s')"
    and "all_signed fd c r"
  shows "all_signed fd c r'"
  using assms
proof (induction xs arbitrary: r s)
  case (Cons x xs)
  obtain j n where x: "x = (j, n)" by (cases x)
  let ?j = "join_spec (mem j) fd p c n (if j < length (join_keys m) then join_keys m ! j else '''') s"
  note I = issuerD [OF Cons.prems(1)]
  have "join_target mem fd p m x (r, s) = Some (addReplies (fst ?j) r, snd ?j)"
    using joinSingleChannel_result [OF I(1,6) Cons.prems(2)] by (simp add: join_target_def x)
  with Cons.prems(3) have run: "for_each (join_target mem fd p m) xs (addReplies (fst ?j) r, snd ?j) = Some (r', s')"
    by simp
  have "all_signed fd c (addReplies (fst ?j) r)" using join_one_signed Cons.prems(4) by simp
  from Cons.IH [OF join_spec_issuer [OF Cons.prems(1,2)] Cons.prems(2) run this] show ?case .
qed simp

lemma join_signed:
  assumes i: "issuer s fd p c" and reg: "registered c" and run: "handleJoin mem fd m s = Some (r, s')"
  shows "all_signed fd c r"
proof (cases "params m = []")
  case True
  with run issuerD [OF i] show ?thesis by (auto simp: handleJoin_def getParamCount_def Let_def)
next
  case False
  have "for_each (join_target mem fd p m) (enumerate 0 (comma_split (params m ! 0))) (CommandResult, s)
      = Some (r, s')"
    using run handleJoin_loop [of fd s c m mem] issuerD [OF i] False by simp
  from join_all_signed [OF i reg this] show ?thesis by simp
qed

lemma kick_one_signed: "\<forall>t \<in> set (fst (kick_spec fd p c n reason nick s)). signed_by fd c t"
  by (auto simp: kick_spec_def to_all_def Let_def split: option.split)

lemma kick_all_signed:
  assumes "issuer s fd p c" "for_each (kickSingleTarget fd p n reason) nicks (r, s) = Some (r', s')"
    and "all_signed fd c r"
  shows "all_signed fd c r'"
  using assms
proof (induction nicks arbitrary: r s)
  case (Cons x nicks)
  let ?k = "kick_spec fd p c n reason x s"
  note I = issuerD [OF Cons.prems(1)]
  have i: "issuer (snd ?k) fd p c"
    using I state_ok_kick [OF I(1)] by (simp add: issuer_def deref_def getClientByFd_def)
  have run: "for_each (kickSingleTarget fd p n reason) nicks (addReplies (fst ?k) r, snd ?k) = Some (r', s')"
    using Cons.prems(2) by (simp add: kickSingle_result [OF I(1,6)])
  have "all_signed fd c (addReplies (fst ?k) r)" using kick_one_signed Cons.prems(3) by simp
  from Cons.IH [OF i run this] show ?case .
qed simp

lemma kick_signed:
  assumes i: "issuer s fd p c" and run: "handleKick fd m s = Some (r, s')"
  shows "all_signed fd c r"
proof (cases "2 \<le> length (params m) \<and> findChannel (params m ! 0) s \<noteq> None")
  case False
  with run issuerD [OF i] show ?thesis
    by (auto simp: handleKick_def getParamCount_def getSingleParam_def Let_def
        split: if_splits Option.bind_splits)
next
  case True
  note I = issuerD [OF i]
  obtain ch where ch: "2 \<le> length (params m)" "findChannel (params m ! 0) s = Some ch" using True by blast
  obtain reason where "for_each (kickSingleTarget fd p (params m ! 0) reason) (comma_split (params m ! 1))
      (CommandResult, s) = Some (r, s')"
    using handleKick_loop [of fd s c m ch] I ch run by auto
  from kick_all_signed [OF i this] show ?thesis by simp
qed

lemma mode_signed:
  assumes i: "issuer s fd p c" and m: "message_lf_free m" and run: "handleMode fd m s = Some (r, s')"
  shows "all_signed fd c r"
proof (cases "mode_target p (params m) s")
  case None
  with run handleMode_refused [OF issuerD(3,4,6) [OF i]] show ?thesis by auto
next
  case (Some ch)
  note I = issuerD [OF i]
  obtain w where w: "for_each (mode_step fd c (params m ! 0) m s) (params m ! 1) (mode_init ch CommandResult) = Some w"
      "handleMode fd m s = Some (mode_outcome m c s ch w, putChannel (params m ! 0) (runChannel w) s)"
    by (rule handleMode_run [OF I(1) m I(3,4,6) Some])
  have "replies_within {fd} (runResult w)"
    using mode_loop_within [OF w(1)] by (simp add: mode_init_def)
  then have "all_signed fd c (runResult w)" by (rule within_signed)
  with run w(2) show ?thesis by (auto simp: mode_outcome_def to_all_def)
qed

subsection \<open>Every command\<close>

lemma user_signed:
  assumes i: "issuer s fd p c" and user: "registered c" and m: "message_lf_free m"
    and run: "dispatch mem fd m s = Some (r, s')"
  shows "all_signed fd c r"
proof -
  have "dispatch_switch mem (cmdNameToNumber cmds (command m)) fd m s = Some (r, s')"
    using run issuerD [OF i] user by (simp add: dispatch_open)
  then consider "handleJoin mem fd m s = Some (r, s')" | "handlePrivMsg fd m s = Some (r, s')"
    | "handleTopic fd m s = Some (r, s')" | "handleInvite fd m s = Some (r, s')"
    | "handleKick fd m s = Some (r, s')" | "handleMode fd m s = Some (r, s')"
    | (self) "handlePass fd m s = Some (r, s') \<or> handleNick fd m s = Some (r, s') \<or> handleUser fd m s = Some (r, s')
        \<or> handlePing fd m s = Some (r, s') \<or> handleCap fd m s = Some (r, s') \<or> handleInvalidCommand fd m s = Some (r, s')"
    by (auto simp: switch_by_name split: if_splits)
  then show ?thesis
  proof cases
    case self
    with registering_within [of fd m s r s'] reading_within [of fd m s r s'] have "replies_within {fd} r" by blast
    then show ?thesis by (rule within_signed)
  qed (use join_signed [OF i user] privmsg_signed [OF i] topic_signed [OF i] invite_signed [OF i] kick_signed [OF i]
      mode_signed [OF i m] in blast)+
qed

text \<open>The prefix names one client: the nickname ends at the exclamation mark.\<close>

lemma prefix_names: "prefix (CHR '':'' # n @ ''!'') t \<Longrightarrow> CHR ''!'' \<notin> set n \<Longrightarrow> takeWhile (\<lambda>c. c \<noteq> CHR ''!'') (tl t) = n"
  by (auto elim!: prefixE simp: takeWhile_append)

lemma nick_unmarked: "isValidNick n \<Longrightarrow> CHR ''!'' \<notin> set n"
  using isValidNick_chars [of n]
  by (auto simp: nick_char_def isalpha_def isupper_def islower_def isdigit_def isLetterSpecial_def byte_def)

lemma buildPrefix_starts: "nickname c \<noteq> '''' \<Longrightarrow> prefix (CHR '':'' # nickname c @ ''!'') (buildPrefix c @ '' '')"
  by (simp add: buildPrefix_def getNickName_def Let_def)

lemma prefix_unique:
  assumes d: "dir_ok s" and c: "deref s p = Some c" "nickname c \<noteq> ''''" and e: "deref s q = Some e" "nickname e \<noteq> ''''"
    and t: "prefix (buildPrefix c @ '' '') t" "prefix (CHR '':'' # nickname e @ ''!'') t"
  shows "q = p"
proof -
  have "client_ok c" "client_ok e" using live_client_ok [OF d] c(1) e(1) by blast+
  then have nicks: "CHR ''!'' \<notin> set (nickname c)" "CHR ''!'' \<notin> set (nickname e)"
    using c(2) e(2) nick_unmarked by (auto simp: client_ok_def)
  have "prefix (CHR '':'' # nickname c @ ''!'') t"
    using prefix_order.trans [OF buildPrefix_starts [OF c(2)] t(1)] .
  from prefix_names [OF this nicks(1)] prefix_names [OF t(2) nicks(2)] have "nickname c = nickname e" by simp
  with dirs.nick_unique [OF d c(1) e(1) c(2)] show ?thesis by simp
qed

text \<open>
  C7. Names cannot be forged. Whatever a connection sends, every reply of the dispatcher to another
  connection comes from a registered client, starts with exactly its prefix \<open>:nick!user@ircServ\<close>,
  and names no other client as its origin: nobody can make the server speak for somebody else.
\<close>

theorem dispatch_authentic:
  assumes ok: "state_ok s" and m: "message_lf_free m" and t: "t \<in> set (replies r)" "replyFd t \<noteq> fd"
    and run: "dispatch mem fd m s = Some (r, s')"
  shows "\<exists>c. deref s (getClientByFd fd s) = Some c \<and> registered c \<and> prefix (buildPrefix c @ '' '') (replyText t)
    \<and> (\<forall>q d. deref s q = Some d \<and> nickname d \<noteq> '''' \<and> prefix (CHR '':'' # nickname d @ ''!'') (replyText t)
        \<longrightarrow> q = getClientByFd fd s)"
  using ok
proof (cases rule: unregistered_cases [where fd = fd])
  case gone
  with switch_absent [OF gone] run t show ?thesis by (simp add: dispatch_open)
next
  case (guest c)
  then have "issuer s fd (getClientByFd fd s) c" using ok by (simp add: issuer_def)
  with guest_within [OF _ guest(5) run] t show ?thesis by (auto simp: replies_within_def)
next
  case (user c)
  then have i: "issuer s fd (getClientByFd fd s) c" using ok by (simp add: issuer_def)
  have p: "prefix (buildPrefix c @ '' '') (replyText t)"
    using user_signed [OF i user(5) m run] t by (auto simp: all_signed_def signed_by_def)
  have "nickname c \<noteq> ''''" using user(4,5) by (simp add: client_ok_def complete_def)
  from prefix_unique [OF state_ok_dir [OF ok] user(2) this _ _ p] user(2,5) p show ?thesis by blast
qed

theorem dispatch_authentic_witness:
  "\<exists>r s' t. dispatch (\<lambda>i. True) 5 \<lparr>command = ''PRIVMSG'', params = [''#lobby'', '':ada!ada@ircServ hi'']\<rparr> shared_state
      = Some (r, s')
    \<and> replies r = [t] \<and> replyFd t = 4 \<and> prefix '':bob!bob@ircServ '' (replyText t)"
proof -
  let ?m = "\<lparr>command = ''PRIVMSG'', params = [''#lobby'', '':ada!ada@ircServ hi'']\<rparr>"
  have "map_option (\<lambda>(r, s'). map replyFd (replies r)) (dispatch (\<lambda>i. True) 5 ?m shared_state) = Some [4]"
    by code_simp
  then obtain r s' t where run: "dispatch (\<lambda>i. True) 5 ?m shared_state = Some (r, s')" "replies r = [t]" "replyFd t = 4"
    by (auto simp: map_eq_Cons_conv)
  have m: "message_lf_free ?m" by (simp add: message_lf_free_def lf_simps)
  obtain c where "deref shared_state (getClientByFd 5 shared_state) = Some c"
      "prefix (buildPrefix c @ '' '') (replyText t)"
    using dispatch_authentic [OF state_ok_shared m, of t r 5 "\<lambda>i. True" s'] run by auto
  moreover have "deref shared_state (getClientByFd 5 shared_state) = Some (sample_client 5 ''bob'')" by simp
  moreover have "buildPrefix (sample_client 5 ''bob'') @ '' '' = '':bob!bob@ircServ ''"
    by (simp add: buildPrefix_def sample_client_def getNickName_def getUserName_def)
  ultimately show ?thesis using run by (intro exI [of _ r] exI [of _ s'] exI [of _ t]) auto
qed

end
