(* ===== verification/Chat_Server.thy ===== *)
theory Chat_Server
  imports Chat_Refinement Server_Authentication Server_Rounds
begin

section \<open>The running server implements the chat service\<close>

text \<open>
  The service with its connections: bytes arrive in pieces, complete lines are commands, and what is
  left of a line waits for the next piece. Every event of the server is the event of this machine,
  and so is every run.
\<close>

subsection \<open>Arriving and leaving\<close>

lemma arrive_refines:
  assumes ok: "state_ok s" and mem: "fresh mem s"
  shows "abs_chat (snd (addNewClient mem fd s))
    = (if mem = None then abs_chat s else chat_arrive fd (abs_chat s))"
proof (cases "map_find (clientsByFd s) fd = None \<and> mem \<noteq> None")
  case False
  then have "snd (addNewClient mem fd s) = s" by (auto simp: addNewClient_def)
  moreover have "cUsers (abs_chat s) fd \<noteq> None" if "map_find (clientsByFd s) fd \<noteq> None"
    using that getClientByFd_NULL [OF state_ok_dir [OF ok], of fd]
      dirs.by_fd_live [OF state_ok_dir [OF ok], of fd] by auto
  ultimately show ?thesis using False by (auto simp: chat_arrive_def)
next
  case True
  then obtain p where p: "mem = Some p" "p \<noteq> NULL" "deref s p = None"
    using mem by (auto simp: fresh_def)
  let ?s = "(store p (Client fd) s)\<lparr>clientsByFd := map_put fd p (clientsByFd s)\<rparr>"
  have null: "getClientByFd fd s = NULL" using True getClientByFd_NULL [OF state_ok_dir [OF ok]] by simp
  have here: "deref ?s q = deref s q" if "q \<noteq> p" for q using that by simp
  have lookup: "getClientByFd f ?s = (if f = fd then p else getClientByFd f s)" for f
    by (simp add: getClientByFd_def map_find_put)
  have other: "getClientByFd f s \<noteq> p" for f
    using p dirs.by_fd_live [OF state_ok_dir [OF ok], of f] by auto
  have "abs_chat ?s = put_user fd stranger (abs_chat s)"
  proof (rule chat_eqI)
    fix f
    show "cUsers (abs_chat ?s) f = cUsers (put_user fd stranger (abs_chat s)) f"
      using other [of f] by (simp add: lookup) (simp add: abs_user_def Client_def stranger_def)
  next
    fix n
    have "abs_room ?s ch = abs_room s ch" if "findChannel n s = Some ch" for ch
    proof (rule abs_room_cong, rule fd_of_same, rule here)
      fix q assume "q \<in> set (members ch) \<union> set (operators ch) \<union> set (invited ch)"
      then have "deref s q \<noteq> None" using findChannel_entry [OF ok that] entry_ok_refs by blast
      with p show "q \<noteq> p" by auto
    qed
    moreover have "findChannel n ?s = findChannel n s" by simp
    ultimately show "cRooms (abs_chat ?s) n = cRooms (put_user fd stranger (abs_chat s)) n"
      by (cases "findChannel n s") (simp_all del: findChannel_simps)
  qed simp
  moreover have "cUsers (abs_chat s) fd = None"
    using null dir_ok_null [OF state_ok_dir [OF ok]] by simp
  ultimately show ?thesis using True p by (simp add: addNewClient_new chat_arrive_def)
qed

lemma leave_absent:
  assumes ok: "state_ok s" and none: "getClientByFd fd s = NULL"
  shows "chat_leave fd (abs_chat s) = abs_chat s"
proof (rule chat_eqI)
  note d = state_ok_dir [OF ok]
  show "cUsers (chat_leave fd (abs_chat s)) f = cUsers (abs_chat s) f" for f
    using none dir_ok_null [OF d] by (simp add: chat_leave_def)
  show "cRooms (chat_leave fd (abs_chat s)) n = cRooms (abs_chat s) n" for n
  proof (cases "findChannel n s")
    case (Some ch)
    then have e: "entry_ok s n ch" "members ch \<noteq> []" using findChannel_entry [OF ok] by blast+
    have "fd_of s q \<noteq> fd" if q: "q \<in> set (members ch) \<union> set (operators ch) \<union> set (invited ch)" for q
    proof
      assume fd: "fd_of s q = fd"
      obtain c where c: "deref s q = Some c" using entry_ok_refs [OF e(1) q] by blast
      with fd have "getClientByFd fd s = q" using dirs.live_by_fd [OF d c] by (simp add: fd_of_Some)
      with none dirs.live_not_null [OF d c] show False by simp
    qed
    then have "fd \<notin> fd_of s ` set (members ch)" "fd \<notin> fd_of s ` set (operators ch)"
      "fd \<notin> fd_of s ` set (invited ch)" by auto
    then have "without {fd} (abs_room s ch) = Some (abs_room s ch)"
      using e(2) by (auto simp: without_def abs_room_def subset_singleton_iff)
    with Some show ?thesis by (simp add: chat_leave_def)
  qed (simp add: chat_leave_def)
qed (simp add: chat_leave_def)

lemma leave_refines:
  assumes ok: "state_ok s" and run: "removeClient fd s = Some (b, s')"
  shows "abs_chat s' = chat_leave fd (abs_chat s)"
proof (cases "map_find (clientsByFd s) fd")
  case None
  with run removeClient_result [OF state_ok_dir [OF ok], of fd] have "s' = s" by simp
  with leave_absent [OF ok] None getClientByFd_NULL [OF state_ok_dir [OF ok]] show ?thesis by simp
next
  case (Some p)
  note d = state_ok_dir [OF ok]
  obtain c where c: "deref s p = Some c" "socketFd c = fd" using fd_fwd [OF d Some] by blast
  with run removeClient_result [OF d, of fd] Some have s': "s' = removed fd p c s" by simp
  have p: "fd_of s p = fd" using c by (simp add: fd_of_Some)
  have lookup: "getClientByFd f s' = (if f = fd then NULL else getClientByFd f s)" for f
    by (simp add: s' getClientByFd_def removed_def map_find_simps)
  have other: "getClientByFd f s \<noteq> p" if "f \<noteq> fd" for f
    using that c dirs.by_fd_live [OF d, of f] dirs.live_not_null [OF d c(1)] by force
  show ?thesis
  proof (rule chat_eqI)
    show "cPass (abs_chat s') = cPass (chat_leave fd (abs_chat s))"
      by (simp add: s' removed_def chat_leave_def)
    show "cUsers (abs_chat s') f = cUsers (chat_leave fd (abs_chat s)) f" for f
      using other [of f] dir_ok_null [OF d] lookup [of f]
      by (cases "f = fd") (simp_all add: chat_leave_def removed_deref [of fd p c s, folded s'])
    show "cRooms (abs_chat s') n = cRooms (chat_leave fd (abs_chat s)) n" for n
    proof (cases "findChannel n s")
      case None
      then show ?thesis
        by (simp add: chat_leave_def s' removed_findChannel findChannel_swept [OF ok])
    next
      case (Some ch)
      have "abs_room s' (drop_client p ch) = abs_room s (drop_client p ch)"
        by (rule abs_room_cong, rule fd_of_same) (auto simp: s' removed_deref std_set_simps)
      with abs_room_dropped [OF ok Some c(1)] show ?thesis
        by (simp add: Some chat_leave_def s' removed_findChannel findChannel_swept [OF ok] p split: if_splits)
    qed
  qed
qed

subsection \<open>The service with its connections\<close>

text \<open>What a complete line means, and a sequence of lines; \<open>mems i\<close> is the memory for line \<open>i\<close>.\<close>

definition chat_line :: "(nat \<Rightarrow> bool) \<Rightarrow> int \<Rightarrow> string \<Rightarrow> chat \<Rightarrow> chat" where
  "chat_line mem fd line C =
     (let m = spec_parse line in if command m = '''' then C else chat_step mem fd m C)"

primrec chat_lines :: "(nat \<Rightarrow> nat \<Rightarrow> bool) \<Rightarrow> nat \<Rightarrow> int \<Rightarrow> string list \<Rightarrow> chat \<Rightarrow> chat" where
  "chat_lines mems i fd [] C = C"
| "chat_lines mems i fd (l # ls) C = chat_lines mems (i + 1) fd ls (chat_line (mems i) fd l C)"

record service =
  chat_of :: chat
  pending :: "int \<Rightarrow> string"

inductive service_step :: "service \<Rightarrow> event \<Rightarrow> service \<Rightarrow> bool" where
  "service_step S (Accept fd None) (S\<lparr>pending := (pending S)(fd := '''')\<rparr>)"
| "service_step S (Accept fd (Some p))
     (S\<lparr>chat_of := chat_arrive fd (chat_of S), pending := (pending S)(fd := '''')\<rparr>)"
| "consume (pending S fd) (sanitize bytes) = (ls, rest) \<Longrightarrow>
     service_step S (Receive fd bytes)
       (S\<lparr>chat_of := chat_lines mems 0 fd ls (chat_of S), pending := (pending S)(fd := rest)\<rparr>)"
| "service_step S (Send fd n) S"
| "service_step S (Close fd)
     (S\<lparr>chat_of := chat_leave fd (chat_of S), pending := (pending S)(fd := '''')\<rparr>)"
| "service_step S Poll S"

inductive service_run :: "service \<Rightarrow> event list \<Rightarrow> service \<Rightarrow> bool" where
  service_nil: "service_run S [] S"
| service_snoc: "service_run S es S1 \<Longrightarrow> service_step S1 e S2 \<Longrightarrow> service_run S (es @ [e]) S2"

definition abs_service :: "server \<Rightarrow> service" where
  "abs_service srv = \<lparr>chat_of = abs_chat (serverState srv), pending = buf_at (recvBuffers srv)\<rparr>"

inductive_cases service_stepE: "service_step S e S'"

lemma abs_service_simps [simp]:
  "chat_of (abs_service srv) = abs_chat (serverState srv)"
  "pending (abs_service srv) = buf_at (recvBuffers srv)"
  by (simp_all add: abs_service_def)

definition empty_service :: "string \<Rightarrow> service" where
  "empty_service pw = \<lparr>chat_of = \<lparr>cPass = pw, cUsers = (\<lambda>_. None), cRooms = (\<lambda>_. None)\<rparr>,
     pending = (\<lambda>_. '''')\<rparr>"

subsection \<open>Lines\<close>

lemma message_refines:
  assumes core: "srv_core srv" and line: "lf_free line" and run: "processMessage mem fd line srv = Some srv'"
  shows "abs_chat (serverState srv') = chat_line mem fd line (abs_chat (serverState srv))"
proof -
  have ok: "state_ok (serverState srv)" by (rule srv_coreD(1) [OF core])
  have lf: "message_lf_free (spec_parse line)" by (rule parse_lf_free [OF line parse_eq_spec])
  obtain r s where d: "dispatch mem fd (spec_parse line) (serverState srv) = Some (r, s)" "\<not> disconnect r"
    by (rule dispatcher.returns [OF ok lf TrueI])
  then have "serverState srv' = (if command (spec_parse line) = '''' then serverState srv else s)"
    using run by (auto simp: processMessage_def parse_eq_spec shouldDisconnect_def Let_def)
  with dispatch_refines [OF ok lf d(1)] show ?thesis by (simp add: chat_line_def Let_def)
qed

lemma lines_refine:
  assumes "srv_core srv" and "list_all lf_free ls" and "process_lines mems i fd ls srv = Some srv'"
  shows "abs_chat (serverState srv') = chat_lines mems i fd ls (abs_chat (serverState srv))"
  using assms
proof (induction ls arbitrary: i srv)
  case (Cons l ls)
  from Cons.prems have l: "lf_free l" "list_all lf_free ls" by simp_all
  obtain s1 where s1: "processMessage (mems i) fd l srv = Some s1" "srv_core s1"
    by (rule processMessage_core [OF Cons.prems(1) l(1)])
  then have "process_lines mems (Suc i) fd ls s1 = Some srv'" using Cons.prems(3) by simp
  from Cons.IH [OF s1(2) l(2) this] message_refines [OF Cons.prems(1) l(1) s1(1)]
  show ?case by simp
qed simp

subsection \<open>Events\<close>

lemma buf_at_set [simp]: "buf_at (set_buf fd b m) = (buf_at m)(fd := b)"
  by (auto simp: buf_at_def set_buf_def map_find_simps)

lemma buf_at_erase: "buf_at (map_erase fd m) = (buf_at m)(fd := '''')"
  by (auto simp: buf_at_def map_find_simps)

lemma receive_refines:
  assumes ok: "srv_ok s" and fd: "fd \<in> conns s" and bytes: "bytes \<noteq> ''''" "length bytes < 512"
    and run: "receiveData mems fd (Received bytes) s = Some s'"
  shows "service_step (abs_service s) (Receive fd bytes) (abs_service s')"
proof -
  have core: "srv_core s" and lf: "lf_free (buf_at (recvBuffers s) fd)" using ok by (simp_all add: srv_ok_def)
  obtain ls rest where lines: "consume (buf_at (recvBuffers s) fd) (sanitize bytes) = (ls, rest)"
    by (cases "consume (buf_at (recvBuffers s) fd) (sanitize bytes)")
  then have lsr: "list_all lf_free ls" using consume_results [OF lf, of "sanitize bytes"] by simp
  let ?s = "s\<lparr>recvBuffers := set_buf fd rest (recvBuffers s)\<rparr>"
  have core1: "srv_core ?s" by (rule srv_core_recv [OF core fd])
  have "process_lines mems 0 fd ls ?s = Some s'"
    using receiveData_spec [OF core fd bytes] consume_from_rest [OF lf] lines run by simp
  moreover obtain s1 where "process_lines mems 0 fd ls ?s = Some s1" "recvBuffers s1 = recvBuffers ?s"
    by (rule process_lines_core [OF core1 lsr])
  ultimately have "recvBuffers s' = recvBuffers ?s"
    "abs_chat (serverState s') = chat_lines mems 0 fd ls (abs_chat (serverState s))"
    using lines_refine [OF core1 lsr] by auto
  then have "abs_service s' = (abs_service s)\<lparr>chat_of := chat_lines mems 0 fd ls (chat_of (abs_service s)),
      pending := (pending (abs_service s))(fd := rest)\<rparr>"
    by (simp add: abs_service_def)
  with service_step.intros(3) [of "abs_service s" fd bytes ls rest mems] lines show ?thesis by simp
qed

lemma close_refines:
  assumes "srv_ok s" and run: "disconnectClient fd s = Some s'"
  shows "service_step (abs_service s) (Close fd) (abs_service s')"
proof -
  have ok: "state_ok (serverState s)" using assms(1) srv_coreD(1) by (simp add: srv_ok_def)
  obtain b t where t: "removeClient fd (serverState s) = Some (b, t)" by (rule removeClient_ok [OF ok])
  with run have "serverState s' = t" by (auto simp: disconnectClient_def Let_def)
  with leave_refines [OF ok t] disconnect_recv [OF run]
  have "abs_service s' = (abs_service s)\<lparr>chat_of := chat_leave fd (chat_of (abs_service s)),
      pending := (pending (abs_service s))(fd := '''')\<rparr>"
    by (simp add: abs_service_def buf_at_erase)
  with service_step.intros(5) [of "abs_service s" fd] show ?thesis by simp
qed

lemma step_refines:
  assumes "server_step s e s'" and "srv_ok s"
  shows "service_step (abs_service s) e (abs_service s')"
  using assms
proof (induction rule: server_step.induct)
  case (step_accept fd s mem)
  then have ok: "state_ok (serverState s)" using srv_coreD(1) by (simp add: srv_ok_def)
  have "abs_service (acceptNewClient fd mem s) = (abs_service s)
      \<lparr>chat_of := (if mem = None then chat_of (abs_service s) else chat_arrive fd (chat_of (abs_service s))),
       pending := (pending (abs_service s))(fd := '''')\<rparr>"
    using step_accept arrive_refines [OF ok step_accept(4), of fd]
    by (simp add: abs_service_def acceptNewClient_def)
  with service_step.intros(1,2) [of "abs_service s" fd] show ?case
    by (cases mem) (simp_all add: abs_service_def)
next
  case (step_receive fd s bytes mems s')
  then show ?case by (intro receive_refines)
next
  case (step_send fd s n s')
  obtain t where "sendData fd n s = Some t" "recvBuffers t = recvBuffers s" "serverState t = serverState s"
    by (rule sendData_ok [OF step_send(4,1,2)])
  then have "abs_service s' = abs_service s" using step_send(3) by (simp add: abs_service_def)
  then show ?case by (simp add: service_step.intros)
next
  case (step_close fd s s')
  then show ?case by (intro close_refines)
next
  case (step_poll s f)
  have "abs_service (s\<lparr>pollfds := set_revents f (pollfds s)\<rparr>) = abs_service s" by (simp add: abs_service_def)
  then show ?case by (simp only: service_step.intros)
qed

lemma run_refines:
  "server_run s es s' \<Longrightarrow> srv_ok s \<Longrightarrow> service_run (abs_service s) es (abs_service s')"
proof (induction rule: server_run.induct)
  case (run_snoc s es s1 e s2)
  then have "srv_ok s1" using run_ok by blast
  with run_snoc step_refines show ?case by (blast intro: service_snoc)
qed (rule service_nil)

text \<open>Closing the listener, or a descriptor that is closed already, is nothing to the service.\<close>

lemma loop_refines:
  "loop_run s es s' \<Longrightarrow> srv_ok s \<Longrightarrow> service_run (abs_service s) es (abs_service s')"
proof (induction rule: loop_run.induct)
  case (loop_step s es s1 e s2)
  then have "srv_ok s1" using loop_run_ok by blast
  with loop_step step_refines show ?case by (blast intro: service_snoc)
next
  case (loop_again s es fd s1 s2)
  then have "srv_ok s1" using loop_run_ok by blast
  with loop_again close_refines have "service_run (abs_service s) ((es @ [Close fd]) @ [Close fd]) (abs_service s2)"
    by (blast intro: service_snoc)
  then show ?case by simp
next
  case (loop_hangup s es s1 s2)
  then have "srv_ok s1" using loop_run_ok by blast
  with loop_hangup close_refines show ?case by (blast intro: service_snoc)
qed (rule service_nil)

lemma start_refines: "Server inp p pw = Inr srv \<Longrightarrow> abs_service srv = empty_service pw"
  by (auto simp: abs_service_def empty_service_def abs_chat_def Server_result ServerState_def buf_at_def
      findChannel_def getClientByFd_def deref_def map_find_simps split: if_splits)



end
