(* ===== verification/Membership.thy ===== *)
theory Membership
  imports Chat_Server Audience
begin

section \<open>How users come into rooms and into office\<close>

text \<open>
  Consequences of the refinement that are easy to prove of the chat service and then hold of the
  server: who is in a room has asked for it, and who runs a room has created it or was appointed by
  one who ran it.
\<close>

subsection \<open>One command\<close>

definition inside :: "string \<Rightarrow> int \<Rightarrow> chat \<Rightarrow> bool" where
  "inside n f C \<longleftrightarrow> (\<exists>R. cRooms C n = Some R \<and> f \<in> rMembers R)"

definition runs_room :: "string \<Rightarrow> int \<Rightarrow> chat \<Rightarrow> bool" where
  "runs_room n f C \<longleftrightarrow> (\<exists>R. cRooms C n = Some R \<and> f \<in> rOps R)"

definition asks_for :: "string \<Rightarrow> message \<Rightarrow> bool" where
  "asks_for n m \<longleftrightarrow> command m = ''JOIN'' \<and> params m \<noteq> [] \<and> n \<in> set (comma_split (params m ! 0))"

lemma mode_char_members: "rMembers (snd (snd (mode_char C x st))) = rMembers (snd (snd st))"
  by (cases st) (auto simp: Let_def split: list.split)

lemma mode_fold_members: "rMembers (snd (snd (fold (mode_char C) cs st))) = rMembers (snd (snd st))"
  by (induction cs arbitrary: st) (simp_all add: mode_char_members del: mode_char.simps)

lemma enter_inside: "inside n f (chat_enter mem fd key k C) \<Longrightarrow> inside n f C \<or> f = fd \<and> n = k"
  by (auto simp: inside_def chat_enter_def new_room_def split: if_splits option.splits)

lemma enters_inside:
  "inside n f (fold (\<lambda>(i, k). chat_enter (mem i) fd (key i) k) xs C) \<Longrightarrow>
    inside n f C \<or> f = fd \<and> n \<in> snd ` set xs"
  by (induction xs arbitrary: C) (fastforce dest: enter_inside)+

lemma drop_inside: "inside n f (chat_drop fd k nick C) \<Longrightarrow> inside n f C"
  by (auto simp: inside_def chat_drop_def without_def split: if_splits option.splits)

lemma drops_inside: "inside n f (fold (chat_drop fd k) xs C) \<Longrightarrow> inside n f C"
  by (induction xs arbitrary: C) (auto dest: drop_inside)

lemma enumerate_member: "(i, x) \<in> set (enumerate k xs) \<Longrightarrow> x \<in> set xs"
  by (metis image_eqI list.set_map map_snd_enumerate snd_conv)

lemma chat_step_cases [consumes 1, case_names join kick mode rest]:
  assumes "cUsers C fd = Some u"
  obtains "command m = ''JOIN''" "chat_step mem fd m C = C \<or> chat_step mem fd m C = chat_join mem fd (params m) C"
    | "command m = ''KICK''" "chat_step mem fd m C = C \<or> chat_step mem fd m C = chat_kick fd (params m) C"
    | "command m = ''MODE''" "chat_step mem fd m C = C \<or> chat_step mem fd m C = chat_mode fd (params m) C"
    | "chat_step mem fd m C \<in> {C, chat_pass fd u (params m) C, chat_nick fd u (params m) C,
        chat_user fd u (params m) C, chat_topic fd (params m) C, chat_invite fd (params m) C}"
proof -
  have "chat_step mem fd m C \<in> {C, chat_pass fd u (params m) C, chat_nick fd u (params m) C,
        chat_user fd u (params m) C, chat_topic fd (params m) C, chat_invite fd (params m) C}"
    if "command m \<notin> {''JOIN'', ''KICK'', ''MODE''}"
    using assms that by (simp add: chat_step_def Let_def)
  moreover have "chat_step mem fd m C = C \<or> chat_step mem fd m C = chat_join mem fd (params m) C"
    if "command m = ''JOIN''"
    using assms that by (simp add: chat_step_def Let_def)
  moreover have "chat_step mem fd m C = C \<or> chat_step mem fd m C = chat_kick fd (params m) C"
    if "command m = ''KICK''"
    using assms that by (simp add: chat_step_def Let_def)
  moreover have "chat_step mem fd m C = C \<or> chat_step mem fd m C = chat_mode fd (params m) C"
    if "command m = ''MODE''"
    using assms that by (simp add: chat_step_def Let_def)
  ultimately show ?thesis using that by blast
qed

lemma step_inside:
  assumes "inside n f (chat_step mem fd m C)"
  shows "inside n f C \<or> f = fd \<and> asks_for n m"
proof (cases "cUsers C fd")
  case None
  with assms show ?thesis by (simp add: chat_step_def)
next
  case (Some u)
  then show ?thesis
  proof (cases rule: chat_step_cases [where mem = mem and m = m])
    case join
    have "inside n f (chat_join mem fd (params m) C) \<Longrightarrow> inside n f C \<or> f = fd \<and> asks_for n m"
      using join(1)
      by (auto simp: chat_join_def asks_for_def Let_def dest!: enters_inside dest: enumerate_member split: if_splits)
    with join assms show ?thesis by auto
  next
    case kick
    have "inside n f (chat_kick fd (params m) C) \<Longrightarrow> inside n f C"
      by (auto simp: chat_kick_def dest: drops_inside split: if_splits)
    with kick assms show ?thesis by auto
  next
    case mode
    have "inside n f (chat_mode fd (params m) C) \<Longrightarrow> inside n f C"
      by (auto simp: chat_mode_def inside_def mode_fold_members split: if_splits option.splits)
    with mode assms show ?thesis by auto
  next
    case rest
    have same: "inside n f (put_user fd v C) \<longleftrightarrow> inside n f C" for v by (simp add: inside_def)
    have "inside n f (chat_topic fd (params m) C) \<Longrightarrow> inside n f C"
      "inside n f (chat_invite fd (params m) C) \<Longrightarrow> inside n f C"
      by (auto simp: chat_topic_def chat_invite_def inside_def split: if_splits option.splits)
    moreover have "inside n f (chat_pass fd u (params m) C) = inside n f C"
      "inside n f (chat_nick fd u (params m) C) = inside n f C"
      "inside n f (chat_user fd u (params m) C) = inside n f C"
      by (simp_all add: chat_pass_def chat_nick_def chat_user_def same)
    ultimately show ?thesis using rest assms by auto
  qed
qed

text \<open>
  Who a mode string appoints: where it has an \<open>o\<close>, and the sign in force there is \<open>+\<close>, the bearer of
  the nickname that is the first argument left at that place.
\<close>

definition appointed :: "string list \<Rightarrow> chat \<Rightarrow> room \<Rightarrow> int \<Rightarrow> bool" where
  "appointed ps C R f \<longleftrightarrow>
     (\<exists>before after nick rest R'. ps ! 1 = before @ CHR ''o'' # after
       \<and> fold (mode_char C) before (True, drop 2 ps, R) = (True, nick # rest, R') \<and> f \<in> bearers nick C)"

lemma mode_char_ops:
  assumes "f \<in> rOps (snd (snd (mode_char C x (add, ps, R))))" and "f \<notin> rOps R"
  shows "x = CHR ''o'' \<and> add \<and> (\<exists>nick rest. ps = nick # rest \<and> f \<in> bearers nick C) \<and> f \<in> rMembers R"
  using assms by (auto simp: Let_def split: if_splits list.splits)

lemma mode_fold_ops:
  "f \<in> rOps (snd (snd (fold (mode_char C) cs st))) \<Longrightarrow> f \<notin> rOps (snd (snd st)) \<Longrightarrow>
    (\<exists>before after nick rest R'. cs = before @ CHR ''o'' # after
      \<and> fold (mode_char C) before st = (True, nick # rest, R') \<and> f \<in> bearers nick C) \<and> f \<in> rMembers (snd (snd st))"
proof (induction cs arbitrary: st)
  case (Cons x cs)
  obtain add ps R where st: "st = (add, ps, R)" by (cases st)
  show ?case
  proof (cases "f \<in> rOps (snd (snd (mode_char C x st)))")
    case True
    then obtain nick rest where "x = CHR ''o''" "add" "ps = nick # rest" "f \<in> bearers nick C" "f \<in> rMembers R"
      using mode_char_ops [of f C x add ps R] Cons.prems(2) st by (auto simp del: mode_char.simps)
    then show ?thesis using st
      by (intro conjI exI [of _ "''''"] exI [of _ cs] exI [of _ nick] exI [of _ rest] exI [of _ R]) simp_all
  next
    case False
    from Cons.IH [OF _ False] Cons.prems(1) obtain b a nick rest R'
      where "cs = b @ CHR ''o'' # a" "fold (mode_char C) b (mode_char C x st) = (True, nick # rest, R')"
        "f \<in> bearers nick C" "f \<in> rMembers (snd (snd st))"
      by (auto simp: mode_char_members simp del: mode_char.simps)
    then show ?thesis
      by (intro conjI exI [of _ "x # b"] exI [of _ a] exI [of _ nick] exI [of _ rest] exI [of _ R'])
        (simp_all del: mode_char.simps)
  qed
qed simp

lemma enter_runs:
  "runs_room n f (chat_enter mem fd key k C) \<Longrightarrow> runs_room n f C \<or> f = fd \<and> n = k \<and> cRooms C n = None"
  by (auto simp: runs_room_def chat_enter_def new_room_def split: if_splits option.splits)

lemma enter_none: "cRooms (chat_enter mem fd key k C) n = None \<Longrightarrow> cRooms C n = None"
  by (auto simp: chat_enter_def split: if_splits option.splits)

lemma enters_runs:
  "runs_room n f (fold (\<lambda>(i, k). chat_enter (mem i) fd (key i) k) xs C) \<Longrightarrow>
    runs_room n f C \<or> f = fd \<and> n \<in> snd ` set xs \<and> cRooms C n = None"
  by (induction xs arbitrary: C) (fastforce dest: enter_runs enter_none)+

lemma drop_runs: "runs_room n f (chat_drop fd k nick C) \<Longrightarrow> runs_room n f C"
  by (auto simp: runs_room_def chat_drop_def without_def split: if_splits option.splits)

lemma drops_runs: "runs_room n f (fold (chat_drop fd k) xs C) \<Longrightarrow> runs_room n f C"
  by (induction xs arbitrary: C) (auto dest: drop_runs)

lemma step_runs:
  assumes "runs_room n f (chat_step mem fd m C)"
  shows "runs_room n f C \<or> f = fd \<and> asks_for n m \<and> cRooms C n = None
    \<or> command m = ''MODE'' \<and> params m ! 0 = n
      \<and> (\<exists>R. cRooms C n = Some R \<and> fd \<in> rOps R \<and> f \<in> rMembers R \<and> appointed (params m) C R f)"
proof (cases "cUsers C fd")
  case None
  with assms show ?thesis by (simp add: chat_step_def)
next
  case (Some u)
  then show ?thesis
  proof (cases rule: chat_step_cases [where mem = mem and m = m])
    case join
    have "runs_room n f (chat_join mem fd (params m) C) \<Longrightarrow>
        runs_room n f C \<or> f = fd \<and> asks_for n m \<and> cRooms C n = None"
      using join(1)
      by (auto simp: chat_join_def asks_for_def Let_def dest!: enters_runs dest: enumerate_member split: if_splits)
    with join assms show ?thesis by auto
  next
    case kick
    have "runs_room n f (chat_kick fd (params m) C) \<Longrightarrow> runs_room n f C"
      by (auto simp: chat_kick_def dest: drops_runs split: if_splits)
    with kick assms show ?thesis by auto
  next
    case mode
    have "runs_room n f (chat_mode fd (params m) C) \<Longrightarrow> runs_room n f C \<or> params m ! 0 = n
      \<and> (\<exists>R. cRooms C n = Some R \<and> fd \<in> rOps R \<and> f \<in> rMembers R \<and> appointed (params m) C R f)"
      using mode_fold_ops [of f C "params m ! 1" "(True, drop 2 (params m), R)" for R]
      by (fastforce simp: chat_mode_def runs_room_def appointed_def split: if_splits option.splits)
    with mode assms show ?thesis by auto
  next
    case rest
    have same: "runs_room n f (put_user fd v C) \<longleftrightarrow> runs_room n f C" for v by (simp add: runs_room_def)
    have "runs_room n f (chat_topic fd (params m) C) \<Longrightarrow> runs_room n f C"
      "runs_room n f (chat_invite fd (params m) C) \<Longrightarrow> runs_room n f C"
      by (auto simp: chat_topic_def chat_invite_def runs_room_def split: if_splits option.splits)
    moreover have "runs_room n f (chat_pass fd u (params m) C) = runs_room n f C"
      "runs_room n f (chat_nick fd u (params m) C) = runs_room n f C"
      "runs_room n f (chat_user fd u (params m) C) = runs_room n f C"
      by (simp_all add: chat_pass_def chat_nick_def chat_user_def same)
    ultimately show ?thesis using rest assms by auto
  qed
qed

text \<open>
  C8. Office is never usurped. If after a command a user runs a room, then it ran the room before, or
  it is the issuer and created the room by asking to join it when it did not exist, or the command is
  a \<open>MODE\<close> for this room by a user who ran it, the appointed user was in it, and it bears the nickname
  that an \<open>o\<close> of the mode string, with the sign \<open>+\<close> in force, takes as its argument.
\<close>

theorem operators_appointed:
  assumes ok: "state_ok s" and m: "message_lf_free m" and run: "dispatch mem fd m s = Some (r, s')"
    and ch: "findChannel n s' = Some ch" and q: "q \<in> set (operators ch)"
  shows "runs_room n (fd_of s' q) (abs_chat s)
    \<or> fd_of s' q = fd \<and> asks_for n m \<and> findChannel n s = None
    \<or> command m = ''MODE'' \<and> params m ! 0 = n \<and> (\<exists>R. cRooms (abs_chat s) n = Some R \<and> fd \<in> rOps R
        \<and> fd_of s' q \<in> rMembers R \<and> appointed (params m) (abs_chat s) R (fd_of s' q))"
proof -
  have "runs_room n (fd_of s' q) (abs_chat s')" using ch q by (simp add: runs_room_def)
  with step_runs [of n "fd_of s' q" mem fd m "abs_chat s"] dispatch_refines [OF ok m run] show ?thesis
    by simp
qed

subsection \<open>Whole runs\<close>

lemma line_inside: "inside n f (chat_line mem fd l C) \<Longrightarrow> inside n f C \<or> f = fd \<and> asks_for n (spec_parse l)"
  by (auto simp: chat_line_def Let_def dest: step_inside split: if_splits)

lemma lines_inside:
  "inside n f (chat_lines mems i fd ls C) \<Longrightarrow>
    inside n f C \<or> f = fd \<and> (\<exists>l \<in> set ls. asks_for n (spec_parse l))"
  by (induction ls arbitrary: i C) (fastforce dest: line_inside)+

definition entered :: "event list \<Rightarrow> server \<Rightarrow> bool" where
  "entered es s \<longleftrightarrow> (\<forall>n f. inside n f (abs_chat (serverState s)) \<longrightarrow>
     (\<exists>l \<in> set (lines_of f es). asks_for n (spec_parse l)))"

lemma inside_connected:
  assumes "srv_ok s" "inside n f (abs_chat (serverState s))"
  shows "f \<in> conns s"
proof -
  have core: "srv_core s" using assms(1) by (simp add: srv_ok_def)
  have ok: "state_ok (serverState s)" by (rule srv_coreD(1) [OF core])
  obtain ch q where ch: "findChannel n (serverState s) = Some ch" "q \<in> set (members ch)" "f = fd_of (serverState s) q"
    using assms(2) by (auto simp: inside_def)
  then obtain c where c: "deref (serverState s) q = Some c"
    using findChannel_entry [OF ok ch(1)] entry_ok_live by blast
  then have "getClientByFd f (serverState s) = q"
    using ch(3) dirs.live_by_fd [OF state_ok_dir [OF ok] c] by (simp add: fd_of_Some)
  then show ?thesis
    using dirs.live_not_null [OF state_ok_dir [OF ok] c] srv_coreD(7) [OF core] by simp
qed

lemma arrive_inside [simp]: "inside n f (chat_arrive fd C) = inside n f C"
  by (simp add: inside_def chat_arrive_def)

lemma leave_inside: "inside n f (chat_leave fd C) \<Longrightarrow> inside n f C"
  by (auto simp: inside_def chat_leave_def without_def bind_eq_Some_conv split: if_splits)

lemma service_inside:
  assumes "service_step S e S'" and "inside n f (chat_of S')"
  shows "inside n f (chat_of S) \<or> (\<exists>bytes ls rest. e = Receive f bytes
    \<and> consume (pending S f) (sanitize bytes) = (ls, rest) \<and> (\<exists>l \<in> set ls. asks_for n (spec_parse l)))"
  using assms by (cases rule: service_step.cases) (fastforce dest: lines_inside leave_inside)+

lemma lines_kept: "(\<And>mem. e \<noteq> Accept f mem) \<Longrightarrow> set (lines_of f es) \<subseteq> set (lines_of f (es @ [e]))"
  by (cases "\<exists>bytes. e = Receive f bytes") (auto simp: lines_of_receive lines_of_other)

lemma step_entered:
  assumes step: "server_step s e s'" and t: "tracks pw es s" and old: "entered es s"
  shows "entered (es @ [e]) s'"
  unfolding entered_def
proof (intro allI impI)
  fix n f
  assume new: "inside n f (abs_chat (serverState s'))"
  have ok: "srv_ok s" using t by (simp add: tracks_def)
  consider (before) "inside n f (abs_chat (serverState s))"
    | (now) bytes ls rest l where "e = Receive f bytes" "l \<in> set ls" "asks_for n (spec_parse l)"
        "consume (buf_at (recvBuffers s) f) (sanitize bytes) = (ls, rest)"
    using service_inside [OF step_refines [OF step ok], of n f] new by auto
  then show "\<exists>l \<in> set (lines_of f (es @ [e])). asks_for n (spec_parse l)"
  proof cases
    case before
    have "e \<noteq> Accept f mem" for mem
      using inside_connected [OF ok before] step by (auto simp: conns_def elim: server_stepE)
    from lines_kept [OF this] before old show ?thesis unfolding entered_def by blast
  next
    case now
    have "f \<in> conns s" using step now(1) by (auto elim: server_stepE)
    with now tracksD(3) [OF t] show ?thesis by (auto simp: lines_of_receive)
  qed
qed

lemma run_entered:
  "server_run s es s' \<Longrightarrow> tracks pw [] s \<Longrightarrow> entered [] s \<Longrightarrow> entered es s'"
proof (induction rule: server_run.induct)
  case (run_snoc s es s1 e s2)
  then show ?case using step_entered [OF run_snoc(2) run_tracks [OF run_snoc(1,4)]] by blast
qed

lemma start_entered: "Server inp p pw = Inr srv \<Longrightarrow> entered [] srv"
  by (auto simp: entered_def inside_def Server_result ServerState_def findChannel_def map_find_simps split: if_splits)

text \<open>
  C9. Nobody is in a room without having asked. In any state that a constructed server reaches, by any
  interleaving of events on all its connections and however the bytes were cut into pieces, a client
  that is a member of a channel is registered, belongs to an open connection, and since it was
  accepted that connection has sent a complete \<open>JOIN\<close> line whose target list names the channel.
\<close>

theorem members_asked:
  assumes start: "Server inp p pw = Inr srv" and run: "server_run srv es s"
    and ch: "findChannel n (serverState s) = Some ch" and q: "q \<in> set (members ch)"
  shows "\<exists>c line m. deref (serverState s) q = Some c \<and> registered c \<and> socketFd c \<in> conns s
    \<and> line \<in> set (fst (consume '''' (heard (socketFd c) es))) \<and> parse line = Some m
    \<and> command m = ''JOIN'' \<and> params m \<noteq> [] \<and> n \<in> set (comma_split (params m ! 0))"
proof -
  have t: "tracks pw es s" by (rule run_tracks [OF run tracks_start [OF start]])
  then have ok: "srv_ok s" by (simp add: tracks_def)
  then have sok: "state_ok (serverState s)" using srv_coreD(1) by (simp add: srv_ok_def)
  obtain c where c: "deref (serverState s) q = Some c" "registered c"
    using findChannel_entry [OF sok ch] q unfolding entry_ok_def by blast
  then have i: "inside n (socketFd c) (abs_chat (serverState s))"
    using ch q by (auto simp: inside_def fd_of_Some intro!: image_eqI)
  have "entered es s" by (rule run_entered [OF run tracks_start [OF start] start_entered [OF start]])
  with i obtain l where "l \<in> set (lines_of (socketFd c) es)" "asks_for n (spec_parse l)"
    unfolding entered_def by blast
  with c inside_connected [OF ok i] show ?thesis
    by (intro exI [of _ c] exI [of _ l] exI [of _ "spec_parse l"])
      (simp add: asks_for_def parse_eq_spec lines_of_def)
qed

theorem operators_appointed_witness:
  "\<exists>r s' ch. dispatch (\<lambda>i. True) 5 \<lparr>command = ''JOIN'', params = [''#new'']\<rparr> sample_state = Some (r, s')
    \<and> findChannel ''#new'' s' = Some ch \<and> operators ch = [2]
    \<and> (runs_room ''#new'' (fd_of s' 2) (abs_chat sample_state)
       \<or> fd_of s' 2 = 5 \<and> findChannel ''#new'' sample_state = None)"
proof -
  let ?m = "\<lparr>command = ''JOIN'', params = [''#new'']\<rparr>"
  have "map_option (\<lambda>(r, s'). map_option operators (findChannel ''#new'' s')) (dispatch (\<lambda>i. True) 5 ?m sample_state)
      = Some (Some [2])"
    by code_simp
  then obtain r s' ch where run: "dispatch (\<lambda>i. True) 5 ?m sample_state = Some (r, s')"
      "findChannel ''#new'' s' = Some ch" "operators ch = [2]"
    by auto
  have "message_lf_free ?m" by (simp add: message_lf_free_def lf_simps)
  from operators_appointed [OF state_ok_sample this run(1,2), of 2] run show ?thesis by auto
qed

text \<open>A connection logs in and opens a channel.\<close>

definition sample_visit :: string where
  "sample_visit = sample_login @ ''JOIN #x'' @ [LF]"

lemma sample_visit_result:
  "map_option (\<lambda>s. map_option members (findChannel ''#x'' (serverState s)))
      (receiveData (\<lambda>i j. True) 7 (Received sample_visit) (acceptNewClient 7 (Some 40) sample_start))
    = Some (Some [40])"
  by code_simp

theorem members_asked_witness:
  "\<exists>s ch. server_run sample_start [Accept 7 (Some 40), Receive 7 sample_visit] s
    \<and> findChannel ''#x'' (serverState s) = Some ch \<and> members ch = [40]
    \<and> (\<exists>c. deref (serverState s) 40 = Some c \<and> registered c \<and> socketFd c \<in> conns s)"
proof -
  obtain s ch where s: "receiveData (\<lambda>i j. True) 7 (Received sample_visit) (acceptNewClient 7 (Some 40) sample_start) = Some s"
      "findChannel ''#x'' (serverState s) = Some ch" "members ch = [40]"
    using sample_visit_result by auto
  have run: "server_run sample_start [Accept 7 (Some 40), Receive 7 sample_visit] s"
    by (rule sample_session [OF s(1)]) (simp_all add: sample_visit_def sample_login_def)
  from members_asked [OF sample_start_ctor run s(2), of 40] s run show ?thesis
    by (intro exI [of _ s] exI [of _ ch]) auto
qed

end
