(* ===== verification/Mode_Changes.thy ===== *)
theory Mode_Changes
  imports Handlers_Mode
begin

section \<open>What a MODE command changes and announces\<close>

text \<open>
  A reference for \<open>handleMode\<close>: the list of changes that a mode string with its arguments asks for
  and that take effect, what each does to the channel, and the line that announces them. There are
  no indices, no string that is built on the way, and no memory of the last sign.
\<close>

subsection \<open>Changes\<close>

text \<open>A change: whether it sets or takes away, its letter, and its argument (or nothing).\<close>

type_synonym change = "bool \<times> char \<times> string"

fun change_channel :: "server_state \<Rightarrow> change \<Rightarrow> channel \<Rightarrow> channel" where
  "change_channel s (add, x, a) ch =
     (let m = chModes ch; q = getClientByNick a s in
      if x = CHR ''i'' then ch\<lparr>chModes := m\<lparr>inviteOnly := add\<rparr>\<rparr>
      else if x = CHR ''t'' then ch\<lparr>chModes := m\<lparr>topicRestricted := add\<rparr>\<rparr>
      else if x = CHR ''k'' then ch\<lparr>chModes := m\<lparr>channelProtected := add, channelPass := a\<rparr>\<rparr>
      else if x = CHR ''l'' then
        ch\<lparr>chModes := (if add then m\<lparr>memberLimited := True, maxMember := word_of_int (sint (atoi a))\<rparr>
                       else m\<lparr>memberLimited := False\<rparr>)\<rparr>
      else ch\<lparr>operators := (if add then set_insert q (operators ch) else set_erase q (operators ch))\<rparr>)"

text \<open>
  What a letter asks for, with the sign \<open>add\<close> in force and the arguments \<open>ps\<close> left: the arguments left
  after it, the change that takes effect, and the error reply.
\<close>

definition requested ::
  "server_state \<Rightarrow> string \<Rightarrow> bool \<Rightarrow> char \<Rightarrow> string list \<Rightarrow> channel
    \<Rightarrow> string list \<times> change option \<times> (string \<times> string) option" where
  "requested s n add x ps ch =
     (if x = CHR ''i'' then (ps, if inviteOnly (chModes ch) = add then None else Some (add, x, ''''), None)
      else if x = CHR ''t'' then (ps, if topicRestricted (chModes ch) = add then None else Some (add, x, ''''), None)
      else if x = CHR ''k'' then
        (if add then (case ps of [] \<Rightarrow> ([], None, None) | a # ps \<Rightarrow> (ps, Some (add, x, a), None))
         else if channelProtected (chModes ch) then (tl ps, Some (add, x, ''''), None) else (ps, None, None))
      else if x = CHR ''l'' then
        (if add then
           (case ps of [] \<Rightarrow> ([], None, None)
            | a # ps \<Rightarrow> (ps, if 0 < sint (atoi a) then Some (add, x, a) else None, None))
         else (ps, if memberLimited (chModes ch) then Some (add, x, '''') else None, None))
      else if x = CHR ''o'' then
        (case ps of [] \<Rightarrow> ([], None, None)
         | a # ps \<Rightarrow>
             (let q = getClientByNick a s in
              if q = NULL then (ps, None, Some (''401'', a))
              else if q \<notin> set (members ch) then (ps, None, Some (''441'', a @ '' '' @ n))
              else (ps, if (q \<in> set (operators ch)) = add then None else Some (add, x, a), None)))
      else (ps, None, Some (''472'', [x])))"

text \<open>The changes and the errors of a whole mode string, in order, and the channel it leaves.\<close>

fun mode_spec ::
  "server_state \<Rightarrow> string \<Rightarrow> string \<Rightarrow> bool \<Rightarrow> string list \<Rightarrow> channel
    \<Rightarrow> change list \<times> (string \<times> string) list \<times> channel" where
  "mode_spec s n [] add ps ch = ([], [], ch)"
| "mode_spec s n (x # xs) add ps ch =
     (if x = CHR ''+'' then mode_spec s n xs True ps ch
      else if x = CHR ''-'' then mode_spec s n xs False ps ch
      else
        (let (ps, c, e) = requested s n add x ps ch;
             ch = (case c of None \<Rightarrow> ch | Some c \<Rightarrow> change_channel s c ch);
             (cs, es, ch) = mode_spec s n xs add ps ch
         in ((case c of None \<Rightarrow> cs | Some c \<Rightarrow> c # cs), (case e of None \<Rightarrow> es | Some e \<Rightarrow> e # es), ch)))"

text \<open>The announcement: the letters, with a sign wherever it changes, and then the arguments.\<close>

fun letters :: "bool option \<Rightarrow> change list \<Rightarrow> string" where
  "letters sign [] = ''''"
| "letters sign ((add, x, a) # cs) =
     (if sign = Some add then [x] else [if add then CHR ''+'' else CHR ''-'', x]) @ letters (Some add) cs"

definition arguments :: "change list \<Rightarrow> string" where
  "arguments cs = concat (map (\<lambda>(add, x, a). if a = '''' then '''' else '' '' @ a) cs)"

definition announcement :: "change list \<Rightarrow> string" where
  "announcement cs = letters None cs @ arguments cs"

lemma arguments_simps [simp]:
  "arguments [] = ''''" "arguments ((add, x, a) # cs) = (if a = '''' then '''' else '' '' @ a) @ arguments cs"
  by (simp_all add: arguments_def)

subsection \<open>The loop against the reference\<close>

definition sign_of :: "mode_run \<Rightarrow> bool option" where
  "sign_of run = (if lastSign run = CHR ''+'' then Some True else if lastSign run = CHR ''-'' then Some False else None)"

abbreviation args_left :: "message \<Rightarrow> mode_run \<Rightarrow> string list" where
  "args_left m run \<equiv> drop (paramIndex run) (params m)"

definition with_errors :: "int \<Rightarrow> client \<Rightarrow> (string \<times> string) list \<Rightarrow> command_result \<Rightarrow> command_result" where
  "with_errors fd c es r = addReplies (map (\<lambda>(code, t). reply_to (numeric c code t) fd) es) r"

lemma with_errors_simps [simp]:
  "with_errors fd c [] r = r" "with_errors fd c (e # es) r = with_errors fd c es (addReply fd (numeric c (fst e) (snd e)) r)"
  by (simp_all add: with_errors_def addReplies_def addReply_def reply_to_def case_prod_beta)

text \<open>One pass of the \<open>switch\<close> does what its letter asks for.\<close>

definition answers :: "int \<Rightarrow> client \<Rightarrow> message \<Rightarrow> server_state \<Rightarrow> string \<Rightarrow> char \<Rightarrow> mode_run \<Rightarrow> bool \<times> string \<times> mode_run \<Rightarrow> bool" where
  "answers fd c m s n x run out \<longleftrightarrow>
     (case out of (changed, prm, run') \<Rightarrow>
        (case requested s n (adding run) x (args_left m run) (runChannel run) of (ps, ch, e) \<Rightarrow>
           args_left m run' = ps \<and> ch = (if changed then Some (adding run, x, prm) else None)
           \<and> runChannel run' = (case ch of None \<Rightarrow> runChannel run | Some c \<Rightarrow> change_channel s c (runChannel run))
           \<and> runResult run' = with_errors fd c (case e of None \<Rightarrow> [] | Some e \<Rightarrow> [e]) (runResult run)
           \<and> adding run' = adding run \<and> lastSign run' = lastSign run
           \<and> finalModes run' = finalModes run \<and> finalParams run' = finalParams run))"

lemma args_none: "\<not> paramIndex run < getParamCount m \<Longrightarrow> args_left m run = []"
  by (simp add: getParamCount_def)

lemma args_some:
  "paramIndex run < getParamCount m \<Longrightarrow>
    args_left m run = params m ! paramIndex run # drop (Suc (paramIndex run)) (params m)"
  by (simp add: getParamCount_def Cons_nth_drop_Suc)

lemma it_answers:
  "answers fd c m s n (CHR ''i'') run (mode_i run)" "answers fd c m s n (CHR ''t'') run (mode_t run)"
  by (auto simp: answers_def requested_def mode_i_def mode_t_def mode_defs run_modes_def Let_def)

lemma k_answers: "mode_k m run = Some out \<Longrightarrow> answers fd c m s n (CHR ''k'') run out"
proof (cases "paramIndex run < getParamCount m")
  case True
  assume "mode_k m run = Some out"
  with True show ?thesis
    by (auto simp: answers_def requested_def mode_k_def next_param_result args_some mode_defs run_modes_def Let_def
        split: if_splits)
next
  case False
  assume "mode_k m run = Some out"
  with False show ?thesis
    by (auto simp: answers_def requested_def mode_k_def args_none getParamCount_def mode_defs run_modes_def Let_def split: if_splits)
qed

lemma set_limit: "setMemberLimit l m = m\<lparr>memberLimited := True, maxMember := word_of_int (sint l)\<rparr>"
  unfolding setMemberLimit_def scast_eq ..

lemma limit_positive: "0 <s l \<longleftrightarrow> 0 < sint l" for l :: c_int
  by (simp add: word_sless_alt)

lemma l_answers: "mode_l m run = Some out \<Longrightarrow> answers fd c m s n (CHR ''l'') run out"
proof (cases "paramIndex run < getParamCount m")
  case True
  assume "mode_l m run = Some out"
  with True show ?thesis
    by (auto simp: answers_def requested_def mode_l_def next_param_result args_some mode_defs(1,2,4-8) run_modes_def
        set_limit limit_positive Let_def split: if_splits)
next
  case False
  assume "mode_l m run = Some out"
  with False show ?thesis
    by (auto simp: answers_def requested_def mode_l_def args_none getParamCount_def mode_defs run_modes_def Let_def split: if_splits)
qed

lemma set_erase_absent: "q \<notin> set xs \<Longrightarrow> set_erase q xs = xs"
  by (auto simp: set_erase_def filter_id_conv)

lemma o_answers: "mode_o fd c n m s run = Some out \<Longrightarrow> answers fd c m s n (CHR ''o'') run out"
proof (cases "paramIndex run < getParamCount m")
  case True
  assume "mode_o fd c n m s run = Some out"
  with True show ?thesis
    by (auto simp: answers_def requested_def mode_o_def next_param_result args_some member_tests add_results
        remove_results set_erase_absent Let_def split: if_splits)
next
  case False
  assume "mode_o fd c n m s run = Some out"
  with False show ?thesis by (auto simp: answers_def requested_def mode_o_def args_none getParamCount_def)
qed

lemma switch_answers: "mode_switch fd c n m s x run = Some out \<Longrightarrow> answers fd c m s n x run out"
  using it_answers k_answers l_answers o_answers
  by (auto simp: mode_switch_def split: if_splits) (auto simp: answers_def requested_def)

text \<open>What a run has written so far, with what the rest of the mode string will add.\<close>

definition foretells :: "int \<Rightarrow> client \<Rightarrow> mode_run \<Rightarrow> change list \<times> (string \<times> string) list \<times> channel
    \<Rightarrow> string \<times> string \<times> command_result \<times> channel" where
  "foretells fd c run = (\<lambda>(cs, es, ch).
     (finalModes run @ letters (sign_of run) cs, finalParams run @ arguments cs, with_errors fd c es (runResult run), ch))"

abbreviation (input) remaining :: "server_state \<Rightarrow> string \<Rightarrow> message \<Rightarrow> string \<Rightarrow> mode_run
    \<Rightarrow> change list \<times> (string \<times> string) list \<times> channel" where
  "remaining s n m xs run \<equiv> mode_spec s n xs (adding run) (args_left m run) (runChannel run)"

lemma sign_simps [simp]:
  "sign_of (run\<lparr>adding := b\<rparr>) = sign_of run" "sign_of (mode_init ch r) = None"
  by (simp_all add: sign_of_def mode_init_def)

lemma note_change_writes:
  "sign_of (note_change x prm run) = Some (adding run)"
  "finalModes (note_change x prm run) @ letters (Some (adding run)) cs
    = finalModes run @ letters (sign_of run) ((adding run, x, prm) # cs)"
  "finalParams (note_change x prm run) @ arguments cs = finalParams run @ arguments ((adding run, x, prm) # cs)"
  "paramIndex (note_change x prm run) = paramIndex run"
  by (auto simp: note_change_def sign_of_def Let_def)

lemma step_foretells:
  assumes step: "mode_step fd c n m s x run = Some run'"
  shows "foretells fd c run' (remaining s n m xs run') = foretells fd c run (remaining s n m (x # xs) run)"
proof -
  consider (sign) "x = CHR ''+'' \<or> x = CHR ''-''" | (letter) "x \<noteq> CHR ''+''" "x \<noteq> CHR ''-''" by blast
  then show ?thesis
  proof cases
    case sign
    with step show ?thesis by (auto simp: mode_step_def foretells_def)
  next
    case letter
    with step obtain b prm r1 where sw: "mode_switch fd c n m s x run = Some (b, prm, r1)"
        "run' = (if b then note_change x prm r1 else r1)"
      by (auto simp: mode_step_def split: Option.bind_splits)
    obtain ps ch e where req: "requested s n (adding run) x (args_left m run) (runChannel run) = (ps, ch, e)"
      by (metis prod_cases3)
    have signs: "sign_of r1 = sign_of run" if "lastSign r1 = lastSign run" using that by (simp add: sign_of_def)
    show ?thesis
      using letter switch_answers [OF sw(1)] sw(2) req note_change_writes [of x prm r1] signs
      by (cases b; cases e)
        (simp_all add: answers_def foretells_def Let_def case_prod_beta note_change_fields del: arguments_simps)
  qed
qed

lemma loop_foretells:
  "for_each (mode_step fd c n m s) xs run = Some run' \<Longrightarrow>
    foretells fd c run' ([], [], runChannel run') = foretells fd c run (remaining s n m xs run)"
proof (induction xs arbitrary: run)
  case Nil
  then show ?case by simp
next
  case (Cons x xs)
  then obtain r1 where "mode_step fd c n m s x run = Some r1" "for_each (mode_step fd c n m s) xs r1 = Some run'"
    by (auto split: Option.bind_splits)
  with Cons.IH step_foretells [of fd c n m s x run r1 xs] show ?case by simp
qed

text \<open>The replies of a mode string: its errors to the issuer, then the announcement to all members.\<close>

definition mode_replies ::
  "int \<Rightarrow> client \<Rightarrow> string \<Rightarrow> server_state \<Rightarrow> channel \<Rightarrow> change list \<Rightarrow> (string \<times> string) list \<Rightarrow> t_reply list" where
  "mode_replies fd c n s ch cs es =
     map (\<lambda>(code, t). reply_to (numeric c code t) fd) es
     @ (if cs = [] then [] else to_all s ch (reply_mode c n (announcement cs)))"

lemma letters_none [simp]: "letters sign cs = '''' \<longleftrightarrow> cs = []"
  by (cases cs) (auto split: if_splits)

lemma handleMode_spec:
  assumes ok: "state_ok s" and m: "message_lf_free m" and p: "getClientByFd fd s = p" "p \<noteq> NULL"
    and c: "deref s p = Some c" and t: "mode_target p (params m) s = Some ch"
    and spec: "mode_spec s (params m ! 0) (params m ! 1) True (drop 2 (params m)) ch = (cs, es, ch')"
  shows "\<exists>r. handleMode fd m s = Some (r, putChannel (params m ! 0) ch' s)
    \<and> replies r = mode_replies fd c (params m ! 0) s ch cs es
    \<and> state_ok (putChannel (params m ! 0) ch' s) \<and> same_room ch ch' \<and> channel_ok ch'
    \<and> (cs = [] \<longrightarrow> putChannel (params m ! 0) ch' s = s)"
proof -
  obtain run where run: "for_each (mode_step fd c (params m ! 0) m s) (params m ! 1)
        (mode_init ch CommandResult) = Some run" "mode_inv fd s ch run"
      "handleMode fd m s = Some (mode_outcome m c s ch run, putChannel (params m ! 0) (runChannel run) s)"
      "state_ok (putChannel (params m ! 0) (runChannel run) s)"
    by (rule handleMode_run [OF ok m p c t])
  have "foretells fd c run ([], [], runChannel run) = foretells fd c (mode_init ch CommandResult) (cs, es, ch')"
    using loop_foretells [OF run(1)] spec by (simp add: mode_init_def)
  then have f: "finalModes run = letters None cs" "finalParams run = arguments cs" "runChannel run = ch'"
      "runResult run = with_errors fd c es CommandResult"
    by (simp_all add: foretells_def) (simp_all add: mode_init_def)
  then have "replies (mode_outcome m c s ch run) = mode_replies fd c (params m ! 0) s ch cs es"
    by (simp add: mode_outcome_def mode_replies_def announcement_def with_errors_def CommandResult_def)
  moreover have "putChannel (params m ! 0) ch' s = s" if "cs = []"
    using run(2) that mode_targetD [OF t] putChannel_same [OF dir_ok_maps [OF state_ok_dir [OF ok]]] f
    by (simp add: mode_inv_def)
  ultimately show ?thesis using run f(3) by (auto simp: mode_inv_def mode_core_def)
qed

subsection \<open>Properties of MODE\<close>

text \<open>
  C28. What \<open>MODE\<close> does, exactly. The command always returns. If its issuer is not an operator of the
  channel it names, or it only queries, nothing changes and there is one reply, to the issuer, which
  says why (or names the modes). Otherwise the changes that take effect are those of \<open>mode_spec\<close>: they
  give the new channel, which is still well formed and differs in modes and operators only; each letter
  that cannot be served is answered to the issuer by its error; and if anything changed, every member
  is told exactly the changes, each letter with its sign in force and each argument, in order.
\<close>

theorem mode_effect:
  assumes ok: "state_ok s" and m: "message_lf_free m" and p: "getClientByFd fd s = p" "p \<noteq> NULL"
    and c: "deref s p = Some c"
  shows "\<exists>r s'. handleMode fd m s = Some (r, s') \<and> state_ok s' \<and>
    (case mode_target p (params m) s of
       None \<Rightarrow> s' = s \<and> replies r = [reply_to (mode_answer p c (params m) s) fd]
     | Some ch \<Rightarrow>
         (case mode_spec s (params m ! 0) (params m ! 1) True (drop 2 (params m)) ch of (cs, es, ch') \<Rightarrow>
            s' = putChannel (params m ! 0) ch' s \<and> same_room ch ch' \<and> channel_ok ch'
            \<and> (cs = [] \<longrightarrow> s' = s)
            \<and> replies r = mode_replies fd c (params m ! 0) s ch cs es))"
proof (cases "mode_target p (params m) s")
  case None
  with handleMode_refused [OF p c None] ok show ?thesis by (simp add: addReply_def reply_to_def CommandResult_def)
next
  case (Some ch)
  obtain cs es ch' where spec:
      "mode_spec s (params m ! 0) (params m ! 1) True (drop 2 (params m)) ch = (cs, es, ch')"
    by (metis prod_cases3)
  from handleMode_spec [OF ok m p c Some spec] show ?thesis unfolding Some option.case spec prod.case by blast
qed

text \<open>
  C35. A member limit survives its way through the command. For an operator's \<open>MODE n +l\<close> with a
  decimal number \<open>k\<close> below \<open>2^31\<close>, whatever follows its digits, the handler stores a limit that reads
  back as \<open>k\<close> after \<open>atoi\<close>, the \<open>int\<close> argument and the \<open>size_t\<close> field, puts it in force, touches
  nothing else and announces it to all members with the argument as given; for zero it changes and
  says nothing.
\<close>

theorem limit_roundtrip:
  assumes ok: "state_ok s" and m: "message_lf_free m" and p: "getClientByFd fd s = p" "p \<noteq> NULL"
    and c: "deref s p = Some c" and ps: "params m = [n, ''+l'', decimal k @ rest]"
    and t: "mode_target p (params m) s = Some ch"
    and k: "k < 2 ^ 31" and rest: "rest = [] \<or> \<not> isdigit (hd rest)"
  shows "\<exists>r s'. handleMode fd m s = Some (r, s') \<and>
    (if k = 0 then s' = s \<and> replies r = []
     else (\<exists>ch'. s' = putChannel n ch' s \<and> ch' = ch\<lparr>chModes := chModes ch'\<rparr>
         \<and> isMemberLimited (getModes ch') \<and> sint (getMemberLimit (getModes ch')) = int k
         \<and> chModes ch' = (chModes ch)\<lparr>memberLimited := True, maxMember := maxMember (chModes ch')\<rparr>)
       \<and> replies r = to_all s ch (reply_mode c n (''+l '' @ decimal k @ rest)))"
proof -
  let ?a = "decimal k @ rest"
  let ?ch = "ch\<lparr>chModes := setMemberLimit (atoi ?a) (chModes ch)\<rparr>"
  have "int k < 2 ^ 31" using k by (metis of_nat_less_iff of_nat_numeral of_nat_power)
  moreover from this have "strtol ?a = int k" by (intro strtol_decimal [OF _ rest]) simp
  ultimately have a: "sint (atoi ?a) = int k" unfolding atoi_def by (metis of_nat_0_le_iff sint_of_small)
  have spec: "mode_spec s n ''+l'' True [?a] ch
      = (if k = 0 then [] else [(True, CHR ''l'', ?a)], [], if k = 0 then ch else ?ch)"
    using a by (simp add: requested_def set_limit)
  have ne: "?a \<noteq> ''''" using hd_decimal by simp
  have "mode_spec s (params m ! 0) (params m ! 1) True (drop 2 (params m)) ch
      = (if k = 0 then [] else [(True, CHR ''l'', ?a)], [], if k = 0 then ch else ?ch)"
    using spec by (simp add: ps)
  note run = handleMode_spec [OF ok m p c t this]
  have limit: "sint (getMemberLimit (chModes ?ch)) = int k" "isMemberLimited (chModes ?ch)"
    "chModes ?ch = (chModes ch)\<lparr>memberLimited := True, maxMember := maxMember (chModes ?ch)\<rparr>"
    using a getMemberLimit_setMemberLimit [of "atoi ?a" "chModes ch"] by (simp_all add: set_limit)
  show ?thesis
  proof (cases "k = 0")
    case True
    with run show ?thesis by (auto simp: ps mode_replies_def)
  next
    case False
    with run ne obtain r where r: "handleMode fd m s = Some (r, putChannel n ?ch s)"
        "replies r = to_all s ch (reply_mode c n (''+l '' @ ?a))"
      by (auto simp: ps mode_replies_def announcement_def)
    show ?thesis
      using False limit by (intro exI [of _ r] exI [of _ "putChannel n ?ch s"])
        (simp add: r, intro exI [of _ ?ch], simp)
  qed
qed

theorem mode_effect_witness:
  "\<exists>r s'. handleMode 4 \<lparr>command = ''MODE'', params = [''#lobby'', ''+ox'', ''bob'']\<rparr> shared_state = Some (r, s')
    \<and> state_ok s' \<and> map_option operators (findChannel ''#lobby'' s') = Some [1, 2]
    \<and> replies r = [reply_to (numeric (sample_client 4 ''ada'') ''472'' ''x'') 4,
        reply_to (reply_mode (sample_client 4 ''ada'') ''#lobby'' ''+o bob'') 4,
        reply_to (reply_mode (sample_client 4 ''ada'') ''#lobby'' ''+o bob'') 5]"
proof -
  have m: "message_lf_free \<lparr>command = ''MODE'', params = [''#lobby'', ''+ox'', ''bob'']\<rparr>"
    by (simp add: message_lf_free_def lf_simps)
  have "deref shared_state 1 = Some (sample_client 4 ''ada'')" by simp
  moreover have "mode_target 1 [''#lobby'', ''+ox'', ''bob''] shared_state = Some shared_channel"
    by (simp add: mode_target_def)
  ultimately show ?thesis
    using mode_effect [OF state_ok_shared m, of 4 1 "sample_client 4 ''ada''"]
    by (auto simp: requested_def mode_replies_def announcement_def to_all_def fd_of_def sample_client_def)
qed

theorem limit_roundtrip_witness:
  "\<exists>r s'. handleMode 4 \<lparr>command = ''MODE'', params = [''#lobby'', ''+l'', ''42x'']\<rparr> shared_state = Some (r, s')
    \<and> replies r = to_all shared_state shared_channel
        (reply_mode (sample_client 4 ''ada'') ''#lobby'' ''+l 42x'')"
proof -
  let ?m = "\<lparr>command = ''MODE'', params = [''#lobby'', ''+l'', ''42x'']\<rparr>"
  have d: "decimal 42 = ''42''" by code_simp
  have m: "message_lf_free ?m" by (simp add: message_lf_free_def lf_simps)
  have "mode_target 1 [''#lobby'', ''+l'', ''42x''] shared_state = Some shared_channel"
    by (simp add: mode_target_def)
  with limit_roundtrip [OF state_ok_shared m, of 4 1 "sample_client 4 ''ada''" "''#lobby''" 42 "''x''" shared_channel] d
  show ?thesis by (auto simp: isdigit_def byte_def)
qed

end
