(* ===== verification/Readback.thy ===== *)
theory Readback
  imports Membership Mode_Changes
begin

section \<open>What the server writes can be read\<close>

text \<open>
  \<open>ReplyBuilder\<close> against \<open>Parser\<close>: every message that the server relays between clients, fed
  to the line reader and the parser of the same program, is the message it stands for. The
  names in the prefix must not contain spaces; that they do not, in any reachable state,
  is an invariant of the abstract service.
\<close>

subsection \<open>Reading a message\<close>

definition reads_as :: "string \<Rightarrow> message \<Rightarrow> bool" where
  "reads_as t m \<longleftrightarrow> (\<exists>l. consume '''' t = ([l], '''') \<and> parse l = Some m)"

lemma reads_asI:
  assumes "lf_free l" and "parse l = Some m"
  shows "reads_as (l @ crlf) m"
proof -
  have "lf_free (l @ [CR])" using assms(1) by (simp add: lf_simps)
  then have "consume '''' ((l @ [CR]) @ LF # []) = ([l], '''')"
    by (subst consume_line) (simp_all add: strip_cr_def)
  with assms(2) show ?thesis by (simp add: reads_as_def crlf_def)
qed

text \<open>Parameters without colon, each after a space, with or without a trailing one.\<close>

definition words :: "string list \<Rightarrow> string" where
  "words ps = concat (map (\<lambda>p. CHR '' '' # p) ps)"

lemma words_simps [simp]: "words [] = ''''" "words (p # ps) = CHR '' '' # p @ words ps"
  by (simp_all add: words_def)

definition trailing :: "string option \<Rightarrow> string" where
  "trailing t = (case t of None \<Rightarrow> '''' | Some s \<Rightarrow> '' :'' @ s)"

abbreviation (input) last_param :: "string option \<Rightarrow> string list" where
  "last_param t \<equiv> (case t of None \<Rightarrow> [] | Some s \<Rightarrow> [s])"

lemma words_start: "words ps @ trailing t = [] \<or> (\<exists>r. words ps @ trailing t = CHR '' '' # r)"
  by (cases ps; cases t) (simp_all add: trailing_def)

lemma spec_params_words:
  "list_all is_middle ps \<Longrightarrow> length (ps @ last_param t) \<le> n \<Longrightarrow>
    spec_params n (words ps @ trailing t) = ps @ last_param t"
proof (induction ps arbitrary: n)
  case Nil
  then show ?case by (cases n; cases t) (simp_all add: trailing_def)
next
  case (Cons p ps)
  then obtain c cs n' where p: "p = c # cs" "n = Suc n'" by (cases p; cases n) (auto simp: is_middle_def)
  with Cons.prems have c: "c \<noteq> CHR '' ''" "c \<noteq> CHR '':''" "CHR '' '' \<notin> set p" by (auto simp: is_middle_def)
  note word = word_append [OF c(3) words_start [of ps t]]
  have "spec_params n (words (p # ps) @ trailing t) = p # spec_params n' (words ps @ trailing t)"
    using c word by (simp add: p)
  with Cons p(2) show ?case by simp
qed

lemma prefixed_parse:
  assumes pre: "CHR '' '' \<notin> set pre" and cmd: "command_word cmd"
    and ps: "list_all is_middle ps" "length (ps @ last_param t) \<le> MAX_PARAMS"
  shows "parse ((CHR '':'' # pre) @ '' '' @ cmd @ words ps @ trailing t)
    = Some \<lparr>command = cmd, params = ps @ last_param t\<rparr>"
proof -
  let ?rest = "cmd @ words ps @ trailing t"
  obtain c cs where c: "cmd = c # cs" "c \<noteq> CHR '' ''" "CHR '' '' \<notin> set cmd"
    using cmd by (cases cmd) (auto simp: command_word_def is_middle_def)
  have "CHR '' '' \<notin> set (CHR '':'' # pre)" using pre by simp
  from word_append(2) [OF this, of "'' '' @ ?rest"]
  have "dropWhile non_sp ((CHR '':'' # pre) @ '' '' @ ?rest) = '' '' @ ?rest" by simp
  then have skip: "skip_prefix ((CHR '':'' # pre) @ '' '' @ ?rest) = ?rest"
    using c by (simp add: skip_prefix_def)
  note word = word_append [OF c(3) words_start [of ps t]]
  have "toUpper cmd = cmd" using cmd by (simp add: command_word_def)
  with skip word c(1) spec_params_words [OF ps] show ?thesis
    by (simp add: parse_eq_spec spec_parse_def Let_def)
qed

lemma words_lf_free: "list_all lf_free ps \<Longrightarrow> lf_free (words ps)"
  by (induction ps) (simp_all add: lf_simps)

lemma trailing_lf_free: "pred_option lf_free t \<Longrightarrow> lf_free (trailing t)"
  by (cases t) (simp_all add: trailing_def lf_simps)

lemma prefixed_reads:
  assumes pre: "CHR '' '' \<notin> set pre" "lf_free pre" and cmd: "command_word cmd" "lf_free cmd"
    and ps: "list_all is_middle ps" "list_all lf_free ps" "length (ps @ last_param t) \<le> MAX_PARAMS" and t: "pred_option lf_free t"
  shows "reads_as ((CHR '':'' # pre) @ '' '' @ cmd @ words ps @ trailing t @ crlf)
    \<lparr>command = cmd, params = ps @ last_param t\<rparr>"
proof -
  have "lf_free ((CHR '':'' # pre) @ '' '' @ cmd @ words ps @ trailing t)"
    using pre(2) cmd(2) words_lf_free [OF ps(2)] trailing_lf_free [OF t] by (simp add: lf_simps)
  from reads_asI [OF this prefixed_parse [OF pre(1) cmd(1) ps(1,3)]] show ?thesis by simp
qed

subsection \<open>The messages of \<open>ReplyBuilder\<close>\<close>

text \<open>A client whose names fit into a prefix, and a name that fits between spaces.\<close>

definition spaceless :: "client \<Rightarrow> bool" where
  "spaceless c \<longleftrightarrow> client_ok c \<and> CHR '' '' \<notin> set (username c)"

definition bare :: "string \<Rightarrow> bool" where
  "bare p \<longleftrightarrow> is_middle p \<and> lf_free p"

lemma bare_channel: "isValidChannelName n \<Longrightarrow> bare n"
  using isValidChannelName_chars [of n] isValidChannelName_lf_free [of n]
  by (auto simp: bare_def is_middle_def)

lemma nick_spaceless:
  assumes "isValidNick n"
  shows "bare n"
proof -
  have "n \<noteq> ''''" "\<forall>c \<in> set n. nick_char c" using isValidNick_chars [OF assms] by auto
  then have "CHR '' '' \<notin> set n" "hd n \<noteq> CHR '':''" using not_nick_char hd_in_set by metis+
  with \<open>n \<noteq> ''''\<close> isValidNick_lf_free [OF assms] show ?thesis by (simp add: bare_def is_middle_def)
qed

lemma bare_nick:
  assumes "client_ok d" and "registered d"
  shows "bare (nickname d)" and "getValidTargetName d = nickname d"
  using assms nick_spaceless [of "nickname d"]
  by (auto simp: client_ok_def complete_def getValidTargetName_def getNickName_def)

lemma buildPrefix_word:
  assumes "spaceless c"
  obtains pre where "buildPrefix c = CHR '':'' # pre" "CHR '' '' \<notin> set pre" "lf_free pre"
proof -
  have ok: "client_ok c" "CHR '' '' \<notin> set (username c)" using assms by (simp_all add: spaceless_def)
  have sp: "CHR '' '' \<notin> set (nickname c)"
    using ok(1) nick_spaceless [of "nickname c"] by (auto simp: client_ok_def bare_def is_middle_def)
  obtain pre where pre: "buildPrefix c = CHR '':'' # pre" by (simp add: buildPrefix_def Let_def)
  then have "CHR '' '' \<notin> set pre"
    using ok(2) sp by (auto simp: buildPrefix_def getNickName_def getUserName_def Let_def split: if_splits)
  moreover have "lf_free pre" using buildPrefix_lf_free [OF ok(1)] by (simp add: pre lf_simps)
  ultimately show ?thesis by (rule that [OF pre])
qed

lemma relay_reads:
  assumes c: "spaceless c" and cmd: "command_word cmd" "lf_free cmd"
    and ps: "list_all bare ps" "length (ps @ last_param t) \<le> MAX_PARAMS" and t: "pred_option lf_free t"
  shows "reads_as (buildPrefix c @ '' '' @ cmd @ words ps @ trailing t @ crlf)
    \<lparr>command = cmd, params = ps @ last_param t\<rparr>"
proof -
  obtain pre where pre: "buildPrefix c = CHR '':'' # pre" "CHR '' '' \<notin> set pre" "lf_free pre"
    by (rule buildPrefix_word [OF c])
  have "list_all is_middle ps" "list_all lf_free ps" using ps(1) by (simp_all add: list_all_iff bare_def)
  then show ?thesis unfolding pre(1) by (intro prefixed_reads [OF pre(2,3) cmd _ _ ps(2) t])
qed

lemma command_words:
  "list_all (\<lambda>w. command_word w \<and> lf_free w) [''JOIN'', ''PRIVMSG'', ''TOPIC'', ''INVITE'', ''KICK'', ''MODE'']"
  by (simp add: command_word_def is_middle_def toUpper_def toupper_def islower_def byte_def lf_simps)

lemma replies_read:
  assumes c: "spaceless c" and n: "isValidChannelName n"
  shows "reads_as (reply_join c n) \<lparr>command = ''JOIN'', params = [n]\<rparr>"
    and "bare to \<Longrightarrow> lf_free w \<Longrightarrow>
      reads_as (reply_privMsg c to w) \<lparr>command = ''PRIVMSG'', params = to # (if w = '''' then [] else [w])\<rparr>"
    and "lf_free w \<Longrightarrow> reads_as (reply_topic c n w) \<lparr>command = ''TOPIC'', params = [n, w]\<rparr>"
    and "client_ok d \<Longrightarrow> registered d \<Longrightarrow>
      reads_as (reply_invite c d n) \<lparr>command = ''INVITE'', params = [nickname d, n]\<rparr>"
    and "client_ok d \<Longrightarrow> registered d \<Longrightarrow> lf_free w \<Longrightarrow>
      reads_as (reply_kick c d n w) \<lparr>command = ''KICK'', params = [n, nickname d] @ (if w = '''' then [] else [w])\<rparr>"
proof -
  note bn = bare_channel [OF n] and cmd = command_words [simplified]
  show "reads_as (reply_join c n) \<lparr>command = ''JOIN'', params = [n]\<rparr>"
    using relay_reads [OF c, of "''JOIN''" "[n]" None] cmd bn
    by (simp add: reply_join_def trailing_def MAX_PARAMS_def)
  show "reads_as (reply_privMsg c to w)
      \<lparr>command = ''PRIVMSG'', params = to # (if w = '''' then [] else [w])\<rparr>" if "bare to" "lf_free w"
    using relay_reads [OF c, of "''PRIVMSG''" "[to]" None]
      relay_reads [OF c, of "''PRIVMSG''" "[to]" "Some w"] cmd that
    by (simp add: reply_privMsg_def trailing_def MAX_PARAMS_def)
  show "reads_as (reply_topic c n w) \<lparr>command = ''TOPIC'', params = [n, w]\<rparr>" if "lf_free w"
    using relay_reads [OF c, of "''TOPIC''" "[n]" "Some w"] cmd bn that
    by (simp add: reply_topic_def trailing_def MAX_PARAMS_def)
  show "reads_as (reply_invite c d n) \<lparr>command = ''INVITE'', params = [nickname d, n]\<rparr>"
    if "client_ok d" "registered d"
    using relay_reads [OF c, of "''INVITE''" "[nickname d, n]" None] cmd bn bare_nick [OF that]
    by (simp add: reply_invite_def trailing_def MAX_PARAMS_def)
  show "reads_as (reply_kick c d n w)
      \<lparr>command = ''KICK'', params = [n, nickname d] @ (if w = '''' then [] else [w])\<rparr>"
    if "client_ok d" "registered d" "lf_free w"
    using relay_reads [OF c, of "''KICK''" "[n, nickname d]" None]
      relay_reads [OF c, of "''KICK''" "[n, nickname d]" "Some w"] cmd bn bare_nick [OF that(1,2)] that(3)
    by (simp add: reply_kick_def trailing_def MAX_PARAMS_def)
qed

text \<open>Numerics with a text: the code, the client, the arguments and the text.\<close>

lemma known_codes_words: "list_all (\<lambda>w. command_word w \<and> lf_free w) known_codes"
  by (simp add: known_codes_def command_word_def is_middle_def toUpper_def toupper_def islower_def byte_def lf_simps)

text \<open>A numeric, whatever its argument and its text make up together after the client's name.\<close>

definition after_space :: "string \<Rightarrow> string" where
  "after_space t = (if t = '''' then '''' else '' '' @ t)"

lemma bare_target:
  assumes "client_ok c"
  shows "bare (getValidTargetName c)"
  using assms nick_spaceless [of "nickname c"]
  by (auto simp: client_ok_def getValidTargetName_def getNickName_def bare_def is_middle_def lf_simps)

lemma numeric_reads:
  assumes c: "client_ok c" and code: "code \<in> set known_codes"
    and parts: "after_space t @ after_space (getNumericMessage code) = words ps @ trailing u"
    and ps: "list_all bare ps" "length (ps @ last_param u) < MAX_PARAMS" and u: "pred_option lf_free u"
  shows "reads_as (numeric c code t) \<lparr>command = code, params = getValidTargetName c # ps @ last_param u\<rparr>"
proof -
  have cw: "command_word code" "lf_free code" and m: "getNumericMessage code \<noteq> MSG_UNKNOWNNUMERIC"
    using known_codes_words known_codes_msgs code by (auto simp: list_all_iff simp del: known_code_simps)
  have bare: "list_all is_middle (getValidTargetName c # ps)" "list_all lf_free (getValidTargetName c # ps)"
    using ps(1) bare_target [OF c] by (simp_all add: list_all_iff bare_def)
  have "getValidTargetName c \<noteq> ''''" using bare_target [OF c] by (auto simp: bare_def is_middle_def)
  with m have "numeric c code t = '':ircServ '' @ code @ '' '' @ getValidTargetName c
      @ after_space t @ after_space (getNumericMessage code) @ crlf"
    by (simp add: numeric_def numeric_str_def after_space_def Let_def)
  also have "\<dots> = (CHR '':'' # ''ircServ'') @ '' '' @ code @ words (getValidTargetName c # ps) @ trailing u @ crlf"
    using parts by (metis append.assoc append_Cons append_Nil words_simps(2))
  finally show ?thesis
    using prefixed_reads [OF _ _ cw bare, of "''ircServ''" u] ps(2) u by (simp add: lf_simps)
qed

text \<open>Arguments, and a text if there is one, as the handlers join them.\<close>

definition joined_words :: "string list \<Rightarrow> string option \<Rightarrow> string" where
  "joined_words ps t = tl (words ps @ trailing t)"

lemma after_joined: "list_all bare ps \<Longrightarrow> after_space (joined_words ps t) = words ps @ trailing t"
  by (cases ps; cases t) (auto simp: after_space_def joined_words_def trailing_def bare_def is_middle_def)

lemma after_known:
  assumes "code \<in> set known_codes" and "getNumericMessage code = CHR '':'' # t"
  shows "after_space (getNumericMessage code) = trailing (Some t)" and "lf_free t"
  using known_codes_msgs assms
  by (auto simp: after_space_def trailing_def list_all_iff lf_simps simp del: known_code_simps)

lemma numerics_read:
  assumes c: "client_ok c"
  shows "\<forall>code \<in> set known_codes. \<forall>ps. list_all bare ps \<longrightarrow> length ps + 2 \<le> MAX_PARAMS \<longrightarrow>
    (\<forall>u. getNumericMessage code = CHR '':'' # u \<longrightarrow>
      reads_as (numeric c code (joined_words ps None))
        \<lparr>command = code, params = getValidTargetName c # ps @ [u]\<rparr>)
    \<and> (\<forall>u. getNumericMessage code = '''' \<longrightarrow> pred_option lf_free u \<longrightarrow>
      reads_as (numeric c code (joined_words ps u))
        \<lparr>command = code, params = getValidTargetName c # ps @ last_param u\<rparr>)"
proof (intro ballI allI impI conjI)
  fix code ps
  assume code: "code \<in> set known_codes" and ps: "list_all bare ps" "length ps + 2 \<le> MAX_PARAMS"
  note reads = numeric_reads [OF c code _ ps(1)] and joined = after_joined [OF ps(1)]
  show "reads_as (numeric c code (joined_words ps None)) \<lparr>command = code, params = getValidTargetName c # ps @ [u]\<rparr>"
    if "getNumericMessage code = CHR '':'' # u" for u
    using after_known [OF code that] reads [of "joined_words ps None" "Some u"] ps(2)
    by (simp add: joined) (simp add: trailing_def)
  show "reads_as (numeric c code (joined_words ps u))
      \<lparr>command = code, params = getValidTargetName c # ps @ last_param u\<rparr>"
    if "getNumericMessage code = ''''" "pred_option lf_free u" for u
    using reads [of "joined_words ps u" u] that ps(2)
    by (cases u) (simp_all add: joined, simp_all add: after_space_def)
qed

lemma version_reads:
  assumes "client_ok c"
  shows "reads_as (numeric c ''004'' '''') \<lparr>command = ''004'', params = [getValidTargetName c, ''ircServ'', ''1.0'']\<rparr>"
proof -
  have "list_all bare [''ircServ'', ''1.0'']" by (simp add: bare_def is_middle_def lf_simps)
  then show ?thesis
    using numeric_reads [OF assms, of "''004''" "''''" "[''ircServ'', ''1.0'']" None]
    by (simp add: after_space_def getNumericMessage_def trailing_def MAX_PARAMS_def)
qed

subsection \<open>The announcement of mode changes\<close>

abbreviation (input) change_args :: "change list \<Rightarrow> string list" where
  "change_args cs \<equiv> filter (\<lambda>a. a \<noteq> '''') (map (\<lambda>(add, x, a). a) cs)"

lemma arguments_words: "arguments cs = words (change_args cs)"
  by (induction cs) auto

text \<open>Letters of modes, and at most the arguments that were given.\<close>

definition plain_changes :: "string list \<Rightarrow> change list \<Rightarrow> bool" where
  "plain_changes ps cs \<longleftrightarrow>
     list_all (\<lambda>(add, x, a). x \<in> set ''itklo'' \<and> (a = '''' \<or> a \<in> set ps)) cs
     \<and> length (change_args cs) \<le> length ps"

lemma letters_chars: "c \<in> set (letters sign cs) \<Longrightarrow> c \<in> {CHR ''+'', CHR ''-''} \<union> (\<lambda>(add, x, a). x) ` set cs"
  by (induction sign cs rule: letters.induct) (auto split: if_splits)

lemma bare_letters:
  assumes "cs \<noteq> []" and "plain_changes ps cs"
  shows "bare (letters None cs)"
proof -
  have c: "c \<in> {CHR ''+'', CHR ''-''} \<union> set ''itklo''" if "c \<in> set (letters None cs)" for c
    using letters_chars [OF that] assms(2) by (fastforce simp: plain_changes_def list_all_iff)
  have "hd (letters None cs) \<noteq> CHR '':''" using assms(1) by (cases cs) (auto split: if_splits)
  with assms(1) show ?thesis using c [of "CHR '' ''"] c [of LF] by (auto simp: bare_def is_middle_def lf_free_def)
qed

lemma requested_change:
  assumes "requested s n add x ps ch = (ps', c, e)"
  shows "(\<exists>k. ps' = drop k ps)
    \<and> (case c of None \<Rightarrow> True
       | Some (b, y, a) \<Rightarrow> y \<in> set ''itklo'' \<and> (a = '''' \<or> ps = a # ps'))"
proof -
  have "drop 0 ps = ps" "drop 1 ps = tl ps" by (simp_all add: drop_Suc)
  then have "ps' \<in> {drop 0 ps, drop 1 ps}
    \<and> (case c of None \<Rightarrow> True | Some (b, y, a) \<Rightarrow> y \<in> set ''itklo'' \<and> (a = '''' \<or> ps = a # ps'))"
    using assms by (simp add: requested_def Let_def split: if_splits list.splits) auto
  then show ?thesis by blast
qed

lemma plain_changes_later: "plain_changes (drop k ps) cs \<Longrightarrow> plain_changes ps cs"
  by (auto simp: plain_changes_def list_all_iff dest: in_set_dropD)

lemma plain_changes_Cons:
  "plain_changes ps cs \<Longrightarrow> x \<in> set ''itklo'' \<Longrightarrow> plain_changes ps ((b, x, '''') # cs)"
  "plain_changes ps cs \<Longrightarrow> x \<in> set ''itklo'' \<Longrightarrow> plain_changes (a # ps) ((b, x, a) # cs)"
  by (auto simp: plain_changes_def list_all_iff)

lemma mode_spec_changes: "mode_spec s n xs add ps ch = (cs, es, ch') \<Longrightarrow> plain_changes ps cs"
proof (induction xs arbitrary: add ps ch cs es)
  case Nil
  then show ?case by (simp add: plain_changes_def)
next
  case (Cons x xs)
  consider (sign) "x = CHR ''+'' \<or> x = CHR ''-''" | (letter) "x \<noteq> CHR ''+''" "x \<noteq> CHR ''-''" by blast
  then show ?case
  proof cases
    case sign
    with Cons.prems have "\<exists>add. mode_spec s n xs add ps ch = (cs, es, ch')" by auto
    with Cons.IH show ?thesis by blast
  next
    case letter
    obtain ps1 c e where req: "requested s n add x ps ch = (ps1, c, e)" by (metis prod_cases3)
    let ?ch = "case c of None \<Rightarrow> ch | Some c \<Rightarrow> change_channel s c ch"
    obtain cs1 es1 ch1 where rest: "mode_spec s n xs add ps1 ?ch = (cs1, es1, ch1)" by (metis prod_cases3)
    from Cons.prems letter req rest have cs: "ch1 = ch'" "cs = (case c of None \<Rightarrow> cs1 | Some c \<Rightarrow> c # cs1)" by auto
    with Cons.IH rest have later: "plain_changes ps1 cs1" by blast
    with requested_change [OF req] have now: "plain_changes ps cs1" using plain_changes_later by blast
    show ?thesis
    proof (cases c)
      case None
      with now cs(2) show ?thesis by simp
    next
      case (Some d)
      obtain b y a where "d = (b, y, a)" by (metis prod_cases3)
      with Some requested_change [OF req] cs(2) have "y \<in> set ''itklo''" "a = '''' \<or> ps = a # ps1" "cs = (b, y, a) # cs1"
        by simp_all
      with now later plain_changes_Cons show ?thesis by blast
    qed
  qed
qed

lemma mode_reads:
  assumes c: "spaceless c" and n: "isValidChannelName n"
    and spec: "mode_spec s n xs add ps ch = (cs, es, ch')" and cs: "cs \<noteq> []"
    and ps: "list_all (\<lambda>a. a = '''' \<or> bare a) ps" "length ps + 2 \<le> MAX_PARAMS"
  shows "reads_as (reply_mode c n (announcement cs)) \<lparr>command = ''MODE'', params = n # letters None cs # change_args cs\<rparr>"
proof -
  note changes = mode_spec_changes [OF spec]
  have "bare a" if "a \<in> set (change_args cs)" for a
    using that changes ps(1) by (fastforce simp: list_all_iff plain_changes_def)
  then have bare: "list_all bare (n # letters None cs # change_args cs)"
    using bare_channel [OF n] bare_letters [OF cs changes] unfolding list_all_iff by auto
  have "reply_mode c n (announcement cs)
      = buildPrefix c @ '' '' @ ''MODE'' @ words (n # letters None cs # change_args cs) @ trailing None @ crlf"
    by (simp add: reply_mode_def announcement_def arguments_words trailing_def)
  then show ?thesis
    using relay_reads [OF c _ _ bare, of "''MODE''" None] command_words changes ps(2) by (simp add: plain_changes_def)
qed

text \<open>A key with spaces is announced without a colon and falls into words.\<close>

lemma spaced_key:
  assumes "spaceless c" and "isValidChannelName n"
  shows "reads_as (reply_mode c n (announcement [(True, CHR ''k'', ''open sesame'')]))
    \<lparr>command = ''MODE'', params = [n, ''+k'', ''open'', ''sesame'']\<rparr>"
  using relay_reads [OF assms(1), of "''MODE''" "[n, ''+k'', ''open'', ''sesame'']" None]
    bare_channel [OF assms(2)] command_words
  by (simp add: reply_mode_def announcement_def trailing_def MAX_PARAMS_def bare_def is_middle_def lf_simps)

subsection \<open>Names have no spaces\<close>

definition plain_names :: "chat \<Rightarrow> bool" where
  "plain_names C \<longleftrightarrow> (\<forall>fd u. cUsers C fd = Some u \<longrightarrow> CHR '' '' \<notin> set (uName u))"

lemma rooms_keep_users [simp]:
  "cUsers (chat_enter b fd key k C) = cUsers C" "cUsers (chat_drop fd k nick C) = cUsers C"
  "cUsers (chat_topic fd ps C) = cUsers C" "cUsers (chat_invite fd ps C) = cUsers C"
  "cUsers (chat_mode fd ps C) = cUsers C"
  by (simp_all add: chat_enter_def chat_drop_def chat_topic_def chat_invite_def chat_mode_def split: option.split)

lemma fold_keeps: "(\<And>x C. f (g x C) = f C) \<Longrightarrow> f (fold g xs C) = f C"
  by (induction xs arbitrary: C) simp_all

lemma loops_keep_users [simp]:
  "cUsers (chat_join mem fd ps C) = cUsers C" "cUsers (chat_kick fd ps C) = cUsers C"
  by (simp_all add: chat_join_def chat_kick_def Let_def fold_keeps [of cUsers] case_prod_beta)

lemma step_plain_names:
  assumes C: "plain_names C" and m: "4 \<le> length (params m) \<Longrightarrow> CHR '' '' \<notin> set (params m ! 0)"
  shows "plain_names (chat_step mem fd m C)"
proof (cases "cUsers C fd")
  case None
  with C show ?thesis by (simp add: chat_step_def)
next
  case (Some u)
  then have u: "CHR '' '' \<notin> set (uName u)" using C unfolding plain_names_def by blast
  then have users: "plain_names (chat_pass fd u (params m) C)" "plain_names (chat_nick fd u (params m) C)"
    "plain_names (chat_user fd u (params m) C)"
    using C m by (auto simp: plain_names_def chat_pass_def chat_nick_def chat_user_def enrol_def)
  have others: "plain_names D" if "cUsers D = cUsers C" for D
    using C that by (simp add: plain_names_def)
  from Some show ?thesis
    by (cases rule: chat_step_cases [where mem = mem and m = m]) (use C users others in auto)
qed

lemma line_plain_names:
  assumes "plain_names C"
  shows "plain_names (chat_line mem fd l C)"
proof -
  let ?ps = "params (spec_parse l)"
  have "CHR '' '' \<notin> set (?ps ! 0)" if "4 \<le> length ?ps"
  proof -
    have "list_all is_middle (butlast ?ps)"
      by (auto simp: spec_parse_def Let_def empty_message_def spec_params_middle)
    moreover have "?ps ! 0 = butlast ?ps ! 0" "0 < length (butlast ?ps)" using that by (simp_all add: nth_butlast)
    ultimately have "is_middle (?ps ! 0)" by (simp add: list_all_length)
    then show ?thesis by (simp add: is_middle_def)
  qed
  from step_plain_names [OF assms this] assms show ?thesis by (simp add: chat_line_def Let_def)
qed

lemma lines_plain_names: "plain_names C \<Longrightarrow> plain_names (chat_lines mems i fd ls C)"
  by (induction ls arbitrary: i C) (simp_all add: line_plain_names)

lemma service_plain_names:
  assumes "service_step S e S'" and "plain_names (chat_of S)"
  shows "plain_names (chat_of S')"
  using assms
proof (cases rule: service_step.cases)
  case (2 fd p)
  with assms(2) show ?thesis by (auto simp: plain_names_def chat_arrive_def stranger_def)
next
  case (5 fd)
  with assms(2) show ?thesis by (auto simp: plain_names_def chat_leave_def)
qed (simp_all add: lines_plain_names)

lemma run_plain_names: "service_run S es S' \<Longrightarrow> plain_names (chat_of S) \<Longrightarrow> plain_names (chat_of S')"
  by (induction rule: service_run.induct) (auto intro: service_plain_names)

lemma reachable_spaceless:
  assumes start: "Server inp p pw = Inr srv" and run: "server_run srv es s"
    and c: "deref (serverState s) q = Some c"
  shows "spaceless c"
proof -
  have ok: "srv_ok srv" by (rule Server_ok [OF start])
  have d: "dir_ok (serverState s)"
    using run_ok [OF run ok] srv_coreD(1) state_ok_dir by (auto simp: srv_ok_def)
  have "service_run (empty_service pw) es (abs_service s)"
    using run_refines [OF run ok] start_refines [OF start] by simp
  then have "plain_names (abs_chat (serverState s))"
    using run_plain_names by (fastforce simp: empty_service_def plain_names_def)
  moreover have "cUsers (abs_chat (serverState s)) (socketFd c) = Some (abs_user c)"
    using dirs.live_by_fd [OF d c] c by simp
  ultimately have "CHR '' '' \<notin> set (uName (abs_user c))" unfolding plain_names_def by blast
  then show ?thesis using live_client_ok [OF d c] by (simp add: spaceless_def)
qed

subsection \<open>Round trip\<close>

text \<open>
  C38. What the server writes is what it would read. In every reachable state, for all clients
  \<open>c\<close>, \<open>d\<close> and valid channel names, the line reader and the parser of this same program turn what is
  relayed for \<open>c\<close> back into the message meant: \<open>JOIN\<close>, \<open>PRIVMSG\<close> and \<open>KICK\<close> with and without a text,
  \<open>TOPIC\<close>, \<open>INVITE\<close>, and the \<open>MODE\<close> announcement of the changes that a mode string makes, if its
  arguments are single words. The same holds for every numeric, for any number of single-word
  arguments that fits into a message, with the text that the numeric has by itself or, if it has
  none, a given one; a client without a nickname is addressed as \<open>*\<close>. Spaces in texts do no harm,
  because names cannot contain any.
\<close>

theorem replies_read_back:
  assumes start: "Server inp p pw = Inr srv" and run: "server_run srv es s"
    and c: "deref (serverState s) q = Some c"
    and d: "deref (serverState s) q' = Some d" "registered d"
    and n: "isValidChannelName n" and w: "lf_free w"
  shows "reads_as (reply_join c n) \<lparr>command = ''JOIN'', params = [n]\<rparr>
    \<and> reads_as (reply_privMsg c n w) \<lparr>command = ''PRIVMSG'', params = n # (if w = '''' then [] else [w])\<rparr>
    \<and> reads_as (reply_privMsg c (nickname d) w)
        \<lparr>command = ''PRIVMSG'', params = nickname d # (if w = '''' then [] else [w])\<rparr>
    \<and> reads_as (reply_topic c n w) \<lparr>command = ''TOPIC'', params = [n, w]\<rparr>
    \<and> reads_as (reply_invite c d n) \<lparr>command = ''INVITE'', params = [nickname d, n]\<rparr>
    \<and> reads_as (reply_kick c d n w)
        \<lparr>command = ''KICK'', params = [n, nickname d] @ (if w = '''' then [] else [w])\<rparr>
    \<and> (\<forall>xs ps ch cs errors ch'. mode_spec (serverState s) n xs True ps ch = (cs, errors, ch') \<longrightarrow> cs \<noteq> [] \<longrightarrow>
        list_all (\<lambda>a. a = '''' \<or> bare a) ps \<longrightarrow> length ps + 2 \<le> MAX_PARAMS \<longrightarrow>
        reads_as (reply_mode c n (announcement cs))
          \<lparr>command = ''MODE'', params = n # letters None cs # change_args cs\<rparr>)
    \<and> (\<forall>code \<in> set known_codes. \<forall>ps. list_all bare ps \<longrightarrow> length ps + 2 \<le> MAX_PARAMS \<longrightarrow>
        (\<forall>u. getNumericMessage code = CHR '':'' # u \<longrightarrow>
          reads_as (numeric c code (joined_words ps None))
            \<lparr>command = code, params = getValidTargetName c # ps @ [u]\<rparr>)
        \<and> (\<forall>u. getNumericMessage code = '''' \<longrightarrow> pred_option lf_free u \<longrightarrow>
          reads_as (numeric c code (joined_words ps u))
            \<lparr>command = code, params = getValidTargetName c # ps @ last_param u\<rparr>))
    \<and> reads_as (numeric c ''004'' '''')
        \<lparr>command = ''004'', params = [getValidTargetName c, ''ircServ'', ''1.0'']\<rparr>"
proof -
  have sp: "spaceless c" "spaceless d"
    using reachable_spaceless [OF start run] c d(1) by blast+
  then have ok: "client_ok c" "client_ok d" by (simp_all add: spaceless_def)
  note r = replies_read [OF sp(1) n]
  from r(1) r(2) [OF bare_channel [OF n] w] r(2) [OF bare_nick(1) [OF ok(2) d(2)] w]
    r(3) [OF w] r(4) [OF ok(2) d(2)] r(5) [OF ok(2) d(2) w] mode_reads [OF sp(1) n]
    numerics_read [OF ok(1)] version_reads [OF ok(1)]
  show ?thesis by blast
qed

theorem replies_read_back_witness:
  "\<exists>s c. server_run sample_start [Accept 7 (Some 40), Receive 7 sample_login] s
    \<and> deref (serverState s) 40 = Some c \<and> nickname c = ''ada''
    \<and> reads_as (reply_kick c c ''#x'' ''too loud'') \<lparr>command = ''KICK'', params = [''#x'', ''ada'', ''too loud'']\<rparr>"
proof -
  let ?c = "\<lparr>socketFd = 7, username = ''ann'', nickname = ''ada'', realname = ''Ann'',
    passAccepted = True, registered = True\<rparr>"
  obtain s where run: "server_run sample_start [Accept 7 (Some 40), Receive 7 sample_login] s"
    and s: "deref (serverState s) 40 = Some ?c"
    by (rule sample_login_run)
  have "isValidChannelName ''#x''"
    by (simp add: isValidChannelName_def isspace_def iscntrl_def byte_def)
  from replies_read_back [OF sample_start_ctor run s s _ this, of "''too loud''"]
  have "reads_as (reply_kick ?c ?c ''#x'' ''too loud'') \<lparr>command = ''KICK'', params = [''#x'', ''ada'', ''too loud'']\<rparr>"
    by (simp add: lf_simps del: known_code_simps)
  with run s show ?thesis by (intro exI [of _ s] exI [of _ ?c]) simp
qed

end
