(* ===== verification/Conversation.thy ===== *)
theory Conversation
  imports Delivery Dispatcher
begin

section \<open>A conversation\<close>

text \<open>
  The purpose of the server in one statement: what a member of a channel says arrives. The theorem
  follows one line from the bytes received, through buffer, parser, dispatcher and handler, to the
  queues of the other members, and from there to their connections.
\<close>

subsection \<open>Saying something\<close>

text \<open>The bytes a client sends for it, and text that the server does not filter.\<close>

definition say :: "string \<Rightarrow> string \<Rightarrow> string" where
  "say n words = ''PRIVMSG '' @ n @ '' :'' @ words @ [CR, LF]"

definition plain :: "string \<Rightarrow> bool" where
  "plain words \<longleftrightarrow> list_all (\<lambda>c. 32 \<le> byte c) words"

definition speech :: "string \<Rightarrow> string \<Rightarrow> message" where
  "speech n words = \<lparr>command = ''PRIVMSG'', params = [n, words]\<rparr>"

lemma plain_simps [simp]:
  "plain []" "plain (c # cs) \<longleftrightarrow> 32 \<le> byte c \<and> plain cs" "plain (s @ t) \<longleftrightarrow> plain s \<and> plain t"
  by (simp_all add: plain_def)

lemma plain_sanitize: "plain s \<Longrightarrow> sanitize (s @ [CR, LF]) = s @ [CR, LF]"
  by (induction s) (simp_all add: sanitize_def byte_def)

lemma plain_lf_free: "plain s \<Longrightarrow> lf_free s"
  by (induction s) (auto simp: lf_simps byte_def)

lemma plain_channel: "isValidChannelName n \<Longrightarrow> plain n"
proof (cases n)
  case (Cons c cs)
  assume "isValidChannelName n"
  then have "c = CHR ''#''" "list_all (\<lambda>c. \<not> iscntrl c) cs"
    using Cons by (auto simp: isValidChannelName_def list_all_iff split: if_splits)
  then show ?thesis using Cons by (simp add: plain_def iscntrl_def list_all_iff not_less byte_def [of "CHR ''#''"])
qed simp

lemma say_parsed:
  assumes "isValidChannelName n"
  shows "parse (''PRIVMSG '' @ n @ '' :'' @ words) = Some (speech n words)"
proof -
  note v = isValidChannelName_chars [OF assms]
  then have "is_middle n" by (cases n) (auto simp: is_middle_def)
  then have "printable (speech n words)"
    by (simp add: printable_def speech_def command_word_def MAX_PARAMS_def toUpper_def toupper_def
        islower_def byte_def is_middle_def [of "''PRIVMSG''"])
  then have "parse (render (speech n words)) = Some (speech n words)" by (rule parse_rendered)
  then show ?thesis by (simp add: render_def speech_def)
qed

lemma say_consumed:
  assumes "isValidChannelName n" and "plain words"
  shows "consume '''' (sanitize (say n words)) = ([''PRIVMSG '' @ n @ '' :'' @ words], '''')"
proof -
  let ?l = "''PRIVMSG '' @ n @ '' :'' @ words"
  have "plain ?l" using assms plain_channel by (simp add: byte_def)
  then have "sanitize (?l @ [CR, LF]) = ?l @ [CR, LF]" "lf_free ?l"
    by (rule plain_sanitize, rule plain_lf_free)
  then have "sanitize (say n words) = (?l @ [CR]) @ LF # []" "lf_free (?l @ [CR])"
    by (simp_all add: say_def lf_simps)
  with consume_line [of "?l @ [CR]" "[]"] show ?thesis
    by (simp add: say_def strip_cr_def butlast_append)
qed

subsection \<open>Who hears it\<close>

definition listeners :: "server_state \<Rightarrow> ptr \<Rightarrow> channel \<Rightarrow> int set" where
  "listeners s p ch = fd_of s ` (set (members ch) - {p})"

lemma heard_once:
  "distinct (map h ps) \<Longrightarrow>
    concat (map replyText (filter (\<lambda>t. replyFd t = f) (map (reply_to l \<circ> h) ps)))
      = (if f \<in> h ` set ps then l else '''')"
  by (induction ps) (force simp: reply_to_def image_iff)+

lemma speech_result:
  assumes ok: "state_ok s" and ch: "findChannel n s = Some ch"
    and p: "getClientByFd fd s \<in> set (members ch)" and c: "deref s (getClientByFd fd s) = Some c"
    and words: "words \<noteq> ''''"
  defines "qs \<equiv> filter (\<lambda>q. q \<noteq> getClientByFd fd s) (members ch)"
  shows "dispatch mem fd (speech n words) s
      = Some (addReplies (map (reply_to (reply_privMsg c n words) \<circ> fd_of s) qs) CommandResult, s)"
    and "distinct (map (fd_of s) qs)"
proof -
  note d = state_ok_dir [OF ok]
  have e: "entry_ok s n ch" using findChannel_entry [OF ok ch] by simp
  then have v: "isValidChannelName n" "registered c" using p c by (auto simp: entry_ok_def)
  note chars = isValidChannelName_chars [OF v(1)]
  have live: "getClientByFd fd s \<noteq> NULL" using dirs.live_not_null [OF d c] .
  have "comma_split n = [n]" using chars by (auto intro: comma_split_single)
  then have "handlePrivMsg fd (speech n words) s
      = Some (addReplies (privmsg_spec fd (getClientByFd fd s) c words s n) CommandResult, s)"
    using live c words
    by (simp add: handlePrivMsg_def speech_def getParamCount_def getSingleParam_def splitByComma_eq
        privmsg_loop [OF ok] Let_def)
  moreover have "privmsg_spec fd (getClientByFd fd s) c words s n
      = map (reply_to (reply_privMsg c n words) \<circ> fd_of s) qs"
    using chars ch p by (simp add: privmsg_spec_def qs_def)
  moreover have "dispatch mem fd (speech n words) s = handlePrivMsg fd (speech n words) s"
    using c v(2) by (subst dispatch_open) (auto simp: speech_def name_search_result dispatch_switch_def)
  ultimately show "dispatch mem fd (speech n words) s
      = Some (addReplies (map (reply_to (reply_privMsg c n words) \<circ> fd_of s) qs) CommandResult, s)"
    by simp
  have "inj_on (fd_of s) (set (members ch))"
    using entry_ok_live [OF e] by (intro fd_of_inj [OF d]) blast
  then show "distinct (map (fd_of s) qs)"
    using e unfolding qs_def
    by (auto simp: distinct_map entry_ok_def channel_ok_def set_ok_distinct intro: inj_on_subset)
qed

lemma receive_speech:
  assumes ok: "srv_ok s" and fd: "fd \<in> conns s" and idle: "buf_at (recvBuffers s) fd = ''''"
    and ch: "findChannel n (serverState s) = Some ch"
    and p: "getClientByFd fd (serverState s) = p" "p \<in> set (members ch)" "deref (serverState s) p = Some c"
    and words: "plain words" "words \<noteq> ''''" "length (say n words) < 512"
  obtains s1 where "receiveData mems fd (Received (say n words)) s = Some s1" "srv_ok s1"
    "serverState s1 = serverState s"
    "\<And>f. out_stream f s1 = out_stream f s
      @ (if f \<in> listeners (serverState s) p ch then reply_privMsg c n words else '''')"
proof -
  let ?l = "''PRIVMSG '' @ n @ '' :'' @ words" and ?L = "reply_privMsg c n words"
    and ?qs = "filter (\<lambda>q. q \<noteq> p) (members ch)"
  let ?rs = "map (reply_to ?L \<circ> fd_of (serverState s)) ?qs"
  let ?s0 = "s\<lparr>recvBuffers := set_buf fd '''' (recvBuffers s)\<rparr>"
  have core: "srv_core s" using ok by (simp add: srv_ok_def)
  have sok: "state_ok (serverState s)" using srv_coreD(1) [OF core] .
  have v: "isValidChannelName n" using findChannel_entry [OF sok ch] by (simp add: entry_ok_def)
  have say: "say n words \<noteq> ''''" by (simp add: say_def)
  note run = speech_result [OF sok ch _ _ words(2), of fd c, unfolded p(1), OF p(2,3)]
  have "receiveData mems fd (Received (say n words)) s = process_lines mems 0 fd [?l] ?s0"
    using say_consumed [OF v words(1)] idle by (intro receiveData_spec [OF core fd say words(3)]) simp
  also have "\<dots> = processMessage (mems 0) fd ?l ?s0" by (cases "processMessage (mems 0) fd ?l ?s0") auto
  also have "\<dots> = Some (queue_replies ?rs ?s0)"
    using say_parsed [OF v, of words] run(1) [of "mems 0"]
    by (simp add: processMessage_def speech_def shouldDisconnect_def addReplies_def Let_def)
  finally have res: "receiveData mems fd (Received (say n words)) s = Some (queue_replies ?rs ?s0)" .
  have "srv_ok (queue_replies ?rs ?s0)"
    using receiveData_ok [OF ok fd say words(3), of mems] res by auto
  moreover have "out_stream f (queue_replies ?rs ?s0)
      = out_stream f s @ (if f \<in> listeners (serverState s) p ch then ?L else '''')" for f
  proof -
    have "fd_of (serverState s) ` set ?qs = listeners (serverState s) p ch" by (auto simp: listeners_def)
    with heard_once [OF run(2), of f ?L] show ?thesis by (simp add: out_stream_replies)
  qed
  ultimately show ?thesis using that res by simp
qed

text \<open>
  C3. What a member says reaches every other member. When the line \<open>PRIVMSG #channel :words\<close> of a
  member of the channel is received, the text as \<open>ReplyBuilder\<close> writes it, with the sender's names,
  is queued behind whatever else is queued for each other member, once; nobody else, the sender
  included, gets anything, and clients and channels do not change. Whatever happens then on other
  connections, once the system has accepted what is queued for a member, the message has been sent
  to it completely, behind everything that was queued before, unless it was disconnected.
\<close>

theorem message_reaches_members:
  assumes ok: "srv_ok s" and fd: "fd \<in> conns s" and idle: "buf_at (recvBuffers s) fd = ''''"
    and ch: "findChannel n (serverState s) = Some ch"
    and p: "getClientByFd fd (serverState s) = p" "p \<in> set (members ch)" "deref (serverState s) p = Some c"
    and words: "plain words" "words \<noteq> ''''" "length (say n words) < 512"
  shows "\<exists>s1. receiveData mems fd (Received (say n words)) s = Some s1 \<and> serverState s1 = serverState s
    \<and> (\<forall>f. out_stream f s1 = out_stream f s
          @ (if f \<in> listeners (serverState s) p ch then reply_privMsg c n words else ''''))
    \<and> (\<forall>f \<in> listeners (serverState s) p ch. \<forall>es s2. server_run s1 es s2 \<and> Close f \<notin> set es
          \<and> length (buf_at (sendBuffers s1) f) \<le> taken f es
        \<longrightarrow> prefix (out_stream f s @ reply_privMsg c n words) (sent f s2))"
proof -
  obtain s1 where s1: "receiveData mems fd (Received (say n words)) s = Some s1" "srv_ok s1"
      "serverState s1 = serverState s"
      "\<And>f. out_stream f s1 = out_stream f s
        @ (if f \<in> listeners (serverState s) p ch then reply_privMsg c n words else '''')"
    by (rule receive_speech [OF assms, where mems = mems]) (rule that)
  have "prefix (out_stream f s @ reply_privMsg c n words) (sent f s2)"
    if "f \<in> listeners (serverState s) p ch" "server_run s1 es s2" "Close f \<notin> set es"
      "length (buf_at (sendBuffers s1) f) \<le> taken f es" for f es s2
    using run_delivers [OF s1(2) that(2-4)] s1(4) [of f] that(1) by simp
  with s1 show ?thesis by blast
qed

text \<open>\<open>bob\<close> says something to \<open>ada\<close>, who still has \<open>hi\<close> queued.\<close>

theorem message_reaches_members_witness:
  "\<exists>s1 s2. receiveData (\<lambda>i j. True) 5 (Received (say ''#lobby'' ''hey'')) sample_server = Some s1
    \<and> server_step s1 (Send 4 500) s2
    \<and> prefix (''hi'' @ '':bob!bob@ircServ PRIVMSG #lobby :hey'' @ crlf) (sent 4 s2)"
proof -
  let ?b = "sample_client 5 ''bob''" and ?L = "'':bob!bob@ircServ PRIVMSG #lobby :hey'' @ crlf"
  have L: "reply_privMsg ?b ''#lobby'' ''hey'' = ?L"
    by (simp add: reply_privMsg_def buildPrefix_def sample_client_def getNickName_def getUserName_def)
  have ls: "listeners (serverState sample_server) 2 shared_channel = {4}"
    by (auto simp: listeners_def fd_of_def sample_client_def insert_Diff_if)
  have given: "5 \<in> conns sample_server" "buf_at (recvBuffers sample_server) 5 = ''''"
      "findChannel ''#lobby'' (serverState sample_server) = Some shared_channel"
      "getClientByFd 5 (serverState sample_server) = 2" "2 \<in> set (members shared_channel)"
      "deref (serverState sample_server) 2 = Some ?b"
    by simp_all
  have words: "plain ''hey''" "''hey'' \<noteq> ''''" "length (say ''#lobby'' ''hey'') < 512"
    by (simp_all add: byte_def say_def)
  obtain s1 where s1: "receiveData (\<lambda>i j. True) 5 (Received (say ''#lobby'' ''hey'')) sample_server = Some s1"
      and out: "\<forall>f. out_stream f s1 = out_stream f sample_server @ (if f \<in> {4} then ?L else '''')"
      and sends: "\<forall>f \<in> {4}. \<forall>es s2. server_run s1 es s2 \<and> Close f \<notin> set es
          \<and> length (buf_at (sendBuffers s1) f) \<le> taken f es
        \<longrightarrow> prefix (out_stream f sample_server @ ?L) (sent f s2)"
    using message_reaches_members [OF srv_ok_sample given words, of "\<lambda>i j. True"]
    unfolding L ls by (elim exE conjE) (rule that)
  have hi: "out_stream 4 sample_server = ''hi''" by (simp add: out_stream_def sent_def)
  have st: "server_step sample_server (Receive 5 (say ''#lobby'' ''hey'')) s1"
    by (rule step_receive [OF given(1) _ words(3) s1]) (simp add: say_def)
  have "srv_ok s1" "conns s1 = conns sample_server"
    using step_facts [OF st srv_ok_sample] by (simp_all add: conns_def)
  then obtain s2 where s2: "server_step s1 (Send 4 500) s2" using step_enabled(2) [of s1 4 500] by auto
  have "length (buf_at (sendBuffers s1) 4) \<le> length (out_stream 4 s1)" by (simp add: out_stream_def)
  also have "\<dots> \<le> 500" using out by (simp add: hi crlf_def)
  finally have "length (buf_at (sendBuffers s1) 4) \<le> taken 4 [Send 4 500]" by (simp add: taken_def)
  with bspec [OF sends, THEN spec, THEN spec, of 4 "[Send 4 500]" s2] run_step [OF s2]
  have "prefix (out_stream 4 sample_server @ ?L) (sent 4 s2)" by simp
  with s1 s2 show ?thesis unfolding hi by blast
qed

end
