(* ===== verification/Unit_Tests.thy ===== *)
theory Unit_Tests
  imports Server_State
begin

section \<open>The unit tests of the repository\<close>

text \<open>
  The programs under \<open>unitTest\<close>, run on the model: every expectation is evaluated on the definitions
  that the theorems are about. They hold as the tests state them, with two exceptions, which are
  expectations that the code does not meet either (\<open>test_ServerState\<close> on an unchanged nickname,
  \<open>test_Message\<close> on an index out of range).
\<close>

subsection \<open>\<open>test_parser.cpp\<close>\<close>

text \<open>One entry per test, in their order: the line, and the whole message expected.\<close>

definition parser_tests :: "(string \<times> string \<times> string list) list" where
  "parser_tests =
    [(''NICK hoge'', ''NICK'', [''hoge'']),
     (''nick hoge2'', ''NICK'', [''hoge2'']),
     (''NiCk Bob'', ''NICK'', [''Bob'']),
     (''USER hoge 0 * :Real Name'', ''USER'', [''hoge'', ''0'', ''*'', ''Real Name'']),
     (''PASS secretpass'', ''PASS'', [''secretpass'']),
     (''JOIN #general'', ''JOIN'', [''#general'']),
     (''JOIN #secret mykey'', ''JOIN'', [''#secret'', ''mykey'']),
     (''QUIT'', ''QUIT'', []),
     (''QUIT :Leaving for now'', ''QUIT'', [''Leaving for now'']),
     (''PRIVMSG #room :hello world'', ''PRIVMSG'', [''#room'', ''hello world'']),
     (''PRIVMSG hoge :hey there!'', ''PRIVMSG'', [''hoge'', ''hey there!'']),
     (''PRIVMSG #ch :hello :world: test'', ''PRIVMSG'', [''#ch'', ''hello :world: test'']),
     (''PRIVMSG #ch :  spaces  '', ''PRIVMSG'', [''#ch'', ''  spaces  '']),
     ('':nick!user@host PRIVMSG #ch :hi'', ''PRIVMSG'', [''#ch'', ''hi'']),
     ('':irc.example.com 001 hoge :Welcome'', ''001'', [''hoge'', ''Welcome'']),
     ('''', '''', []),
     (''   '', '''', []),
     (''MODE #room +i'', ''MODE'', [''#room'', ''+i'']),
     (''MODE #room +k password'', ''MODE'', [''#room'', ''+k'', ''password'']),
     (''MODE hoge +o'', ''MODE'', [''hoge'', ''+o'']),
     (''KICK #room baduser :Get away!'', ''KICK'', [''#room'', ''baduser'', ''Get away!'']),
     (''INVITE hoge #room'', ''INVITE'', [''hoge'', ''#room'']),
     (''TOPIC #room :New topic here'', ''TOPIC'', [''#room'', ''New topic here'']),
     (''TOPIC #room'', ''TOPIC'', [''#room'']),
     (''NICK  hoge'', ''NICK'', [''hoge'']),
     (''CMD p1 p2 p3 p4 p5 p6 p7 p8 p9 p10 p11 p12 p13 p14 p15 p16 p17'', ''CMD'',
        [''p1'', ''p2'', ''p3'', ''p4'', ''p5'', ''p6'', ''p7'', ''p8'', ''p9'', ''p10'', ''p11'', ''p12'',
         ''p13'', ''p14'', ''p15''])]"

definition parser_test_passes :: "string \<times> string \<times> string list \<Rightarrow> bool" where
  "parser_test_passes = (\<lambda>(line, c, ps). parse line = Some \<lparr>command = c, params = ps\<rparr>)"

lemma parser_tests_pass: "list_all parser_test_passes parser_tests"
  by code_simp

subsection \<open>\<open>test_Message.cpp\<close>\<close>

definition message_under_test :: message where
  "message_under_test =
     \<lparr>command = ''sample'', params = [''param1'', ''param2'', ''param3'', ''param4'']\<rparr>"

lemma message_tests:
  "getCommand message_under_test = ''sample''"
  "getParamCount message_under_test = length (getParams message_under_test)"
  "map (getSingleParam message_under_test) [0, 1, 2, 3]
    = [Some ''param1'', Some ''param2'', Some ''param3'', Some ''param4'']"
  "\<not> hasParam message_under_test 10" "hasParam message_under_test 2" "\<not> hasParam message_under_test 4"
  by code_simp+

text \<open>The test notes that this should be undefined.\<close>

lemma message_test_out_of_range: "getSingleParam message_under_test 42 = None"
  by code_simp

subsection \<open>\<open>test_ServerState.cpp\<close>\<close>

text \<open>
  The three parts of the test, with their results in order. The clients of the descriptors 10, 20
  and 30 are at the addresses 1, 2 and 3; \<open>known\<close> is the test of a returned pointer against \<open>NULL\<close>.
\<close>

definition known :: "ptr \<Rightarrow> bool" where
  "known p = (p \<noteq> NULL)"

definition names_test :: "(bool list \<times> server_state) option" where
  "names_test =
     do {
       let s = ServerState ''pass'';
       let t1 = [isCorrectPassword ''pass'' s, isCorrectPassword ''hoge'' s];
       let (added, s) = addNewClient (Some 1) 10 s;
       let again = fst (addNewClient (Some 9) 10 s);
       let socket10 = getClientByFd 10 s;
       (renamed, s) \<leftarrow> updateNickname socket10 ''SHATTORI'' s;
       let t2 = [added, known socket10, again, renamed, isNicknameExist ''SHATTORI'' s,
                 getClientByNick ''SHATTORI'' s = socket10];
       let (test, s) = ensureChannel True ''test'' s;
       let found = findChannel ''test'' s;
       let (emptied, s) = removeChannelIfEmpty ''test'' s;
       (renamed, s) \<leftarrow> updateNickname socket10 ''ATASHIRO'' s;
       let t3 = [test \<noteq> None, found \<noteq> None, emptied, renamed, known (getClientByNick ''SHATTORI'' s),
                 getClientByNick ''ATASHIRO'' s = socket10, isNicknameExist ''SHATTORI'' s,
                 isNicknameExist ''ATASHIRO'' s];
       let (added, s) = addNewClient (Some 2) 20 s;
       let socket20 = getClientByFd 20 s;
       (taken, s) \<leftarrow> updateNickname socket20 ''ATASHIRO'' s;
       (renamed, s) \<leftarrow> updateNickname socket20 ''TOYAMAGU'' s;
       Some (t1 @ t2 @ t3 @ [taken, renamed], s)
     }"

definition rooms_test :: "server_state \<Rightarrow> (bool list \<times> server_state) option" where
  "rooms_test s =
     do {
       let (ch1, s) = ensureChannel True ''2ch'' s;
       let (ch2, s) = ensureChannel True ''2ch'' s;
       let same = (ch1 = ch2);
       ch1 \<leftarrow> ch1;
       let s = putChannel ''2ch'' (snd (addMember 1 ch1)) s;
       let (emptied, s) = removeChannelIfEmpty ''2ch'' s;
       ch1 \<leftarrow> findChannel ''2ch'' s;
       let s = putChannel ''2ch'' (snd (addInvitedMember 1 (snd (addOperator 1 ch1)))) s;
       (removed, s) \<leftarrow> removeClient 10 s;
       (absent, s) \<leftarrow> removeClient 42 s;
       let t = [same, emptied, removed, known (getClientByFd 10 s), known (getClientByNick ''ATASHIRO'' s),
                findChannel ''2ch'' s = None, absent, fst (removeChannelIfEmpty ''hogefuga'' s),
                known (getClientByFd 42 s), known (getClientByNick ''ZAKI'' s), findChannel ''5ch'' s = None];
       (own, s) \<leftarrow> updateNickname 2 ''TOYAMAGU'' s;
       (blank, s) \<leftarrow> updateNickname 2 '''' s;
       Some (t @ [own, blank], s)
     }"

definition leaving_test :: "server_state \<Rightarrow> (bool list \<times> server_state) option" where
  "leaving_test s =
     do {
       let (added, s) = addNewClient (Some 3) 30 s;
       (renamed, s) \<leftarrow> updateNickname 3 ''ENKWAK'' s;
       let (ch3, s) = ensureChannel True ''5ch'' s;
       ch3 \<leftarrow> ch3;
       let ch3 = snd (addInvitedMember 3 (snd (addOperator 3 (snd (addMember 2 (snd (addMember 3 ch3)))))));
       let s = putChannel ''5ch'' ch3 s;
       (removed, s) \<leftarrow> removeClient 20 s;
       Some ([getMemberCount ch3 = 2, removed, fst (removeChannelIfEmpty ''5ch'' s)], s)
     }"

text \<open>The expected results, in order; \<open>own\<close> (the last but one of \<open>rooms_test\<close>) is what the code returns.\<close>

lemma state_tests:
  "Option.bind names_test (\<lambda>(t1, s). Option.bind (rooms_test s) (\<lambda>(t2, s).
      map_option (\<lambda>(t3, s). (t1, t2, t3)) (leaving_test s)))
    = Some ([True, False, True, True, False, True, True, True, True, True, True, True, False, True, False,
             True, False, True],
            [True, False, True, False, False, True, False, False, False, False, True, True, False],
            [True, True, False])"
  by code_simp

end
