(* ===== verification/Spec2Isabelle.thy ===== *)
theory Spec2Isabelle
  imports Program Authenticity Readback Mode_Changes Conversation Fairness Unit_Tests
begin

text \<open>
  \<^bold>\<open>ircserv: a model of the server and its correctness\<close>

  The program is a single-threaded IRC server in C++98. \<open>main\<close> (\<open>src/main.cpp\<close>) reads port and
  password and runs \<open>Server::ircLoop\<close> (\<open>src/Server.cpp\<close>): a \<open>poll\<close> loop that accepts connections,
  collects received bytes into lines, and sends queued replies. Each line goes through
  \<open>Parser::parse\<close> to \<open>CommandDispatcher::dispatch\<close>, which checks registration and calls one
  handler. Handlers read and change the \<open>ServerState\<close> (clients, nicknames, channels) and return a
  \<open>CommandResult\<close>: replies, each with the descriptor it is for, which the server then queues.

  \<^bold>\<open>How the model corresponds to the code\<close>

  Definitions keep the names of the functions (without the leading underscore) and the order of
  their branches. A class is a record of its data members, a \<open>std::string\<close> a \<open>string\<close> of 8-bit
  characters, a \<open>std::map\<close> or \<open>std::set\<close> the list of its entries in key order. \<open>int\<close> and \<open>size_t\<close>
  are words where their width matters (member limits, \<open>atoi\<close>, poll flags). State is passed and
  returned. \<open>None\<close> stands for undefined behaviour or an exception of the library: a null or dangling
  pointer, an index past the end, \<open>std::out_of_range\<close>, deleting twice. The answers of the
  operating system and of \<open>operator new\<close> are arguments.

  \<^item> \<open>Prelude\<close>, \<open>Std_Containers\<close>: characters, \<open>std::string\<close> searching, loops; maps and sets with
    their laws as the locales \<open>map_interface\<close> and \<open>set_interface\<close>.
  \<^item> \<open>Message_Parser\<close> (\<open>Message.cpp\<close>, \<open>Parser.cpp\<close>): the parser equals a grammar-level reading, is
    total, keeps the parameter bound, and inverts rendering.
  \<^item> \<open>Names\<close> (\<open>handleNick.cpp\<close>, \<open>handleJoin.cpp\<close>, \<open>_splitByComma\<close>): valid names and target lists.
  \<^item> \<open>Clients\<close>, \<open>Channels\<close>, \<open>Reply_Builder\<close> (\<open>Client.cpp\<close>, \<open>ChannelModes.cpp\<close>, \<open>Channel.cpp\<close>,
    \<open>ReplyBuilder.cpp\<close>, \<open>CommandResult.cpp\<close>): the data of the server; replies are single lines.
  \<^item> \<open>Server_State\<close> (\<open>ServerState.cpp\<close>): the dictionaries over an explicit heap of clients. The
    invariant \<open>state_ok\<close> says that heap, dictionaries and channels describe each other exactly;
    every operation keeps it (locale \<open>client_directory\<close>), so no pointer dangles.
  \<^item> \<open>Command_Base\<close>, \<open>Handlers_Registration\<close>, \<open>Handlers_Join\<close>, \<open>Handlers_Channel\<close>, \<open>Handlers_Kick\<close>,
    \<open>Handlers_Mode\<close> (\<open>src/handle*.cpp\<close>): the contract of a handler is the locale
    \<open>command_handler\<close>, interpreted for each of them; JOIN and KICK refine abstract specifications,
    and each handler has a theorem on exactly what it may change and whom it tells. \<open>Mode_Changes\<close>
    states the effect of a mode string as a list of changes (\<open>mode_spec\<close>), with the channel it leaves
    and the announcement it makes, and shows that the loop of \<open>handleMode\<close> computes it.
  \<^item> \<open>Dispatcher\<close>, \<open>Registration\<close> (\<open>CommandDispatcher.cpp\<close>): the command table, the registration
    gate, authority over channels across all commands, and registration as a protocol.
  \<^item> \<open>Server\<close> (\<open>Server.cpp\<close>, \<open>Server.hpp\<close>): buffers, poll entries, the loops.
    \<open>Server_Invariant\<close>: \<open>srv_ok\<close>, the agreement of poll entries, buffers and clients.
    \<open>Server_Streams\<close>: received bytes as a stream of lines, output as a stream of bytes.
    \<open>Server_Loop\<close>: the poll entries under the loop and its measure.
    \<open>Server_Events\<close>: the event system \<open>server_step\<close> and its invariants by rule induction over runs;
    \<open>loop_run\<close> adds the event that only a failed \<open>send\<close> makes possible, a descriptor closed again.
    \<open>Server_Passes\<close>: one pass of the \<open>for\<close> loop, failed \<open>send\<close> included, as events.
    \<open>Server_Rounds\<close>: a round as the service of a queue of entries (\<open>served\<close>), sequences of rounds with
    their outcome (\<open>rounds\<close>), when a round is undefined (\<open>overruns\<close>, \<open>undefined_in\<close>), and which descriptors
    are closed. \<open>Server_Authentication\<close>: the password check carried from
    received bytes through lines, parser and dispatcher to the clients of any reachable state, and
    what one connection cannot do to the clients of others. \<open>Delivery\<close>: how much the system has to
    accept until what is queued has been sent. \<open>Conversation\<close>: one \<open>PRIVMSG\<close> line followed from the
    bytes received to the bytes sent to every other member of the channel. \<open>Fairness\<close>: a round of
    \<open>ircLoop\<close> serves each entry exactly once, and what is queued is sent in boundedly many rounds.
  \<^item> \<open>Program\<close> (\<open>main.cpp\<close>), \<open>Banner\<close> (\<open>Banner.cpp\<close>): arguments, exceptions and exit status; the
    start-up animation.
  \<^item> \<open>Unit_Tests\<close> (\<open>unitTest\<close>): the expectations of the repository's own tests, evaluated on the model.

  \<^bold>\<open>What the server promises, without the implementation\<close>

  \<open>Chat\<close> is the contract of the whole server: users at their connections, rooms with a topic, modes,
  members, operators and invited users, all given by descriptors, and one step per command
  (\<open>chat_step\<close>). It has no pointers, heap, dictionaries, sorted containers, loops over indices or
  replies. Of the code it uses only the syntax of names, target lists and numbers (\<open>isValidNick\<close>,
  \<open>isValidChannelName\<close>, \<open>comma_split\<close>, \<open>atoi\<close>), and which allocations succeed.

  \<^item> \<open>Chat_Refinement\<close>: \<open>abs_chat\<close> reads the abstract service off a \<open>ServerState\<close>, and every handler,
    hence \<open>dispatch\<close>, is exactly one abstract step (a functional refinement, on every branch).
  \<^item> \<open>Chat_Server\<close>: the same for connections, bytes and lines; from the constructor on, \<open>ircLoop\<close>
    implements a run of \<open>service_step\<close>.
  \<^item> \<open>Audience\<close>: who can receive replies to a command. \<open>Authenticity\<close>: a reply to
    another client starts with the issuer's own prefix and fits no other name. \<open>Membership\<close>: how
    one comes to be a member or an operator of a channel, proved on the abstract service and carried
    back by the refinement.
    \<open>Readback\<close>: what \<open>ReplyBuilder\<close> writes, the line reader and \<open>Parser\<close> read back; that names hold no
    spaces, which this needs, is an invariant of the abstract service.

  \<^bold>\<open>Loops and bounds\<close>

  No definition uses fuel. Loops over lists recurse on them; the line loop of \<open>receiveData\<close> ends
  because every round shortens the buffer (its termination proof uses that a command does not touch
  the receive buffers except by erasing one). The \<open>for\<close> loop of \<open>ircLoop\<close> changes the vector it
  walks, so it is a \<open>partial_function\<close>; \<open>poll_for_serves\<close> proves by the measure \<open>weight\<close> of the
  entries still to visit (a listener that may append an entry counts twice) that it returns unless
  it leaves the vector, and \<open>poll_round_returns\<close> says exactly when that is. The outer \<open>while\<close> loop runs
  over a list of rounds of any length: the rounds until the signal flag is cleared.

  \<^bold>\<open>Hypotheses on the environment\<close>

  Only what the calls document. \<open>os_ok\<close>: \<open>accept\<close> returns descriptors that are not open, \<open>new\<close> fresh
  addresses, \<open>recv\<close> at most the bytes asked for and, after \<open>POLLIN\<close>, not that it would block, and
  \<open>send\<close> -1 or a number of bytes. \<open>poll_ok\<close>: \<open>POLLOUT\<close> is reported only where asked for. \<open>round_ok\<close> and
  \<open>env_ok\<close> say this of a round and of all rounds. Every call may fail: a failing \<open>send\<close> and an error on
  the listening socket are covered, and \<open>failed_send_unnoticed\<close> shows what the code does after the first.
  A \<open>send\<close> that raises \<open>SIGPIPE\<close> never returns and is outside the model. Only \<open>queue_drained\<close> asks for
  more, \<open>drains\<close>: the listening socket is fine and peers read, that is, \<open>poll\<close> reports \<open>POLLOUT\<close>
  where asked and \<open>send\<close> then takes at least a byte.

  \<^bold>\<open>Not modelled\<close>

  Log and debug output (\<open>Debug.hpp\<close>), the empty delay loop of the banner, the \<open>__APPLE__\<close> branches, the
  deleted copy operations, and the reporting code of the unit tests. \<open>std::bad_alloc\<close> is modelled where the
  code itself allocates (clients and channels), not for growing strings and containers.
\<close>

end
